(* ===== verification/Rock_Prelude.thy ===== *)
theory Rock_Prelude
  imports Main "HOL-Library.Word"
begin

text \<open>
  Shared vocabulary of the development: machine-integer types, the checked and saturating
  operations of the Rust core library that the kernel calls, panics as values, little-endian
  byte strings, and generic facts on lists, bits and reachable states.
\<close>

unbundle bit_operations_syntax

section \<open>Machine integers\<close>

type_synonym u8 = "8 word"
type_synonym u16 = "16 word"
type_synonym u32 = "32 word"
type_synonym u64 = "64 word"

named_theorems rock_consts \<open>the constants of the source, unfolded\<close>
named_theorems kernel_arith \<open>unsigned readings of the kernel's checked and saturating arithmetic\<close>

text \<open>
  The Rust core operations on \<open>u64\<close> used by the kernel. The plain \<open>+\<close> of the kernel is
  compiled by the profile the README builds (\<open>cargo run\<close>, \<open>cargo bootimage\<close>: the debug
  profile), in which an overflowing addition panics; \<open>add_ok\<close> is that check.
\<close>

definition add_ok :: "u64 \<Rightarrow> u64 \<Rightarrow> bool" where
  "add_ok a b \<longleftrightarrow> unat a + unat b < 2 ^ 64"

definition checked_add :: "u64 \<Rightarrow> u64 \<Rightarrow> u64 option" where
  "checked_add a b = (if add_ok a b then Some (a + b) else None)"

definition saturating_add :: "u64 \<Rightarrow> u64 \<Rightarrow> u64" where
  "saturating_add a b = (if add_ok a b then a + b else - 1)"

definition saturating_sub :: "u64 \<Rightarrow> u64 \<Rightarrow> u64" where
  "saturating_sub a b = (if a < b then 0 else a - b)"

lemma unat_add_ok [kernel_arith]: "add_ok a b \<Longrightarrow> unat (a + b) = unat a + unat b"
  by (simp add: add_ok_def unat_word_ariths)

lemma u64_bound: "unat (w :: u64) < 2 ^ 64"
  using unsigned_less[of w] by simp

lemma unat_of_nat_u64 [kernel_arith]: "n < 2 ^ 64 \<Longrightarrow> unat (of_nat n :: u64) = n"
  by (simp add: unat_of_nat)

lemma checked_add_SomeD:
  "checked_add a b = Some c \<Longrightarrow> c = a + b \<and> unat c = unat a + unat b"
  by (auto simp: checked_add_def kernel_arith split: if_splits)

lemma checked_add_None_iff: "checked_add a b = None \<longleftrightarrow> \<not> add_ok a b"
  by (simp add: checked_add_def)

lemma unat_saturating_add [kernel_arith]:
  "unat (saturating_add a b) = min (unat a + unat b) (2 ^ 64 - 1)"
  by (simp add: saturating_add_def add_ok_def unat_word_ariths min_def
      unsigned_minus_1_eq_mask mask_eq_exp_minus_1)

lemma unat_saturating_sub [kernel_arith]: "unat (saturating_sub a b) = unat a - unat b"
  by (simp add: saturating_sub_def unat_sub word_less_nat_alt word_le_nat_alt not_less)

section \<open>Panics as values\<close>

text \<open>
  A Rust panic ends in the handler of \<open>main.rs\<close>, which loops forever; a CPU page fault ends
  in \<open>page_fault_handler\<close>, which halts forever. Both are errors of the model: \<open>Inl\<close> of one
  of these reasons, and no kernel state after it.
\<close>

datatype panic =
    UnwrapNone        \<comment> \<open>\<open>Option::unwrap\<close> or \<open>expect\<close> on \<open>None\<close>\<close>
  | ExpectErr         \<comment> \<open>\<open>Result::expect\<close> on \<open>Err\<close>\<close>
  | Overflow          \<comment> \<open>an arithmetic overflow check\<close>
  | IndexOutOfBounds  \<comment> \<open>an array or slice index check\<close>
  | AssertFailed      \<comment> \<open>\<open>assert!\<close> or \<open>assert_eq!\<close>\<close>
  | BadVirtAddr       \<comment> \<open>\<open>VirtAddr::new\<close> on a non-canonical address\<close>
  | PageFault         \<comment> \<open>the CPU faults on an unmapped user address\<close>
  | Misaligned        \<comment> \<open>the debug check of a misaligned pointer access\<close>

type_synonym 'a outcome = "panic + 'a"

definition obind :: "'a outcome \<Rightarrow> ('a \<Rightarrow> 'b outcome) \<Rightarrow> 'b outcome" where
  "obind m f = (case m of Inl p \<Rightarrow> Inl p | Inr x \<Rightarrow> f x)"

lemma obind_simps [simp]: "obind (Inl p) f = Inl p" "obind (Inr x) f = f x"
  by (simp_all add: obind_def)

lemma obind_eq_InrD: "obind m f = Inr y \<Longrightarrow> \<exists>x. m = Inr x \<and> f x = Inr y"
  by (cases m) auto

section \<open>Byte string literals\<close>

definition bytes_of :: "string \<Rightarrow> u8 list" where
  "bytes_of s = map of_char s"

section \<open>Little-endian byte strings\<close>

text \<open>\<open>from_le_bytes\<close> and \<open>to_le_bytes\<close> of the unsigned integers; the width is the number of bytes.\<close>

fun from_le_bytes :: "u8 list \<Rightarrow> nat" where
  "from_le_bytes [] = 0"
| "from_le_bytes (b # bs) = unat b + 256 * from_le_bytes bs"

fun to_le_bytes :: "nat \<Rightarrow> nat \<Rightarrow> u8 list" where
  "to_le_bytes 0 v = []"
| "to_le_bytes (Suc n) v = of_nat v # to_le_bytes n (v div 256)"

lemma length_to_le_bytes [simp]: "length (to_le_bytes n v) = n"
  by (induction n arbitrary: v) auto

lemma from_to_le_bytes: "from_le_bytes (to_le_bytes n v) = v mod 256 ^ n"
  by (induction n arbitrary: v) (simp_all add: unat_of_nat mod_mult2_eq)

lemma from_le_bytes_bound: "from_le_bytes bs < 256 ^ length bs"
proof (induction bs)
  case (Cons b bs)
  have "unat b < 256" using unsigned_less[of b] by simp
  then have "unat b \<le> 255" by simp
  moreover have "from_le_bytes bs \<le> 256 ^ length bs - 1" using Cons by simp
  ultimately have "unat b + 256 * from_le_bytes bs \<le> 255 + 256 * (256 ^ length bs - 1)"
    by (intro add_mono mult_left_mono) simp_all
  also have "\<dots> < 256 * 256 ^ length bs"
    using one_le_power[of "256 :: nat" "length bs"] by (simp add: diff_mult_distrib2)
  finally show ?case by simp
qed simp

section \<open>Bits of a byte\<close>

text \<open>\<open>u8::trailing_zeros\<close>: the number of clear low bits, the width for zero.\<close>

definition trailing_zeros :: "'a::len word \<Rightarrow> nat" where
  "trailing_zeros w = length (takeWhile (\<lambda>i. \<not> bit w i) [0..<LENGTH('a)])"

lemma length_takeWhile_upt_least:
  "n < m \<Longrightarrow> P n \<Longrightarrow> (\<And>i. i < n \<Longrightarrow> \<not> P i) \<Longrightarrow> length (takeWhile (\<lambda>i. \<not> P i) [0..<m]) = n"
proof -
  assume n: "n < m" "P n" "\<And>i. i < n \<Longrightarrow> \<not> P i"
  have "takeWhile (\<lambda>i. \<not> P i) [0..<m] = take n [0..<m]"
    using n by (intro takeWhile_eq_take_P_nth) auto
  then show ?thesis using n(1) by simp
qed

lemma trailing_zeros_bit:
  assumes "(w :: 'a::len word) \<noteq> 0"
  shows "trailing_zeros w < LENGTH('a) \<and> bit w (trailing_zeros w)
    \<and> (\<forall>i < trailing_zeros w. \<not> bit w i)"
proof -
  obtain k where k: "bit w k" using assms by (metis bit_eq_iff bit_0_eq bot_apply bot_bool_def)
  then have kl: "k < LENGTH('a)" by (rule bit_imp_le_length)
  define n where "n = (LEAST i. bit w i)"
  have n: "bit w n" "n \<le> k" "\<And>i. i < n \<Longrightarrow> \<not> bit w i"
    using k by (auto simp: n_def intro: LeastI Least_le dest: not_less_Least)
  have "trailing_zeros w = n"
    unfolding trailing_zeros_def using n kl by (intro length_takeWhile_upt_least) auto
  then show ?thesis using n kl by auto
qed

lemma byte_mask_test:
  "(b :: 'a::len word) AND push_bit k 1 = 0 \<longleftrightarrow> \<not> bit b k"
  by (simp add: and_exp_eq_0_iff_not_bit push_bit_eq_mult)

lemma byte_not_full: "b \<noteq> (0xFF :: u8) \<Longrightarrow> NOT b \<noteq> 0"
proof
  assume b: "b \<noteq> 0xFF" "NOT b = 0"
  then have "b = NOT 0" by (metis bit.double_compl)
  moreover have "(NOT 0 :: u8) = 0xFF" by simp
  ultimately show False using b(1) by simp
qed

section \<open>Tables\<close>

lemma map_of_list_allD: "list_all (\<lambda>p. P (fst p) (snd p)) t \<Longrightarrow> map_of t k = Some v \<Longrightarrow> P k v"
  by (fastforce simp: list_all_iff dest: map_of_SomeD)

section \<open>Reachable states\<close>

text \<open>
  The states a machine reaches from an initial set by a step relation, and the induction every
  invariant proof of the development goes through, as a locale whose interpretations supply the
  two proof obligations of an invariant.
\<close>

inductive reach :: "('s \<Rightarrow> bool) \<Rightarrow> ('s \<Rightarrow> 's \<Rightarrow> bool) \<Rightarrow> 's \<Rightarrow> bool"
  for init :: "'s \<Rightarrow> bool" and step :: "'s \<Rightarrow> 's \<Rightarrow> bool" where
  reach_init: "init s \<Longrightarrow> reach init step s"
| reach_step: "reach init step s \<Longrightarrow> step s t \<Longrightarrow> reach init step t"

locale invariant_of =
  fixes init :: "'s \<Rightarrow> bool" and step :: "'s \<Rightarrow> 's \<Rightarrow> bool" and inv :: "'s \<Rightarrow> bool"
  assumes inv_init: "init s \<Longrightarrow> inv s"
    and inv_step: "inv s \<Longrightarrow> step s t \<Longrightarrow> inv t"
begin

lemma inv_reach: "reach init step s \<Longrightarrow> inv s"
  by (induction rule: reach.induct) (auto intro: inv_init inv_step)

lemma inv_reach_step: "reach init step s \<Longrightarrow> step s t \<Longrightarrow> inv s \<and> inv t"
  by (blast intro: inv_reach inv_step)

end

end
