(* ===== verification/Rock_Memory.thy ===== *)
theory Rock_Memory
  imports Rock_Prelude
begin

text \<open>
  Physical memory (\<open>src/memory.rs\<close>): the bitmap frame allocator over 65536 frames of 4 KiB,
  the statics that count free frames, and the offset window. The abstract view of the bitmap is
  the set of free frame numbers; the lemmas relate every operation to that set, and the locale
  \<open>frame_source\<close> is the contract the paging code relies on.
\<close>

section \<open>The bitmap\<close>

definition PAGE_SIZE :: nat where [rock_consts]: "PAGE_SIZE = 4096"

definition BITMAP_BYTES :: nat where [rock_consts]: "BITMAP_BYTES = 8192"

definition FRAME_BITMAP_BITS :: nat where [rock_consts]: "FRAME_BITMAP_BITS = BITMAP_BYTES * 8"

type_synonym bitmap = "u8 list"

text \<open>The array type \<open>[u8; BITMAP_BYTES]\<close>.\<close>

definition wf_bitmap :: "bitmap \<Rightarrow> bool" where
  "wf_bitmap bm \<longleftrightarrow> length bm = BITMAP_BYTES"

definition mark_free :: "bitmap \<Rightarrow> nat \<Rightarrow> bitmap" where
  "mark_free bm idx =
     (if FRAME_BITMAP_BITS \<le> idx then bm
      else bm[idx div 8 := bm ! (idx div 8) AND NOT (push_bit (idx mod 8) 1)])"

definition mark_used :: "bitmap \<Rightarrow> nat \<Rightarrow> bitmap" where
  "mark_used bm idx =
     (if FRAME_BITMAP_BITS \<le> idx then bm
      else bm[idx div 8 := bm ! (idx div 8) OR push_bit (idx mod 8) 1])"

definition count_free :: "bitmap \<Rightarrow> u64" where
  "count_free bm =
     foldl (\<lambda>n idx. if bm ! (idx div 8) AND push_bit (idx mod 8) 1 = 0 then n + 1 else n)
       0 [0..<FRAME_BITMAP_BITS]"

section \<open>Building the allocator from the boot memory map\<close>

text \<open>
  One region of the bootloader's memory map, as \<open>new\<close> reads it: whether its type is
  \<open>Usable\<close>, and its frame range.
\<close>

record mem_region =
  region_usable :: bool
  start_frame_number :: u64
  end_frame_number :: u64

definition free_one :: "bitmap \<times> u64 \<Rightarrow> nat \<Rightarrow> bitmap \<times> u64" where
  "free_one st idx =
     (case st of (bm, tot) \<Rightarrow>
        if FRAME_BITMAP_BITS \<le> idx then (bm, tot) else (mark_free bm idx, tot + 1))"

definition free_region :: "bitmap \<times> u64 \<Rightarrow> mem_region \<Rightarrow> bitmap \<times> u64" where
  "free_region st r =
     (if \<not> region_usable r then st
      else foldl free_one st [unat (start_frame_number r)..<unat (end_frame_number r)])"

definition ISA_VIDEO_LO :: nat where [rock_consts]: "ISA_VIDEO_LO = 0xA0000"
definition ISA_VIDEO_HI :: nat where [rock_consts]: "ISA_VIDEO_HI = 0xC0000"

text \<open>The allocator, the frames counted as usable, and the free count stored at start-up.\<close>

definition BitmapFrameAllocator_new :: "mem_region list \<Rightarrow> bitmap \<times> u64 \<times> u64" where
  "BitmapFrameAllocator_new memory_map =
     (let (bm0, tot) = foldl free_region (replicate BITMAP_BYTES 0xFF, 0) memory_map;
          bm1 = mark_used bm0 0;
          bm2 = foldl mark_used bm1 [ISA_VIDEO_LO div PAGE_SIZE..<ISA_VIDEO_HI div PAGE_SIZE]
      in (bm2, tot, count_free bm2))"

section \<open>Allocation and deallocation\<close>

text \<open>
  The allocator together with the static \<open>FREE_COUNT\<close> its methods update. A \<open>PhysFrame\<close> is
  its start address.
\<close>

record falloc =
  fa_bitmap :: bitmap
  FREE_COUNT :: u64

text \<open>The scan of \<open>allocate_frame_inner\<close> from byte \<open>i\<close> on: frame number and new bytes.\<close>

fun alloc_scan :: "nat \<Rightarrow> bitmap \<Rightarrow> nat option \<times> bitmap" where
  "alloc_scan i [] = (None, [])"
| "alloc_scan i (byte # rest) =
     (if byte = 0xFF then (case alloc_scan (Suc i) rest of (r, rest') \<Rightarrow> (r, byte # rest'))
      else let b = trailing_zeros (NOT byte) in
        if 8 \<le> b then (case alloc_scan (Suc i) rest of (r, rest') \<Rightarrow> (r, byte # rest'))
        else let byte' = byte OR push_bit b 1; frame_idx = i * 8 + b in
          if FRAME_BITMAP_BITS \<le> frame_idx
          then (case alloc_scan (Suc i) rest of
                  (r, rest') \<Rightarrow> (r, (byte' AND NOT (push_bit b 1)) # rest'))
          else (Some frame_idx, byte' # rest))"

definition allocate_frame_inner :: "falloc \<Rightarrow> u64 option \<times> falloc" where
  "allocate_frame_inner fa =
     (case alloc_scan 0 (fa_bitmap fa) of
        (None, bm) \<Rightarrow> (None, fa\<lparr>fa_bitmap := bm\<rparr>)
      | (Some frame_idx, bm) \<Rightarrow>
          (Some (of_nat frame_idx * of_nat PAGE_SIZE),
           fa\<lparr>fa_bitmap := bm, FREE_COUNT := FREE_COUNT fa - 1\<rparr>))"

definition deallocate_frame_inner :: "u64 \<Rightarrow> falloc \<Rightarrow> falloc" where
  "deallocate_frame_inner frame fa =
     (let idx = unat frame div PAGE_SIZE in
      if FRAME_BITMAP_BITS \<le> idx \<or> idx = 0 then fa
      else let byte = idx div 8; mask = push_bit (idx mod 8) 1 in
        if fa_bitmap fa ! byte AND mask = 0 then fa
        else fa\<lparr>fa_bitmap := (fa_bitmap fa)[byte := fa_bitmap fa ! byte AND NOT mask],
                FREE_COUNT := FREE_COUNT fa + 1\<rparr>)"

section \<open>The statics and the free functions of the module\<close>

record memory =
  ALLOCATOR :: "bitmap option"
  MEM_FREE_COUNT :: u64
  TOTAL_USABLE :: u64
  PHYSICAL_MEMORY_OFFSET :: u64

definition memory_static :: memory where
  "memory_static =
     \<lparr>ALLOCATOR = None, MEM_FREE_COUNT = 0, TOTAL_USABLE = 0, PHYSICAL_MEMORY_OFFSET = 0\<rparr>"

definition memory_init :: "u64 \<Rightarrow> mem_region list \<Rightarrow> memory \<Rightarrow> memory" where
  "memory_init physical_memory_offset memory_map m =
     (case BitmapFrameAllocator_new memory_map of (bm, tot, free) \<Rightarrow>
        m\<lparr>PHYSICAL_MEMORY_OFFSET := physical_memory_offset, ALLOCATOR := Some bm,
          TOTAL_USABLE := tot, MEM_FREE_COUNT := free\<rparr>)"

definition phys_to_virt :: "memory \<Rightarrow> u64 \<Rightarrow> u64 outcome" where
  "phys_to_virt m phys =
     (if add_ok phys (PHYSICAL_MEMORY_OFFSET m) then Inr (phys + PHYSICAL_MEMORY_OFFSET m)
      else Inl Overflow)"

text \<open>
  \<open>lock_allocator\<close> with its guard opened by \<open>as_mut\<close>, and the guard written back. Every
  client runs its allocator calls between the two.
\<close>

definition lock_allocator :: "memory \<Rightarrow> falloc option" where
  "lock_allocator m =
     (case ALLOCATOR m of None \<Rightarrow> None
      | Some bm \<Rightarrow> Some \<lparr>fa_bitmap = bm, FREE_COUNT = MEM_FREE_COUNT m\<rparr>)"

definition unlock_allocator :: "falloc \<Rightarrow> memory \<Rightarrow> memory" where
  "unlock_allocator fa m = m\<lparr>ALLOCATOR := Some (fa_bitmap fa), MEM_FREE_COUNT := FREE_COUNT fa\<rparr>"

definition allocate_frame :: "memory \<Rightarrow> u64 option \<times> memory" where
  "allocate_frame m =
     (case lock_allocator m of None \<Rightarrow> (None, m)
      | Some fa \<Rightarrow> (case allocate_frame_inner fa of (r, fa') \<Rightarrow> (r, unlock_allocator fa' m)))"

definition deallocate_frame :: "u64 \<Rightarrow> memory \<Rightarrow> memory" where
  "deallocate_frame frame m =
     (case lock_allocator m of None \<Rightarrow> m
      | Some fa \<Rightarrow> unlock_allocator (deallocate_frame_inner frame fa) m)"

definition free_frames :: "memory \<Rightarrow> u64" where
  "free_frames m = MEM_FREE_COUNT m"

definition total_usable_frames :: "memory \<Rightarrow> u64" where
  "total_usable_frames m = TOTAL_USABLE m"

section \<open>The abstract view: the set of free frames\<close>

definition free_set :: "bitmap \<Rightarrow> nat set" where
  "free_set bm = {idx. idx < FRAME_BITMAP_BITS \<and> \<not> bit (bm ! (idx div 8)) (idx mod 8)}"

lemma free_set_finite [simp]: "finite (free_set bm)"
  by (simp add: free_set_def)

lemma wf_bitmap_updates [simp]:
  "wf_bitmap (mark_free bm idx) = wf_bitmap bm"
  "wf_bitmap (mark_used bm idx) = wf_bitmap bm"
  by (simp_all add: wf_bitmap_def mark_free_def mark_used_def)

lemma div_mod8_eq: "(i::nat) div 8 = j div 8 \<Longrightarrow> i mod 8 = j mod 8 \<Longrightarrow> i = j"
  by (metis div_mult_mod_eq)

lemma bit_byte_clear:
  "bit (b AND NOT (2 ^ k) :: u8) n \<longleftrightarrow> bit b n \<and> n \<noteq> k"
  by (auto simp: bit_simps dest: bit_imp_le_length)

lemma bit_byte_set:
  "k < 8 \<Longrightarrow> bit (b OR 2 ^ k :: u8) n \<longleftrightarrow> bit b n \<or> n = k"
  by (auto simp: bit_simps)

lemma free_set_clear:
  assumes "wf_bitmap bm" "idx < FRAME_BITMAP_BITS"
  shows "free_set (bm[idx div 8 := bm ! (idx div 8) AND NOT (push_bit (idx mod 8) 1)]) = insert idx (free_set bm)"
proof -
  have l: "idx div 8 < length bm" using assms by (simp add: wf_bitmap_def rock_consts)
  show ?thesis using assms l
    by (auto simp: free_set_def nth_list_update bit_byte_clear dest: div_mod8_eq split: if_splits)
qed

lemma free_set_set:
  assumes "wf_bitmap bm" "idx < FRAME_BITMAP_BITS"
  shows "free_set (bm[idx div 8 := bm ! (idx div 8) OR push_bit (idx mod 8) 1]) = free_set bm - {idx}"
proof -
  have l: "idx div 8 < length bm" using assms by (simp add: wf_bitmap_def rock_consts)
  show ?thesis using assms l
    by (auto simp: free_set_def nth_list_update bit_byte_set dest: div_mod8_eq split: if_splits)
qed

lemma free_set_mark_free:
  "wf_bitmap bm \<Longrightarrow> free_set (mark_free bm idx) = free_set bm \<union> ({idx} \<inter> {..<FRAME_BITMAP_BITS})"
  using free_set_clear[of bm idx] by (auto simp: mark_free_def)

lemma free_set_mark_used:
  "wf_bitmap bm \<Longrightarrow> free_set (mark_used bm idx) = free_set bm - {idx}"
  using free_set_set[of bm idx] by (auto simp: mark_used_def) (auto simp: free_set_def)

lemma foldl_count: "foldl (\<lambda>n x. if P x then n + 1 else n) (a::u64) xs = a + of_nat (length (filter P xs))"
  by (induction xs arbitrary: a) auto

lemma count_free_card: "count_free bm = of_nat (card (free_set bm))"
proof -
  let ?P = "\<lambda>idx. \<not> bit (bm ! (idx div 8)) (idx mod 8)"
  have "count_free bm = of_nat (length (filter ?P [0..<FRAME_BITMAP_BITS]))"
    unfolding count_free_def byte_mask_test foldl_count by simp
  also have "length (filter ?P [0..<FRAME_BITMAP_BITS]) = card (set (filter ?P [0..<FRAME_BITMAP_BITS]))"
    by (rule distinct_card [symmetric]) simp
  also have "set (filter ?P [0..<FRAME_BITMAP_BITS]) = free_set bm"
    by (auto simp: free_set_def)
  finally show ?thesis .
qed

lemma alloc_scan_byte:
  assumes "byte \<noteq> (0xFF::u8)"
  shows "trailing_zeros (NOT byte) < 8" "\<not> bit byte (trailing_zeros (NOT byte))"
    "m < trailing_zeros (NOT byte) \<Longrightarrow> bit byte m"
  using trailing_zeros_bit[OF byte_not_full[OF assms]] by (auto simp: bit_simps)

definition used_at :: "bitmap \<Rightarrow> nat \<Rightarrow> bool" where
  "used_at bs n \<longleftrightarrow> bit (bs ! (n div 8)) (n mod 8)"

lemma used_at_Cons: "used_at (b # bs) n \<longleftrightarrow> (if n < 8 then bit b n else used_at bs (n - 8))"
proof (cases "n < 8")
  case False
  then have "n div 8 = Suc ((n - 8) div 8)" "n mod 8 = (n - 8) mod 8"
    by (auto simp: le_div_geq le_mod_geq)
  with False show ?thesis by (simp add: used_at_def)
qed (simp add: used_at_def)

lemma bit_full_byte: "m < 8 \<Longrightarrow> bit (0xFF::u8) m"
proof -
  assume "m < 8"
  then have "bit (mask 8 :: u8) m" by (simp only: bit_mask_iff) simp
  moreover have "mask 8 = (0xFF::u8)" by (simp add: mask_eq_exp_minus_1)
  ultimately show ?thesis by (simp only:)
qed

definition set_used :: "bitmap \<Rightarrow> nat \<Rightarrow> bitmap" where
  "set_used bs n = bs[n div 8 := bs ! (n div 8) OR push_bit (n mod 8) 1]"

lemma set_used_Cons: "8 \<le> n \<Longrightarrow> set_used (b # bs) n = b # set_used bs (n - 8)"
  by (simp add: set_used_def le_div_geq le_mod_geq)

lemma alloc_scan_spec:
  assumes "8 * (i + length bs) \<le> FRAME_BITMAP_BITS"
  shows "case alloc_scan i bs of
      (None, bs') \<Rightarrow> bs' = bs \<and> (\<forall>n < 8 * length bs. used_at bs n)
    | (Some f, bs') \<Rightarrow> \<exists>n < 8 * length bs. f = 8 * i + n \<and> \<not> used_at bs n
        \<and> (\<forall>m < n. used_at bs m) \<and> bs' = set_used bs n"
  using assms
proof (induction i bs rule: alloc_scan.induct)
  case (1 i)
  then show ?case by simp
next
  case (2 i byte rest)
  show ?case
  proof (cases "byte = 0xFF")
    case True
    obtain r rest' where r: "alloc_scan (Suc i) rest = (r, rest')" by (cases "alloc_scan (Suc i) rest")
    have IH: "case (r, rest') of (None, bs') \<Rightarrow> bs' = rest \<and> (\<forall>n < 8 * length rest. used_at rest n)
      | (Some f, bs') \<Rightarrow> \<exists>n < 8 * length rest. f = 8 * Suc i + n \<and> \<not> used_at rest n
        \<and> (\<forall>m < n. used_at rest m) \<and> bs' = set_used rest n"
      using 2(1)[OF True] 2(4) r by simp
    have full: "\<And>m. m < 8 \<Longrightarrow> bit byte m" using True bit_full_byte by blast
    have eq: "alloc_scan i (byte # rest) = (r, byte # rest')" using True r by simp
    show ?thesis
    proof (cases r)
      case None
      then show ?thesis using IH unfolding eq by (auto simp: used_at_Cons intro: full)
    next
      case (Some f)
      then obtain n where n: "n < 8 * length rest" "f = 8 * Suc i + n" "\<not> used_at rest n"
        "\<forall>m < n. used_at rest m" "rest' = set_used rest n" using IH by auto
      then have "8 + n < 8 * length (byte # rest) \<and> f = 8 * i + (8 + n)
          \<and> \<not> used_at (byte # rest) (8 + n) \<and> (\<forall>m < 8 + n. used_at (byte # rest) m)
          \<and> byte # rest' = set_used (byte # rest) (8 + n)"
        by (auto simp: used_at_Cons set_used_Cons intro: full)
      then show ?thesis unfolding eq Some by auto
    qed
  next
    case False
    note b = alloc_scan_byte[OF False]
    have "\<not> FRAME_BITMAP_BITS \<le> i * 8 + trailing_zeros (NOT byte)" using 2(4) b(1) by simp
    then show ?thesis using False b
      by (auto simp: Let_def used_at_Cons set_used_def used_at_def intro!: exI[of _ "trailing_zeros (NOT byte)"])
  qed
qed

definition frame_addr :: "nat \<Rightarrow> u64" where
  "frame_addr idx = of_nat idx * of_nat PAGE_SIZE"

lemma unat_frame_addr: "idx < FRAME_BITMAP_BITS \<Longrightarrow> unat (frame_addr idx) = idx * PAGE_SIZE"
  by (simp add: frame_addr_def unat_word_ariths unat_of_nat rock_consts)

lemma frame_addr_div: "idx < FRAME_BITMAP_BITS \<Longrightarrow> unat (frame_addr idx) div PAGE_SIZE = idx"
  by (simp add: unat_frame_addr PAGE_SIZE_def)

lemma frame_addr_inj: "inj_on frame_addr {..<FRAME_BITMAP_BITS}"
  by (rule inj_on_inverseI[where g = "\<lambda>f. unat f div PAGE_SIZE"]) (simp only: lessThan_iff frame_addr_div)

lemma free_set_used_at: "free_set bm = {n. n < FRAME_BITMAP_BITS \<and> \<not> used_at bm n}"
  by (simp add: free_set_def used_at_def)

lemma allocate_frame_inner_spec:
  assumes "wf_bitmap (fa_bitmap fa)"
  shows "allocate_frame_inner fa =
    (if free_set (fa_bitmap fa) = {} then (None, fa)
     else let idx = Min (free_set (fa_bitmap fa)) in
       (Some (frame_addr idx),
        fa\<lparr>fa_bitmap := set_used (fa_bitmap fa) idx, FREE_COUNT := FREE_COUNT fa - 1\<rparr>))"
proof (cases "alloc_scan 0 (fa_bitmap fa)")
  case (Pair r bm)
  have len: "8 * length (fa_bitmap fa) = FRAME_BITMAP_BITS" using assms by (simp add: wf_bitmap_def rock_consts)
  note spec = alloc_scan_spec[of 0 "fa_bitmap fa", unfolded Pair add_0 len, OF order_refl]
  show ?thesis
  proof (cases r)
    case None
    then show ?thesis using spec Pair
      by (auto simp: allocate_frame_inner_def free_set_used_at)
  next
    case (Some f)
    then have f: "f < FRAME_BITMAP_BITS" "\<not> used_at (fa_bitmap fa) f"
      "\<forall>m < f. used_at (fa_bitmap fa) m" "bm = set_used (fa_bitmap fa) f" using spec by auto
    have "Min (free_set (fa_bitmap fa)) = f"
      using f by (intro Min_eqI) (auto simp: free_set_used_at intro: leI)
    moreover have "free_set (fa_bitmap fa) \<noteq> {}" using f by (auto simp: free_set_used_at)
    ultimately show ?thesis using Some f Pair
      by (simp add: allocate_frame_inner_def frame_addr_def)
  qed
qed

lemma card_free_set_bound: "card (free_set bm) \<le> FRAME_BITMAP_BITS"
  using card_mono[of "{..<FRAME_BITMAP_BITS}" "free_set bm"] by (auto simp: free_set_def)

lemma unat_card_free_set: "unat (of_nat (card (free_set bm)) :: u64) = card (free_set bm)"
  using card_free_set_bound[of bm] by (simp add: unat_of_nat rock_consts)

definition falloc_ok :: "falloc \<Rightarrow> bool" where
  "falloc_ok fa \<longleftrightarrow> wf_bitmap (fa_bitmap fa) \<and> 0 \<notin> free_set (fa_bitmap fa)
     \<and> FREE_COUNT fa = of_nat (card (free_set (fa_bitmap fa)))"

definition free_addrs :: "falloc \<Rightarrow> u64 set" where
  "free_addrs fa = frame_addr ` free_set (fa_bitmap fa)"

definition valid_frame :: "u64 \<Rightarrow> bool" where
  "valid_frame f \<longleftrightarrow> f \<in> frame_addr ` {1..<FRAME_BITMAP_BITS}"

lemma free_set_set_used:
  "wf_bitmap bm \<Longrightarrow> idx < FRAME_BITMAP_BITS \<Longrightarrow> free_set (set_used bm idx) = free_set bm - {idx}"
  unfolding set_used_def by (rule free_set_set)

lemma wf_set_used [simp]: "wf_bitmap (set_used bm idx) = wf_bitmap bm"
  by (simp add: set_used_def wf_bitmap_def)

lemma free_set_bound: "idx \<in> free_set bm \<Longrightarrow> idx < FRAME_BITMAP_BITS"
  by (simp add: free_set_def)

lemma card_free_set_remove:
  "idx \<in> free_set bm \<Longrightarrow>
    (of_nat (card (free_set bm - {idx})) :: u64) = of_nat (card (free_set bm)) - 1"
  using card.remove[OF free_set_finite, of idx bm] by simp

lemma frame_addr_image_Diff:
  "A \<subseteq> {..<FRAME_BITMAP_BITS} \<Longrightarrow> idx \<in> A \<Longrightarrow> frame_addr ` (A - {idx}) = frame_addr ` A - {frame_addr idx}"
  using frame_addr_inj by (auto simp: inj_on_def)

lemma allocate_frame_inner_None:
  assumes "falloc_ok fa" "allocate_frame_inner fa = (None, fa')"
  shows "free_addrs fa = {} \<and> fa' = fa"
  using assms by (auto simp: allocate_frame_inner_spec falloc_ok_def free_addrs_def Let_def split: if_splits)

lemma allocate_frame_inner_Some:
  assumes ok: "falloc_ok fa" and al: "allocate_frame_inner fa = (Some f, fa')"
  shows "f \<in> free_addrs fa \<and> free_addrs fa' = free_addrs fa - {f} \<and> falloc_ok fa'"
proof -
  let ?bm = "fa_bitmap fa" and ?i = "Min (free_set (fa_bitmap fa))"
  have ne: "free_set ?bm \<noteq> {}" and f: "f = frame_addr ?i"
    and fa': "fa' = fa\<lparr>fa_bitmap := set_used ?bm ?i, FREE_COUNT := FREE_COUNT fa - 1\<rparr>"
    using assms by (auto simp: allocate_frame_inner_spec falloc_ok_def Let_def split: if_splits)
  have i: "?i \<in> free_set ?bm" using ne by simp
  have fs: "free_set (fa_bitmap fa') = free_set ?bm - {?i}"
    using ok i by (simp add: fa' falloc_ok_def free_set_set_used free_set_bound)
  have sub: "free_set ?bm \<subseteq> {..<FRAME_BITMAP_BITS}" by (auto simp: free_set_def)
  have "falloc_ok fa'"
    using ok i fs card_free_set_remove[OF i] by (simp add: falloc_ok_def fa')
  then show ?thesis using i fs sub by (auto simp: free_addrs_def f frame_addr_image_Diff)
qed

lemma deallocate_frame_inner_spec:
  assumes "falloc_ok fa" "0 < idx" "idx < FRAME_BITMAP_BITS"
  shows "deallocate_frame_inner (frame_addr idx) fa =
    (if idx \<in> free_set (fa_bitmap fa) then fa
     else fa\<lparr>fa_bitmap := mark_free (fa_bitmap fa) idx, FREE_COUNT := FREE_COUNT fa + 1\<rparr>)"
  using assms(2,3) unfolding deallocate_frame_inner_def frame_addr_div[OF assms(3)] Let_def byte_mask_test
  by (auto simp: free_set_def mark_free_def)

lemma deallocate_frame_inner_addrs:
  assumes ok: "falloc_ok fa" and v: "valid_frame f"
  shows "free_addrs (deallocate_frame_inner f fa) = insert f (free_addrs fa)
    \<and> falloc_ok (deallocate_frame_inner f fa)"
proof -
  obtain idx where i: "f = frame_addr idx" "0 < idx" "idx < FRAME_BITMAP_BITS"
    using v by (auto simp: valid_frame_def)
  have wf: "wf_bitmap (fa_bitmap fa)" using ok by (simp add: falloc_ok_def)
  have fs: "free_set (mark_free (fa_bitmap fa) idx) = insert idx (free_set (fa_bitmap fa))"
    using free_set_mark_free[OF wf, of idx] i(3) by auto
  show ?thesis using ok i fs
    by (auto simp: deallocate_frame_inner_spec free_addrs_def falloc_ok_def)
qed

lemma deallocate_frame_inner_free:
  assumes "falloc_ok fa" "f \<in> free_addrs fa"
  shows "deallocate_frame_inner f fa = fa"
proof -
  obtain idx where i: "f = frame_addr idx" "idx \<in> free_set (fa_bitmap fa)"
    using assms(2) by (auto simp: free_addrs_def)
  then have "0 < idx" using assms(1) by (metis falloc_ok_def neq0_conv)
  then show ?thesis using i assms(1) by (simp add: deallocate_frame_inner_spec free_set_bound)
qed

lemma free_addrs_valid: "falloc_ok fa \<Longrightarrow> f \<in> free_addrs fa \<Longrightarrow> valid_frame f"
proof -
  assume ok: "falloc_ok fa" and f: "f \<in> free_addrs fa"
  obtain idx where i: "f = frame_addr idx" "idx \<in> free_set (fa_bitmap fa)"
    using f unfolding free_addrs_def by blast
  then have "idx \<in> {1..<FRAME_BITMAP_BITS}"
    using ok free_set_bound[OF i(2)] by (cases idx) (auto simp: falloc_ok_def)
  then show ?thesis unfolding valid_frame_def i(1) by blast
qed

section \<open>The allocator at boot\<close>

lemma foldl_free_one:
  assumes "wf_bitmap bm"
  shows "wf_bitmap (fst (foldl free_one (bm, t) fs))
    \<and> free_set (fst (foldl free_one (bm, t) fs)) = free_set bm \<union> (set fs \<inter> {..<FRAME_BITMAP_BITS})"
  using assms
proof (induction fs arbitrary: bm t)
  case (Cons f fs)
  then show ?case
    by (cases "FRAME_BITMAP_BITS \<le> f") (auto simp: free_one_def free_set_mark_free)
qed simp

definition region_frames :: "mem_region \<Rightarrow> nat set" where
  "region_frames r = (if region_usable r then {unat (start_frame_number r)..<unat (end_frame_number r)} else {})"

lemma free_region_free_set:
  assumes "wf_bitmap bm"
  shows "wf_bitmap (fst (free_region (bm, t) r))
    \<and> free_set (fst (free_region (bm, t) r)) = free_set bm \<union> (region_frames r \<inter> {..<FRAME_BITMAP_BITS})"
  using foldl_free_one[OF assms] assms by (simp add: free_region_def region_frames_def)

lemma foldl_free_region:
  assumes "wf_bitmap bm"
  shows "wf_bitmap (fst (foldl free_region (bm, t) rs))
    \<and> free_set (fst (foldl free_region (bm, t) rs))
      = free_set bm \<union> (\<Union> (region_frames ` set rs) \<inter> {..<FRAME_BITMAP_BITS})"
  using assms
proof (induction rs arbitrary: bm t)
  case (Cons r rs)
  obtain bm' t' where e: "free_region (bm, t) r = (bm', t')" by (cases "free_region (bm, t) r")
  have "wf_bitmap bm'" "free_set bm' = free_set bm \<union> (region_frames r \<inter> {..<FRAME_BITMAP_BITS})"
    using free_region_free_set[OF Cons.prems, of t r] e by auto
  then show ?case using Cons.IH[of bm' t'] e by (auto)
qed simp

lemma foldl_mark_used:
  assumes "wf_bitmap bm"
  shows "wf_bitmap (foldl mark_used bm fs) \<and> free_set (foldl mark_used bm fs) = free_set bm - set fs"
  using assms by (induction fs arbitrary: bm) (auto simp: free_set_mark_used)

lemma free_set_full: "free_set (replicate BITMAP_BYTES 0xFF) = {}"
proof -
  have "bit (replicate BITMAP_BYTES (0xFF :: u8) ! (x div 8)) (x mod 8)"
    if x: "x < FRAME_BITMAP_BITS" for x
  proof -
    have "replicate BITMAP_BYTES (0xFF :: u8) ! (x div 8) = 0xFF" using x by (simp add: rock_consts)
    moreover have "bit (0xFF :: u8) (x mod 8)" by (rule bit_full_byte) simp
    ultimately show ?thesis by (simp only:)
  qed
  then show ?thesis unfolding free_set_def by blast
qed

definition boot_frames :: "mem_region list \<Rightarrow> nat set" where
  "boot_frames mm = \<Union> (region_frames ` set mm) \<inter> {..<FRAME_BITMAP_BITS}
     - {0} - {ISA_VIDEO_LO div PAGE_SIZE..<ISA_VIDEO_HI div PAGE_SIZE}"

lemma new_spec:
  assumes "BitmapFrameAllocator_new mm = (bm, tot, n)"
  shows "wf_bitmap bm \<and> free_set bm = boot_frames mm \<and> n = of_nat (card (boot_frames mm))"
proof -
  let ?b0 = "fst (foldl free_region (replicate BITMAP_BYTES 0xFF, 0) mm)"
  have wf: "wf_bitmap (replicate BITMAP_BYTES 0xFF)" by (simp add: wf_bitmap_def)
  note b0 = foldl_free_region[OF wf, of 0 mm, unfolded free_set_full]
  have bm: "bm = foldl mark_used (mark_used ?b0 0) [ISA_VIDEO_LO div PAGE_SIZE..<ISA_VIDEO_HI div PAGE_SIZE]"
    and n: "n = count_free bm"
    using assms by (auto simp: BitmapFrameAllocator_new_def Let_def split: prod.splits)
  have "wf_bitmap (mark_used ?b0 0)" "free_set (mark_used ?b0 0) = free_set ?b0 - {0}"
    using b0 by (auto simp: free_set_mark_used)
  then have "wf_bitmap bm" "free_set bm = boot_frames mm"
    unfolding bm boot_frames_def using foldl_mark_used b0 by auto
  then show ?thesis by (simp add: n count_free_card)
qed

section \<open>The contract of a frame source\<close>

text \<open>
  What the paging code relies on: a frame handed out was available and no longer is, a refusal
  means none was left, and a frame given back is available again. The lemmas of the locale are
  the clients' view of any such source; the bitmap allocator is interpreted below.
\<close>

fun alloc_many :: "('s \<Rightarrow> u64 option \<times> 's) \<Rightarrow> nat \<Rightarrow> 's \<Rightarrow> u64 list \<times> 's" where
  "alloc_many alloc 0 s = ([], s)"
| "alloc_many alloc (Suc n) s =
     (case alloc s of (None, s') \<Rightarrow> ([], s')
      | (Some f, s') \<Rightarrow> (case alloc_many alloc n s' of (fs, s'') \<Rightarrow> (f # fs, s'')))"

locale frame_source =
  fixes alloc :: "'s \<Rightarrow> u64 option \<times> 's"
    and dealloc :: "u64 \<Rightarrow> 's \<Rightarrow> 's"
    and avail :: "'s \<Rightarrow> u64 set"
    and ok :: "'s \<Rightarrow> bool"
    and frame :: "u64 \<Rightarrow> bool"
  assumes alloc_None: "ok s \<Longrightarrow> alloc s = (None, s') \<Longrightarrow> avail s = {} \<and> s' = s"
    and alloc_Some: "ok s \<Longrightarrow> alloc s = (Some f, s') \<Longrightarrow>
      f \<in> avail s \<and> avail s' = avail s - {f} \<and> ok s'"
    and dealloc: "ok s \<Longrightarrow> frame f \<Longrightarrow> avail (dealloc f s) = insert f (avail s) \<and> ok (dealloc f s)"
    and avail_frame: "ok s \<Longrightarrow> f \<in> avail s \<Longrightarrow> frame f"
    and avail_finite: "finite (avail s)"
begin

lemma alloc_ok: "ok s \<Longrightarrow> alloc s = (r, s') \<Longrightarrow> ok s'"
  by (cases r) (auto dest: alloc_None alloc_Some)

lemma alloc_avail_subset: "ok s \<Longrightarrow> alloc s = (r, s') \<Longrightarrow> avail s' \<subseteq> avail s"
  by (cases r) (auto dest: alloc_None alloc_Some)

lemma dealloc_alloc:
  "ok s \<Longrightarrow> alloc s = (Some f, s') \<Longrightarrow> avail (dealloc f s') = avail s \<and> ok (dealloc f s')"
  by (metis alloc_Some avail_frame dealloc insert_Diff)

lemma alloc_many_spec:
  assumes "ok s" "alloc_many alloc n s = (fs, s')"
  shows "ok s' \<and> distinct fs \<and> set fs \<subseteq> avail s \<and> avail s' = avail s - set fs
    \<and> length fs = min n (card (avail s))"
  using assms
proof (induction n arbitrary: s fs)
  case (Suc n)
  show ?case
  proof (cases "alloc s")
    case (Pair r t)
    show ?thesis
    proof (cases r)
      case None
      then show ?thesis using Suc.prems Pair alloc_None[OF Suc.prems(1)] by auto
    next
      case (Some f)
      obtain gs where gs: "alloc_many alloc n t = (gs, s')" "fs = f # gs"
        using Suc.prems(2) Pair Some by (auto split: prod.splits)
      have f: "f \<in> avail s" "avail t = avail s - {f}" "ok t"
        using alloc_Some[OF Suc.prems(1)] Pair Some by auto
      have "card (avail s) = Suc (card (avail t))" using f avail_finite card.remove by metis
      then show ?thesis using Suc.IH[OF f(3) gs(1)] f gs(2) by auto
    qed
  qed
qed auto

lemma dealloc_all:
  "ok s \<Longrightarrow> (\<And>f. f \<in> set fs \<Longrightarrow> frame f) \<Longrightarrow>
    avail (fold dealloc fs s) = avail s \<union> set fs \<and> ok (fold dealloc fs s)"
  by (induction fs arbitrary: s) (auto simp: dealloc)

lemma alloc_many_dealloc:
  assumes "ok s" "alloc_many alloc n s = (fs, s')"
  shows "avail (fold dealloc fs s') = avail s"
proof -
  note m = alloc_many_spec[OF assms]
  have "\<And>f. f \<in> set fs \<Longrightarrow> frame f" using m avail_frame assms(1) by blast
  then show ?thesis using dealloc_all[of s' fs] m by auto
qed

end

lemma free_addrs_finite: "finite (free_addrs fa)"
  by (simp add: free_addrs_def)

interpretation bitmap_frames: frame_source allocate_frame_inner deallocate_frame_inner free_addrs falloc_ok valid_frame
proof unfold_locales
  fix s s' f
  show "falloc_ok s \<Longrightarrow> allocate_frame_inner s = (None, s') \<Longrightarrow> free_addrs s = {} \<and> s' = s"
    by (rule allocate_frame_inner_None)
  show "falloc_ok s \<Longrightarrow> allocate_frame_inner s = (Some f, s') \<Longrightarrow>
      f \<in> free_addrs s \<and> free_addrs s' = free_addrs s - {f} \<and> falloc_ok s'"
    by (rule allocate_frame_inner_Some)
  show "falloc_ok s \<Longrightarrow> valid_frame f \<Longrightarrow>
      free_addrs (deallocate_frame_inner f s) = insert f (free_addrs s) \<and> falloc_ok (deallocate_frame_inner f s)"
    by (rule deallocate_frame_inner_addrs)
qed (auto intro: free_addrs_valid free_addrs_finite)

section \<open>Allocator histories\<close>

text \<open>
  A history of the allocator from boot: frames are allocated in any order and only live frames
  are given back (the stated safety condition of \<open>deallocate_frame\<close>).
\<close>

inductive frame_step :: "falloc \<times> u64 list \<Rightarrow> falloc \<times> u64 list \<Rightarrow> bool" where
  fs_alloc: "allocate_frame_inner fa = (Some f, fa') \<Longrightarrow> frame_step (fa, live) (fa', f # live)"
| fs_full: "allocate_frame_inner fa = (None, fa') \<Longrightarrow> frame_step (fa, live) (fa', live)"
| fs_dealloc: "f \<in> set live \<Longrightarrow> frame_step (fa, live) (deallocate_frame_inner f fa, remove1 f live)"

definition frame_boot :: "mem_region list \<Rightarrow> falloc \<times> u64 list \<Rightarrow> bool" where
  "frame_boot mm s \<longleftrightarrow> snd s = [] \<and>
     (\<exists>tot. BitmapFrameAllocator_new mm = (fa_bitmap (fst s), tot, FREE_COUNT (fst s)))"

definition frame_inv :: "mem_region list \<Rightarrow> falloc \<times> u64 list \<Rightarrow> bool" where
  "frame_inv mm s \<longleftrightarrow> falloc_ok (fst s) \<and> distinct (snd s) \<and> set (snd s) \<inter> free_addrs (fst s) = {}
     \<and> set (snd s) \<union> free_addrs (fst s) = frame_addr ` boot_frames mm"

lemma boot_frames_valid: "f \<in> frame_addr ` boot_frames mm \<Longrightarrow> valid_frame f"
  by (auto simp: boot_frames_def valid_frame_def)

lemma frame_boot_inv: "frame_boot mm s \<Longrightarrow> frame_inv mm s"
  using new_spec by (fastforce simp: frame_boot_def frame_inv_def falloc_ok_def free_addrs_def boot_frames_def)

lemma frame_step_inv: "frame_step s t \<Longrightarrow> frame_inv mm s \<Longrightarrow> frame_inv mm t"
proof (induction rule: frame_step.induct)
  case (fs_alloc fa f fa' live)
  then show ?case using allocate_frame_inner_Some[of fa f fa'] by (auto simp: frame_inv_def)
next
  case (fs_full fa fa' live)
  then show ?case using allocate_frame_inner_None[of fa fa'] by (auto simp: frame_inv_def)
next
  case (fs_dealloc f live fa)
  then have ok: "falloc_ok fa" and d: "distinct live" and u: "set live \<union> free_addrs fa = frame_addr ` boot_frames mm"
    and i: "set live \<inter> free_addrs fa = {}" by (auto simp: frame_inv_def)
  have "valid_frame f" using fs_dealloc.hyps u boot_frames_valid by blast
  from deallocate_frame_inner_addrs[OF ok this] show ?case
    using d i u fs_dealloc.hyps by (auto simp: frame_inv_def)
qed

interpretation frame_machine: invariant_of "frame_boot mm" frame_step "frame_inv mm" for mm
  by unfold_locales (auto intro: frame_boot_inv frame_step_inv)

lemma byte_set_clear: "\<not> bit (b :: u8) k \<Longrightarrow> (b OR 2 ^ k) AND NOT (2 ^ k) = b"
  by (rule bit_eqI) (auto simp: bit_simps)

lemma mark_free_set_used:
  assumes "wf_bitmap bm" "idx \<in> free_set bm"
  shows "mark_free (set_used bm idx) idx = bm"
proof -
  have i: "idx < FRAME_BITMAP_BITS" "\<not> bit (bm ! (idx div 8)) (idx mod 8)"
    using assms(2) by (auto simp: free_set_def)
  then have "idx div 8 < length bm" using assms(1) by (simp add: wf_bitmap_def rock_consts)
  then show ?thesis using i byte_set_clear[OF i(2)] by (simp add: mark_free_def set_used_def)
qed


section \<open>Properties\<close>

definition boot_falloc :: "mem_region list \<Rightarrow> falloc" where
  "boot_falloc mm = (case BitmapFrameAllocator_new mm of (bm, tot, n) \<Rightarrow> \<lparr>fa_bitmap = bm, FREE_COUNT = n\<rparr>)"

lemma boot_falloc_ok:
  "falloc_ok (boot_falloc mm) \<and> free_set (fa_bitmap (boot_falloc mm)) = boot_frames mm"
proof (cases "BitmapFrameAllocator_new mm")
  case (fields bm tot n)
  from new_spec[OF this] show ?thesis
    by (auto simp: boot_falloc_def fields falloc_ok_def boot_frames_def)
qed

abbreviation demo_map :: "mem_region list" where
  "demo_map \<equiv> [\<lparr>region_usable = True, start_frame_number = 1, end_frame_number = 4\<rparr>]"

lemma boot_frames_demo: "boot_frames demo_map = {1, 2, 3}"
  by (auto simp: boot_frames_def region_frames_def rock_consts)

lemma allocate_demo:
  "allocate_frame_inner (boot_falloc demo_map) =
     (Some 0x1000, (boot_falloc demo_map)
        \<lparr>fa_bitmap := set_used (fa_bitmap (boot_falloc demo_map)) 1,
         FREE_COUNT := FREE_COUNT (boot_falloc demo_map) - 1\<rparr>)"
  using boot_falloc_ok[of demo_map] unfolding boot_frames_demo
  by (simp add: allocate_frame_inner_spec falloc_ok_def frame_addr_def rock_consts)

text \<open>
  (C22) At boot the bitmap marks free exactly the frames below 65536 that some usable region of
  the memory map covers, less frame 0 and the ISA video window, and the stored free count is
  their number.
\<close>

theorem boot_free_frames:
  "case BitmapFrameAllocator_new mm of (bm, tot, n) \<Rightarrow>
     free_set bm = {f. f < 65536 \<and> f \<noteq> 0 \<and> \<not> (0xA0 \<le> f \<and> f < 0xC0) \<and>
       (\<exists>r. r \<in> set mm \<and> region_usable r
          \<and> unat (start_frame_number r) \<le> f \<and> f < unat (end_frame_number r))}
     \<and> unat n = card (free_set bm)"
proof (cases "BitmapFrameAllocator_new mm")
  case (fields bm tot n)
  have "boot_frames mm = {f. f < 65536 \<and> f \<noteq> 0 \<and> \<not> (0xA0 \<le> f \<and> f < 0xC0) \<and>
       (\<exists>r. r \<in> set mm \<and> region_usable r
          \<and> unat (start_frame_number r) \<le> f \<and> f < unat (end_frame_number r))}"
    by (auto simp: boot_frames_def region_frames_def rock_consts split: if_splits)
  moreover have "free_set bm = boot_frames mm" "unat n = card (free_set bm)"
    using new_spec[OF fields] unat_card_free_set[of bm] by auto
  ultimately show ?thesis unfolding fields by simp
qed

text \<open>
  Allocation returns the lowest free frame and takes exactly that frame out of the free set,
  with the counter decremented; it refuses only when no frame is free, and then changes nothing.
\<close>

theorem allocate_lowest_frame:
  assumes "falloc_ok fa"
  shows "case allocate_frame_inner fa of
      (None, fa') \<Rightarrow> free_set (fa_bitmap fa) = {} \<and> fa' = fa
    | (Some f, fa') \<Rightarrow> free_set (fa_bitmap fa) \<noteq> {}
        \<and> unat f = Min (free_set (fa_bitmap fa)) * 4096
        \<and> free_set (fa_bitmap fa') = free_set (fa_bitmap fa) - {Min (free_set (fa_bitmap fa))}
        \<and> FREE_COUNT fa' = FREE_COUNT fa - 1 \<and> falloc_ok fa'"
proof (cases "free_set (fa_bitmap fa) = {}")
  case True
  then show ?thesis using assms by (simp add: allocate_frame_inner_spec falloc_ok_def)
next
  case False
  let ?i = "Min (free_set (fa_bitmap fa))"
  have wf: "wf_bitmap (fa_bitmap fa)" using assms by (simp add: falloc_ok_def)
  have i: "?i < FRAME_BITMAP_BITS" using False free_set_bound Min_in free_set_finite by blast
  have al: "allocate_frame_inner fa = (Some (frame_addr ?i),
      fa\<lparr>fa_bitmap := set_used (fa_bitmap fa) ?i, FREE_COUNT := FREE_COUNT fa - 1\<rparr>)"
    using False allocate_frame_inner_spec[OF wf] by (simp add: Let_def)
  show ?thesis
    using allocate_frame_inner_Some[OF assms al] False free_set_set_used[OF wf i] unat_frame_addr[OF i]
    by (simp add: al PAGE_SIZE_def)
qed

theorem allocate_lowest_frame_witness:
  "falloc_ok (boot_falloc demo_map) \<and> fst (allocate_frame_inner (boot_falloc demo_map)) = Some 0x1000
    \<and> free_set (fa_bitmap (snd (allocate_frame_inner (boot_falloc demo_map)))) = {2, 3}"
  using allocate_lowest_frame[of "boot_falloc demo_map"] boot_falloc_ok[of demo_map]
  unfolding boot_frames_demo allocate_demo by (auto split: prod.splits)

text \<open>
  Giving back a frame right after it was allocated restores the allocator exactly: every bit
  of the bitmap and the counter.
\<close>

theorem deallocate_allocate_roundtrip:
  assumes "falloc_ok fa" "allocate_frame_inner fa = (Some f, fa')"
  shows "deallocate_frame_inner f fa' = fa"
proof -
  let ?bm = "fa_bitmap fa"
  define i where "i = Min (free_set ?bm)"
  have ne: "free_set ?bm \<noteq> {}" and f: "f = frame_addr i"
    and fa': "fa' = fa\<lparr>fa_bitmap := set_used ?bm i, FREE_COUNT := FREE_COUNT fa - 1\<rparr>"
    using assms by (auto simp: allocate_frame_inner_spec falloc_ok_def Let_def i_def split: if_splits)
  have i: "i \<in> free_set ?bm" unfolding i_def using ne by simp
  have wf: "wf_bitmap ?bm" and "0 \<notin> free_set ?bm" using assms(1) by (auto simp: falloc_ok_def)
  then have "0 < i" using i by (cases i) auto
  moreover have "falloc_ok fa'" using allocate_frame_inner_Some[OF assms] by blast
  moreover have "i \<notin> free_set (fa_bitmap fa')"
    using free_set_set_used[OF wf free_set_bound[OF i]] by (simp add: fa')
  ultimately have "deallocate_frame_inner f fa' =
      fa'\<lparr>fa_bitmap := mark_free (fa_bitmap fa') i, FREE_COUNT := FREE_COUNT fa' + 1\<rparr>"
    unfolding f using deallocate_frame_inner_spec free_set_bound[OF i] by simp
  then show ?thesis using mark_free_set_used[OF wf i] by (simp add: fa')
qed

theorem deallocate_allocate_roundtrip_witness:
  "deallocate_frame_inner 0x1000 (snd (allocate_frame_inner (boot_falloc demo_map)))
     = boot_falloc demo_map"
  using deallocate_allocate_roundtrip[OF _ allocate_demo] boot_falloc_ok by (simp add: allocate_demo)

text \<open>
  (C4) In every history from boot, the frames in use are pairwise distinct, none of them is free,
  each is a usable frame other than frame 0 and the video window, and no frame is lost: the free
  counter plus the number of frames in use is the number of frames at boot.
\<close>

theorem frames_never_shared_or_lost:
  assumes "reach (frame_boot mm) frame_step (fa, live)"
  shows "distinct live \<and> set live \<inter> free_addrs fa = {}
    \<and> set live \<subseteq> frame_addr ` boot_frames mm
    \<and> unat (FREE_COUNT fa) + length live = card (boot_frames mm)"
proof -
  have inv: "falloc_ok fa" "distinct live" "set live \<inter> free_addrs fa = {}"
    "set live \<union> free_addrs fa = frame_addr ` boot_frames mm"
    using frame_machine.inv_reach[OF assms] by (auto simp: frame_inv_def)
  have sub: "boot_frames mm \<subseteq> {..<FRAME_BITMAP_BITS}" "free_set (fa_bitmap fa) \<subseteq> {..<FRAME_BITMAP_BITS}"
    by (auto simp: boot_frames_def free_set_def)
  have cf: "card (free_addrs fa) = card (free_set (fa_bitmap fa))"
    unfolding free_addrs_def by (rule card_image) (rule inj_on_subset[OF frame_addr_inj sub(2)])
  have "unat (FREE_COUNT fa) = card (free_addrs fa)"
    using inv(1) cf unat_card_free_set by (simp add: falloc_ok_def)
  moreover have "card (set live \<union> free_addrs fa) = length live + card (free_addrs fa)"
    using inv(2,3) by (simp add: card_Un_disjoint distinct_card free_addrs_finite)
  moreover have "card (frame_addr ` boot_frames mm) = card (boot_frames mm)"
    by (rule card_image) (rule inj_on_subset[OF frame_addr_inj sub(1)])
  ultimately show ?thesis using inv by auto
qed

theorem frames_never_shared_or_lost_witness:
  "\<exists>fa. reach (frame_boot demo_map) frame_step (fa, [0x1000]) \<and> unat (FREE_COUNT fa) = 2"
proof -
  have "frame_boot demo_map (boot_falloc demo_map, [])"
    by (auto simp: frame_boot_def boot_falloc_def split: prod.splits)
  then have "reach (frame_boot demo_map) frame_step (boot_falloc demo_map, [])" by (rule reach_init)
  then have r: "reach (frame_boot demo_map) frame_step (snd (allocate_frame_inner (boot_falloc demo_map)), [0x1000])"
    unfolding allocate_demo snd_conv by (rule reach_step) (rule fs_alloc[OF allocate_demo])
  moreover have "unat (FREE_COUNT (snd (allocate_frame_inner (boot_falloc demo_map)))) = 2"
    using frames_never_shared_or_lost[OF r] unfolding boot_frames_demo by simp
  ultimately show ?thesis by blast
qed

end
