(* ===== verification/Rock_Paging.thy ===== *)
theory Rock_Paging
  imports Rock_Memory
begin

text \<open>
  Page tables (\<open>src/paging.rs\<close>). The page table itself is code of the \<open>x86_64\<close> crate: its
  state is a type parameter \<open>'pt\<close> and its operations a record of parameters, \<open>'pt x86\<close>. What
  the kernel relies on is the predicate \<open>x86_laws\<close>, the documented behaviour of these operations;
  a property that needs it has it as a hypothesis. Pages and frames are their start addresses.
\<close>

section \<open>Operations of the x86_64 crate\<close>

record page_flags =
  PRESENT :: bool
  WRITABLE :: bool
  USER_ACCESSIBLE :: bool
  NO_EXECUTE :: bool

datatype map_to_error = FrameAllocationFailed | ParentEntryHugePage | PageAlreadyMapped

text \<open>
  \<open>virt_new\<close>: the addresses \<open>VirtAddr::new\<close> accepts without a panic; \<open>page_of\<close>:
  \<open>Page::containing_address\<close>; \<open>page_range\<close>: \<open>Page::range_inclusive\<close>; \<open>translate\<close>,
  \<open>map_to\<close>, \<open>unmap\<close>: the methods of \<open>OffsetPageTable\<close>. \<open>map_to\<close> receives the frame
  allocator for new table levels and returns the error, if any, with the new table and allocator.
  \<open>mapped_4k\<close> is no operation of the crate but tells which pages a level-1 entry maps, as the
  documentation distinguishes them from pages inside a huge mapping, which \<open>unmap\<close> refuses.
\<close>

record 'pt x86 =
  virt_new :: "u64 \<Rightarrow> bool"
  page_of :: "u64 \<Rightarrow> u64"
  page_range :: "u64 \<Rightarrow> u64 \<Rightarrow> u64 list"
  translate :: "'pt \<Rightarrow> u64 \<Rightarrow> u64 option"
  mapped_4k :: "'pt \<Rightarrow> u64 \<Rightarrow> bool"
  map_to :: "'pt \<Rightarrow> u64 \<Rightarrow> u64 \<Rightarrow> page_flags \<Rightarrow> falloc \<Rightarrow> map_to_error option \<times> 'pt \<times> falloc"
  unmap :: "'pt \<Rightarrow> u64 \<Rightarrow> u64 option \<times> 'pt"

definition page_aligned :: "u64 \<Rightarrow> bool" where
  "page_aligned a \<longleftrightarrow> unat a mod PAGE_SIZE = 0"

definition page_at :: "nat \<Rightarrow> u64" where
  "page_at i = of_nat (i * PAGE_SIZE)"

definition page_floor :: "u64 \<Rightarrow> u64" where
  "page_floor v = page_at (unat v div PAGE_SIZE)"

text \<open>
  The documented behaviour. Addresses of the lower half are canonical; a page is its address
  rounded down; a range lists its pages in order; a mapping is per page; \<open>map_to\<close> fails on a page
  that is mapped, on success maps exactly that page, changes no translation on an error, and only
  ever takes frames from the allocator; \<open>unmap\<close> succeeds on the pages a level-1 entry maps, returns
  their frame and removes exactly that mapping.
\<close>

definition address_laws :: "'pt x86 \<Rightarrow> bool" where
  "address_laws X \<longleftrightarrow>
     (\<forall>v. unat v < 2 ^ 47 \<longrightarrow> virt_new X v)
   \<and> (\<forall>v. page_of X v = page_floor v)
   \<and> (\<forall>a b. page_aligned a \<longrightarrow> page_aligned b \<longrightarrow>
        page_range X a b = map page_at [unat a div PAGE_SIZE..<unat b div PAGE_SIZE + 1])"

definition translate_law :: "'pt x86 \<Rightarrow> bool" where
  "translate_law X \<longleftrightarrow>
     (\<forall>pt v. translate X pt v =
        map_option (\<lambda>f. f + of_nat (unat v mod PAGE_SIZE)) (translate X pt (page_floor v)))
   \<and> (\<forall>pt pg. mapped_4k X pt pg \<longrightarrow> translate X pt pg \<noteq> None)"

definition map_to_law :: "'pt x86 \<Rightarrow> bool" where
  "map_to_law X \<longleftrightarrow>
     (\<forall>pt pg f fl fa e pt' fa'. page_aligned pg \<longrightarrow> map_to X pt pg f fl fa = (e, pt', fa') \<longrightarrow>
        (\<exists>n. fa' = snd (alloc_many allocate_frame_inner n fa))
        \<and> (translate X pt pg \<noteq> None \<longrightarrow> e \<noteq> None)
        \<and> (e \<noteq> None \<longrightarrow> translate X pt' = translate X pt \<and> mapped_4k X pt' = mapped_4k X pt)
        \<and> (e = None \<longrightarrow> (\<forall>pg'. page_aligned pg' \<longrightarrow>
              translate X pt' pg' = (if pg' = pg then Some f else translate X pt pg')
            \<and> (mapped_4k X pt' pg' \<longleftrightarrow> pg' = pg \<or> mapped_4k X pt pg'))))"

definition unmap_law :: "'pt x86 \<Rightarrow> bool" where
  "unmap_law X \<longleftrightarrow>
     (\<forall>pt pg r pt'. page_aligned pg \<longrightarrow> unmap X pt pg = (r, pt') \<longrightarrow>
        r = (if mapped_4k X pt pg then translate X pt pg else None)
        \<and> (r = None \<longrightarrow> translate X pt' = translate X pt \<and> mapped_4k X pt' = mapped_4k X pt)
        \<and> (r \<noteq> None \<longrightarrow> (\<forall>pg'. page_aligned pg' \<longrightarrow>
              translate X pt' pg' = (if pg' = pg then None else translate X pt pg')
            \<and> (mapped_4k X pt' pg' \<longleftrightarrow> pg' \<noteq> pg \<and> mapped_4k X pt pg'))))"

definition x86_laws :: "'pt x86 \<Rightarrow> bool" where
  "x86_laws X \<longleftrightarrow> address_laws X \<and> translate_law X \<and> map_to_law X \<and> unmap_law X"

section \<open>The functions of the module\<close>

definition map_to_phys_4k ::
  "'pt x86 \<Rightarrow> 'pt \<Rightarrow> falloc \<Rightarrow> u64 \<Rightarrow> u64 \<Rightarrow> page_flags \<Rightarrow> map_to_error option \<times> 'pt \<times> falloc" where
  "map_to_phys_4k X pt fa virt phys flags =
     map_to X pt (page_of X virt) (page_floor phys) flags fa"

definition unmap_4k :: "'pt x86 \<Rightarrow> 'pt \<Rightarrow> u64 \<Rightarrow> u64 option \<times> 'pt" where
  "unmap_4k X pt virt = unmap X pt (page_of X virt)"

definition unmap_4k_and_free_bitmap ::
  "'pt x86 \<Rightarrow> u64 \<Rightarrow> 'pt \<times> falloc \<Rightarrow> bool \<times> 'pt \<times> falloc" where
  "unmap_4k_and_free_bitmap X virt s =
     (case s of (pt, fa) \<Rightarrow>
        (case unmap_4k X pt virt of
           (None, pt') \<Rightarrow> (False, pt', fa)
         | (Some frame, pt') \<Rightarrow> (True, pt', deallocate_frame_inner frame fa)))"

text \<open>
  \<open>paging::init\<close>: the boot-time check that the offset window maps the VGA buffer to itself.
\<close>

definition paging_init :: "'pt x86 \<Rightarrow> memory \<Rightarrow> 'pt \<Rightarrow> unit outcome" where
  "paging_init X m pt =
     obind (phys_to_virt m 0xb8000) (\<lambda>virt.
       if \<not> virt_new X virt then Inl BadVirtAddr
       else case translate X pt virt of
           None \<Rightarrow> Inl UnwrapNone
         | Some phys \<Rightarrow> if phys = 0xb8000 then Inr () else Inl AssertFailed)"

section \<open>Consequences of the laws\<close>

lemma page_at_unat: "i * PAGE_SIZE < 2 ^ 64 \<Longrightarrow> unat (page_at i) = i * PAGE_SIZE"
  by (simp add: page_at_def unat_of_nat del: of_nat_mult)

lemma page_floor_unat: "unat (page_floor v) = unat v div PAGE_SIZE * PAGE_SIZE"
proof -
  have "unat v div PAGE_SIZE * PAGE_SIZE \<le> unat v" by simp
  also have "unat v < 2 ^ 64" using unsigned_less[of v] by simp
  finally show ?thesis by (simp add: page_floor_def page_at_unat)
qed

lemma page_floor_aligned [simp]: "page_aligned (page_floor v)"
  by (simp add: page_aligned_def page_floor_unat)

lemma page_floor_id: "page_aligned v \<Longrightarrow> page_floor v = v"
  unfolding page_aligned_def word_unat_eq_iff
  by (metis page_floor_unat mod_0_imp_dvd dvd_div_mult_self)

lemma page_at_aligned: "i * PAGE_SIZE < 2 ^ 64 \<Longrightarrow> page_aligned (page_at i)"
  by (simp add: page_aligned_def page_at_unat)

lemma page_floor_offset:
  assumes "page_aligned pg" "i < PAGE_SIZE" "unat pg + i < 2 ^ 64"
  shows "unat (pg + of_nat i) = unat pg + i" "page_floor (pg + of_nat i) = pg"
proof -
  have i: "unat (of_nat i :: u64) = i" using assms(3) by (intro unat_of_nat_u64) simp
  show u: "unat (pg + of_nat i) = unat pg + i" using i assms(3) by (subst unat_add_ok) (simp_all add: add_ok_def)
  have "(unat pg + i) div PAGE_SIZE = unat pg div PAGE_SIZE"
  proof -
    obtain q where "unat pg = PAGE_SIZE * q" using assms(1) by (auto simp: page_aligned_def dvd_def)
    then show ?thesis using assms(2) by simp
  qed
  then show "page_floor (pg + of_nat i) = pg"
    using page_floor_id[OF assms(1)] by (simp add: page_floor_def u del: of_nat_add)
qed

lemma x86_virt: "x86_laws X \<Longrightarrow> unat v < 2 ^ 47 \<Longrightarrow> virt_new X v"
  by (simp add: x86_laws_def address_laws_def)

lemma x86_page_of: "x86_laws X \<Longrightarrow> page_of X v = page_floor v"
  by (simp add: x86_laws_def address_laws_def)

lemma page_of_aligned: "x86_laws X \<Longrightarrow> page_aligned (page_of X v)"
  by (simp add: x86_page_of)

lemma page_of_id: "x86_laws X \<Longrightarrow> page_aligned v \<Longrightarrow> page_of X v = v"
  by (simp add: x86_page_of page_floor_id)

lemma x86_page_range:
  "x86_laws X \<Longrightarrow> page_aligned a \<Longrightarrow> page_aligned b \<Longrightarrow>
    page_range X a b = map page_at [unat a div PAGE_SIZE..<unat b div PAGE_SIZE + 1]"
  by (simp add: x86_laws_def address_laws_def)

lemma x86_translate:
  "x86_laws X \<Longrightarrow> translate X pt v =
    map_option (\<lambda>f. f + of_nat (unat v mod PAGE_SIZE)) (translate X pt (page_floor v))"
  unfolding x86_laws_def translate_law_def by blast

lemma x86_mapped: "x86_laws X \<Longrightarrow> mapped_4k X pt pg \<Longrightarrow> translate X pt pg \<noteq> None"
  unfolding x86_laws_def translate_law_def by blast

lemma x86_map_to:
  assumes "x86_laws X" "page_aligned pg" "map_to X pt pg f fl fa = (e, pt', fa')"
  shows "\<exists>n. fa' = snd (alloc_many allocate_frame_inner n fa)"
    and "translate X pt pg \<noteq> None \<Longrightarrow> e \<noteq> None"
    and "e \<noteq> None \<Longrightarrow> translate X pt' = translate X pt"
    and "e \<noteq> None \<Longrightarrow> mapped_4k X pt' = mapped_4k X pt"
    and "e = None \<Longrightarrow> page_aligned pg' \<Longrightarrow>
      translate X pt' pg' = (if pg' = pg then Some f else translate X pt pg')"
    and "e = None \<Longrightarrow> page_aligned pg' \<Longrightarrow> mapped_4k X pt' pg' \<longleftrightarrow> pg' = pg \<or> mapped_4k X pt pg'"
proof -
  have "map_to_law X" using assms(1) by (simp add: x86_laws_def)
  note l = this[unfolded map_to_law_def, rule_format, OF assms(2,3)]
  show "\<exists>n. fa' = snd (alloc_many allocate_frame_inner n fa)" using l by (elim conjE)
  show "translate X pt pg \<noteq> None \<Longrightarrow> e \<noteq> None" using l by blast
  show "e \<noteq> None \<Longrightarrow> translate X pt' = translate X pt" using l by blast
  show "e \<noteq> None \<Longrightarrow> mapped_4k X pt' = mapped_4k X pt" using l by blast
  show "e = None \<Longrightarrow> page_aligned pg' \<Longrightarrow>
      translate X pt' pg' = (if pg' = pg then Some f else translate X pt pg')" using l by blast
  show "e = None \<Longrightarrow> page_aligned pg' \<Longrightarrow> mapped_4k X pt' pg' \<longleftrightarrow> pg' = pg \<or> mapped_4k X pt pg'"
    using l by blast
qed

lemma x86_unmap:
  assumes "x86_laws X" "page_aligned pg" "unmap X pt pg = (r, pt')"
  shows "r = (if mapped_4k X pt pg then translate X pt pg else None)"
    and "r = None \<Longrightarrow> translate X pt' = translate X pt"
    and "r = None \<Longrightarrow> mapped_4k X pt' = mapped_4k X pt"
    and "r \<noteq> None \<Longrightarrow> page_aligned pg' \<Longrightarrow>
      translate X pt' pg' = (if pg' = pg then None else translate X pt pg')"
    and "r \<noteq> None \<Longrightarrow> page_aligned pg' \<Longrightarrow> mapped_4k X pt' pg' \<longleftrightarrow> pg' \<noteq> pg \<and> mapped_4k X pt pg'"
proof -
  have "unmap_law X" using assms(1) by (simp add: x86_laws_def)
  note l = this[unfolded unmap_law_def, rule_format, OF assms(2,3)]
  show "r = (if mapped_4k X pt pg then translate X pt pg else None)" using l by (elim conjE)
  show "r = None \<Longrightarrow> translate X pt' = translate X pt" using l by blast
  show "r = None \<Longrightarrow> mapped_4k X pt' = mapped_4k X pt" using l by blast
  show "r \<noteq> None \<Longrightarrow> page_aligned pg' \<Longrightarrow>
      translate X pt' pg' = (if pg' = pg then None else translate X pt pg')" using l by blast
  show "r \<noteq> None \<Longrightarrow> page_aligned pg' \<Longrightarrow> mapped_4k X pt' pg' \<longleftrightarrow> pg' \<noteq> pg \<and> mapped_4k X pt pg'"
    using l by blast
qed

text \<open>
  Unmapping a page that a level-1 entry maps removes it and frees its frame; any other page is
  refused and leaves the state as it is.
\<close>

lemma unmap_free_mapped:
  assumes "x86_laws X" "page_aligned pg" "mapped_4k X pt pg"
    "unmap_4k_and_free_bitmap X pg (pt, fa) = (okk, pt', fa')"
  shows "okk" and "fa' = deallocate_frame_inner (the (translate X pt pg)) fa"
    and "page_aligned pg' \<Longrightarrow> translate X pt' pg' = (if pg' = pg then None else translate X pt pg')"
    and "page_aligned pg' \<Longrightarrow> mapped_4k X pt' pg' \<longleftrightarrow> pg' \<noteq> pg \<and> mapped_4k X pt pg'"
proof -
  obtain r p where u: "unmap X pt pg = (r, p)" by (cases "unmap X pt pg")
  note l = x86_unmap[OF assms(1,2) u]
  obtain f where f: "translate X pt pg = Some f" "r = Some f"
    using x86_mapped[OF assms(1,3)] l(1) assms(3) by auto
  have e: "okk" "pt' = p" "fa' = deallocate_frame_inner f fa"
    using assms(4) f(2) by (auto simp: unmap_4k_and_free_bitmap_def unmap_4k_def page_of_id[OF assms(1,2)] u)
  show "okk" by (rule e)
  show "fa' = deallocate_frame_inner (the (translate X pt pg)) fa" using e f by simp
  show "page_aligned pg' \<Longrightarrow> translate X pt' pg' = (if pg' = pg then None else translate X pt pg')"
    using e(2) l(4) f(2) by simp
  show "page_aligned pg' \<Longrightarrow> mapped_4k X pt' pg' \<longleftrightarrow> pg' \<noteq> pg \<and> mapped_4k X pt pg'"
    using e(2) l(5) f(2) by simp
qed

lemma unmap_free_unmapped:
  assumes "x86_laws X" "page_aligned pg" "\<not> mapped_4k X pt pg"
    "unmap_4k_and_free_bitmap X pg (pt, fa) = (okk, pt', fa')"
  shows "\<not> okk" "fa' = fa" "translate X pt' = translate X pt" "mapped_4k X pt' = mapped_4k X pt"
proof -
  obtain r p where u: "unmap X pt pg = (r, p)" by (cases "unmap X pt pg")
  note l = x86_unmap[OF assms(1,2) u]
  have r: "r = None" using l(1) assms(3) by simp
  have e: "\<not> okk" "pt' = p" "fa' = fa"
    using assms(4) r by (auto simp: unmap_4k_and_free_bitmap_def unmap_4k_def page_of_id[OF assms(1,2)] u)
  show "\<not> okk" "fa' = fa" using e by simp_all
  show "translate X pt' = translate X pt" "mapped_4k X pt' = mapped_4k X pt"
    using e(2) l(2,3) r by simp_all
qed

section \<open>An instance of the laws\<close>

text \<open>
  A page table as a finite map from pages to frames satisfies the laws; it is the instance the
  witnesses use.
\<close>

definition map_x86 :: "(u64 \<Rightarrow> u64 option) x86" where
  "map_x86 = \<lparr>virt_new = (\<lambda>v. unat v < 2 ^ 47),
     page_of = (\<lambda>v. page_floor v),
     page_range = (\<lambda>a b. map page_at [unat a div PAGE_SIZE..<unat b div PAGE_SIZE + 1]),
     translate = (\<lambda>pt v. map_option (\<lambda>f. f + of_nat (unat v mod PAGE_SIZE))
        (pt (page_floor v))),
     mapped_4k = (\<lambda>pt pg. pt (page_floor pg) \<noteq> None),
     map_to = (\<lambda>pt pg f fl fa. if pt pg = None then (None, pt(pg := Some f), fa)
        else (Some PageAlreadyMapped, pt, fa)),
     unmap = (\<lambda>pt pg. (pt pg, pt(pg := None)))\<rparr>"

lemma map_x86_laws: "x86_laws map_x86"
proof -
  have id: "unat v mod PAGE_SIZE = 0" "page_floor v = v" if "page_aligned v" for v
    using that by (simp_all add: page_aligned_def page_floor_id)
  have "address_laws map_x86" by (simp add: address_laws_def map_x86_def)
  moreover have "translate_law map_x86"
    by (simp add: translate_law_def map_x86_def id option.map_comp o_def)
  moreover have "map_to_law map_x86"
    unfolding map_to_law_def
    by (auto simp: map_x86_def id option.map_ident split: if_splits intro: exI[of _ 0])
  moreover have "unmap_law map_x86"
    by (auto simp: unmap_law_def map_x86_def id option.map_ident)
  ultimately show ?thesis by (simp add: x86_laws_def)
qed

end
