(* ===== verification/Rock_Keyboard.thy ===== *)
theory Rock_Keyboard
  imports Rock_Prelude
begin

text \<open>
  The PS/2 keyboard (\<open>src/keyboard.rs\<close>): the ring buffer between the interrupt handler and
  the main loop, the two ways of reading a scan code, and the scan code table. The ring buffer is
  refined to a bounded FIFO through the locale \<open>bounded_fifo\<close>.
\<close>

section \<open>The scan code queue\<close>

definition SCANCODE_BUF_SIZE :: nat where [rock_consts]: "SCANCODE_BUF_SIZE = 256"

record scancode_queue =
  q_buf :: "u8 list"
  q_head :: nat
  q_tail :: nat

definition ScancodeQueue_new :: scancode_queue where
  "ScancodeQueue_new = \<lparr>q_buf = replicate SCANCODE_BUF_SIZE 0, q_head = 0, q_tail = 0\<rparr>"

definition try_push :: "u8 \<Rightarrow> scancode_queue \<Rightarrow> bool \<times> scancode_queue" where
  "try_push b q =
     (let nxt = (q_tail q + 1) mod SCANCODE_BUF_SIZE in
      if nxt = q_head q then (False, q)
      else (True, q\<lparr>q_buf := (q_buf q)[q_tail q := b], q_tail := nxt\<rparr>))"

definition try_pop :: "scancode_queue \<Rightarrow> u8 option \<times> scancode_queue" where
  "try_pop q =
     (if q_head q = q_tail q then (None, q)
      else (Some (q_buf q ! q_head q), q\<lparr>q_head := (q_head q + 1) mod SCANCODE_BUF_SIZE\<rparr>))"

section \<open>Reading the controller\<close>

text \<open>
  The status and data bytes that the controller's ports return are arguments. The interrupt
  handler hands the byte it accepts to the queue and to the terminal, so its model says which
  byte that is; \<open>handle_keyboard_irq\<close> of the whole kernel composes it with the two.
\<close>

definition STATUS_OUT_FULL :: u8 where [rock_consts]: "STATUS_OUT_FULL = 1"
definition STATUS_AUX_DATA :: u8 where [rock_consts]: "STATUS_AUX_DATA = 0x20"

definition irq_byte :: "u8 \<Rightarrow> u8 \<Rightarrow> u8 option" where
  "irq_byte status data =
     (if status AND STATUS_OUT_FULL = 0 then None
      else if status AND STATUS_AUX_DATA \<noteq> 0 then None
      else Some data)"

definition pop_scancode :: "scancode_queue \<Rightarrow> u8 option \<times> scancode_queue" where
  "pop_scancode q = try_pop q"

definition read_scancode_poll_port :: "u8 \<Rightarrow> u8 \<Rightarrow> u8 option" where
  "read_scancode_poll_port status data =
     (if status AND STATUS_OUT_FULL = 0 then None
      else if status AND STATUS_AUX_DATA \<noteq> 0 then None
      else Some data)"

definition read_scancode :: "u8 \<Rightarrow> u8 \<Rightarrow> scancode_queue \<Rightarrow> u8 option \<times> scancode_queue" where
  "read_scancode status data q =
     (case pop_scancode q of
        (Some b, q') \<Rightarrow> (Some b, q')
      | (None, q') \<Rightarrow> (read_scancode_poll_port status data, q'))"

text \<open>The mask written back to the interrupt controller by \<open>unmask_keyboard_irq\<close>.\<close>

definition unmask_keyboard_irq :: "u8 \<Rightarrow> u8" where
  "unmask_keyboard_irq msk = msk AND 0xFD"

section \<open>The scan code table\<close>

text \<open>A Rust \<open>char\<close> is its code point.\<close>

type_synonym rchar = u32

abbreviation ch :: "char \<Rightarrow> rchar" where "ch c \<equiv> of_char c"

definition scancode_table :: "(u8 \<times> rchar) list" where
  "scancode_table =
    [(0x01, 0x1b), (0x0E, 0x08), (0x0F, 0x09), (0x1C, 0x0a), (0x39, ch CHR '' ''),
     (0x02, ch CHR ''1''), (0x03, ch CHR ''2''), (0x04, ch CHR ''3''), (0x05, ch CHR ''4''),
     (0x06, ch CHR ''5''), (0x07, ch CHR ''6''), (0x08, ch CHR ''7''), (0x09, ch CHR ''8''),
     (0x0A, ch CHR ''9''), (0x0B, ch CHR ''0''), (0x0C, ch CHR ''-''), (0x0D, ch CHR ''=''),
     (0x10, ch CHR ''q''), (0x11, ch CHR ''w''), (0x12, ch CHR ''e''), (0x13, ch CHR ''r''),
     (0x14, ch CHR ''t''), (0x15, ch CHR ''y''), (0x16, ch CHR ''u''), (0x17, ch CHR ''i''),
     (0x18, ch CHR ''o''), (0x19, ch CHR ''p''), (0x1A, ch CHR ''[''), (0x1B, ch CHR '']''),
     (0x1E, ch CHR ''a''), (0x1F, ch CHR ''s''), (0x20, ch CHR ''d''), (0x21, ch CHR ''f''),
     (0x22, ch CHR ''g''), (0x23, ch CHR ''h''), (0x24, ch CHR ''j''), (0x25, ch CHR ''k''),
     (0x26, ch CHR ''l''), (0x27, ch CHR '';''), (0x28, 0x27), (0x29, 0x60), (0x2B, 0x5c),
     (0x2C, ch CHR ''z''), (0x2D, ch CHR ''x''), (0x2E, ch CHR ''c''), (0x2F, ch CHR ''v''),
     (0x30, ch CHR ''b''), (0x31, ch CHR ''n''), (0x32, ch CHR ''m''), (0x33, ch CHR '',''),
     (0x34, ch CHR ''.''), (0x35, ch CHR ''/''),
     (0x37, ch CHR ''*''), (0x4A, ch CHR ''-''), (0x4E, ch CHR ''+''), (0x47, ch CHR ''7''),
     (0x48, ch CHR ''8''), (0x49, ch CHR ''9''), (0x4B, ch CHR ''4''), (0x4C, ch CHR ''5''),
     (0x4D, ch CHR ''6''), (0x4F, ch CHR ''1''), (0x50, ch CHR ''2''), (0x51, ch CHR ''3''),
     (0x52, ch CHR ''0''), (0x53, ch CHR ''.'')]"

definition scancode_to_char :: "u8 \<Rightarrow> rchar option" where
  "scancode_to_char scancode =
     (if 0x80 \<le> scancode \<or> scancode = 0xE0 then None else map_of scancode_table scancode)"

section \<open>Bounded FIFO queues\<close>

text \<open>
  The contract of a bounded queue that refuses when it is full: \<open>contents\<close> is the abstract
  list, oldest first. The lemmas describe any sequence of pushes and pops.
\<close>

locale bounded_fifo =
  fixes push :: "'a \<Rightarrow> 'q \<Rightarrow> bool \<times> 'q"
    and pop :: "'q \<Rightarrow> 'a option \<times> 'q"
    and contents :: "'q \<Rightarrow> 'a list"
    and ok :: "'q \<Rightarrow> bool"
    and cap :: nat
  assumes push_room: "ok q \<Longrightarrow> length (contents q) < cap \<Longrightarrow>
      fst (push x q) \<and> contents (snd (push x q)) = contents q @ [x] \<and> ok (snd (push x q))"
    and push_full: "ok q \<Longrightarrow> length (contents q) = cap \<Longrightarrow> push x q = (False, q)"
    and pop_Nil: "ok q \<Longrightarrow> contents q = [] \<Longrightarrow> pop q = (None, q)"
    and pop_Cons: "ok q \<Longrightarrow> contents q = y # ys \<Longrightarrow>
      fst (pop q) = Some y \<and> contents (snd (pop q)) = ys \<and> ok (snd (pop q))"
    and length_cap: "ok q \<Longrightarrow> length (contents q) \<le> cap"
begin

lemma push_contents:
  "ok q \<Longrightarrow> contents (snd (push x q)) = take cap (contents q @ [x]) \<and> ok (snd (push x q))"
  using push_room[of q x] push_full[of q x] length_cap[of q]
  by (cases "length (contents q) = cap") auto

lemma push_all:
  "ok q \<Longrightarrow> contents (fold (\<lambda>x q. snd (push x q)) xs q) = take cap (contents q @ xs)
    \<and> ok (fold (\<lambda>x q. snd (push x q)) xs q)"
proof (induction xs arbitrary: q)
  case (Cons x xs)
  note p = push_contents[OF Cons.prems, of x]
  have "take cap (take cap (contents q @ [x]) @ xs) = take cap (contents q @ x # xs)"
    using length_cap[OF Cons.prems] by (cases "length (contents q) = cap") auto
  then show ?case using Cons.IH[of "snd (push x q)"] p by simp
qed (simp add: length_cap)

lemma pop_contents:
  "ok q \<Longrightarrow> contents (snd (pop q)) = tl (contents q) \<and> ok (snd (pop q))
    \<and> fst (pop q) = (case contents q of [] \<Rightarrow> None | y # ys \<Rightarrow> Some y)"
  using pop_Nil[of q] pop_Cons[of q] by (cases "contents q") auto

end

section \<open>The ring buffer is a bounded FIFO\<close>

definition queue_ok :: "scancode_queue \<Rightarrow> bool" where
  "queue_ok q \<longleftrightarrow> length (q_buf q) = SCANCODE_BUF_SIZE
     \<and> q_head q < SCANCODE_BUF_SIZE \<and> q_tail q < SCANCODE_BUF_SIZE"

definition queue_len :: "scancode_queue \<Rightarrow> nat" where
  "queue_len q = (q_tail q + SCANCODE_BUF_SIZE - q_head q) mod SCANCODE_BUF_SIZE"

definition queue_contents :: "scancode_queue \<Rightarrow> u8 list" where
  "queue_contents q =
     map (\<lambda>i. q_buf q ! ((q_head q + i) mod SCANCODE_BUF_SIZE)) [0..<queue_len q]"

lemma wrap256: "(a::nat) < 512 \<Longrightarrow> a mod 256 = (if a < 256 then a else a - 256)"
  by (simp add: mod_if)

lemma queue_len_if: "queue_ok q \<Longrightarrow>
    queue_len q = (if q_head q \<le> q_tail q then q_tail q - q_head q else q_tail q + 256 - q_head q)"
  by (auto simp: queue_ok_def queue_len_def rock_consts wrap256)

lemma queue_push_room:
  assumes ok: "queue_ok q" and r: "length (queue_contents q) < SCANCODE_BUF_SIZE - 1"
  shows "fst (try_push x q) \<and> queue_contents (snd (try_push x q)) = queue_contents q @ [x]
    \<and> queue_ok (snd (try_push x q))"
proof -
  define h t n where "h = q_head q" and "t = q_tail q" and "n = queue_len q"
  have b: "h < 256" "t < 256" "length (q_buf q) = 256" using ok by (auto simp: queue_ok_def rock_consts h_def t_def)
  have n: "n = (if h \<le> t then t - h else t + 256 - h)" "n < 255"
    using r queue_len_if[OF ok] by (simp_all add: queue_contents_def n_def rock_consts h_def t_def)
  have t: "t = (h + n) mod 256" "(t + 1) mod 256 \<noteq> h"
    using b n by (auto simp: wrap256 split: if_splits)
  let ?q = "q\<lparr>q_buf := (q_buf q)[t := x], q_tail := (t + 1) mod 256\<rparr>"
  have p: "try_push x q = (True, ?q)" using t(2) by (simp add: try_push_def rock_consts h_def t_def)
  have ok': "queue_ok ?q" using b by (simp add: queue_ok_def rock_consts h_def)
  have n': "queue_len ?q = Suc n"
    using b n t(2) queue_len_if[OF ok'] by (auto simp: wrap256 h_def[symmetric] split: if_splits)
  have d: "t \<noteq> (h + i) mod 256" if "i < n" for i
    using that b n by (auto simp: wrap256 split: if_splits)
  have "queue_contents ?q = queue_contents q @ [x]"
    unfolding queue_contents_def n' n_def[symmetric]
    using b t(1) d by (auto simp: rock_consts h_def[symmetric])
  then show ?thesis using ok' p by simp
qed

lemma queue_push_full:
  assumes ok: "queue_ok q" and r: "length (queue_contents q) = SCANCODE_BUF_SIZE - 1"
  shows "try_push x q = (False, q)"
proof -
  have "q_head q < 256" "q_tail q < 256" "queue_len q = 255"
    using assms by (auto simp: queue_ok_def queue_contents_def rock_consts)
  then have "(q_tail q + 1) mod 256 = q_head q"
    using queue_len_if[OF ok] by (auto simp: wrap256 split: if_splits)
  then show ?thesis by (simp add: try_push_def rock_consts)
qed

lemma queue_len_0: "queue_ok q \<Longrightarrow> queue_len q = 0 \<longleftrightarrow> q_head q = q_tail q"
  using queue_len_if[of q] by (auto simp: queue_ok_def rock_consts split: if_splits)

lemma queue_pop_Nil: "queue_ok q \<Longrightarrow> queue_contents q = [] \<Longrightarrow> try_pop q = (None, q)"
  by (simp add: try_pop_def queue_contents_def queue_len_0)

lemma queue_pop_Cons:
  assumes ok: "queue_ok q" and c: "queue_contents q = y # ys"
  shows "fst (try_pop q) = Some y \<and> queue_contents (snd (try_pop q)) = ys \<and> queue_ok (snd (try_pop q))"
proof -
  define h t n where "h = q_head q" and "t = q_tail q" and "n = queue_len q"
  have b: "h < 256" "t < 256" "length (q_buf q) = 256" using ok by (auto simp: queue_ok_def rock_consts h_def t_def)
  have "n = length (y # ys)" unfolding c[symmetric] by (simp add: queue_contents_def n_def)
  then have "n \<noteq> 0" by simp
  then have ne: "h \<noteq> t" using ok by (simp add: queue_len_0 h_def t_def n_def)
  obtain m where m: "n = Suc m" using \<open>n \<noteq> 0\<close> by (cases n) auto
  let ?q = "q\<lparr>q_head := (h + 1) mod 256\<rparr>"
  have p: "try_pop q = (Some (q_buf q ! h), ?q)" using ne by (simp add: try_pop_def rock_consts h_def t_def)
  have nn: "n = (if h \<le> t then t - h else t + 256 - h)"
    using queue_len_if[OF ok] by (simp add: n_def h_def t_def)
  have ok': "queue_ok ?q" using b by (simp add: queue_ok_def rock_consts t_def)
  have m': "queue_len ?q = m"
    using b nn m ne queue_len_if[OF ok'] by (auto simp: wrap256 t_def[symmetric] split: if_splits)
  have "y # ys = map (\<lambda>i. q_buf q ! ((h + i) mod 256)) (0 # map Suc [0..<m])"
    unfolding c[symmetric] queue_contents_def n_def[symmetric] m upt_conv_Cons[OF zero_less_Suc] map_Suc_upt
    by (simp add: rock_consts h_def)
  then have y: "y = q_buf q ! h" and ys: "ys = map (\<lambda>i. q_buf q ! ((h + Suc i) mod 256)) [0..<m]"
    using b by (auto simp: comp_def)
  have "queue_contents ?q = ys"
    unfolding queue_contents_def m' ys by (simp add: rock_consts mod_add_left_eq)
  then show ?thesis using ok' p y by simp
qed

interpretation scancode_fifo: bounded_fifo try_push try_pop queue_contents queue_ok "SCANCODE_BUF_SIZE - 1"
proof unfold_locales
  fix q assume "queue_ok q"
  then show "length (queue_contents q) \<le> SCANCODE_BUF_SIZE - 1"
    using queue_len_if[of q] by (auto simp: queue_contents_def queue_ok_def rock_consts split: if_splits)
qed (use queue_push_room queue_push_full queue_pop_Nil queue_pop_Cons in blast)+

lemma queue_new: "queue_ok ScancodeQueue_new \<and> queue_contents ScancodeQueue_new = []"
  by (simp add: queue_ok_def ScancodeQueue_new_def queue_contents_def queue_len_def rock_consts)

interpretation queue_machine: invariant_of "\<lambda>q. q = ScancodeQueue_new"
  "\<lambda>q q'. (\<exists>b. q' = snd (try_push b q)) \<or> q' = snd (try_pop q)" queue_ok
  by unfold_locales
    (auto simp: queue_new scancode_fifo.push_contents scancode_fifo.pop_contents)

lemma scancode_table_ascii: "map_of scancode_table sc = Some c \<Longrightarrow> c < 0x80"
  by (erule map_of_list_allD[rotated]) (simp add: scancode_table_def)

lemma scancode_table_keys:
  "map_of scancode_table k = Some c \<Longrightarrow> k < 0x80 \<and> k \<noteq> 0x2a \<and> k \<noteq> 0x36 \<and> k \<noteq> 0x60"
  by (erule map_of_list_allD[rotated]) (simp add: scancode_table_def)

lemma scancode_to_char_ascii: "scancode_to_char sc = Some c \<Longrightarrow> c < 0x80"
  by (auto simp: scancode_to_char_def scancode_table_ascii split: if_splits)

section \<open>Properties\<close>

text \<open>
  (C15) Starting from the empty ring buffer, any interleaving of interrupt pushes and main-loop
  pops behaves as a FIFO of capacity 255: a push appends while fewer than 255 codes are waiting
  and is refused, changing nothing, when 255 are; a pop returns the oldest waiting code, or
  nothing when none waits.
\<close>

theorem scancode_queue_refines_fifo:
  assumes "reach (\<lambda>q. q = ScancodeQueue_new) (\<lambda>q q'. (\<exists>b. q' = snd (try_push b q)) \<or> q' = snd (try_pop q)) q"
  shows "length (queue_contents q) \<le> 255
    \<and> (if length (queue_contents q) < 255
        then fst (try_push b q) \<and> queue_contents (snd (try_push b q)) = queue_contents q @ [b]
        else try_push b q = (False, q))
    \<and> fst (try_pop q) = (case queue_contents q of [] \<Rightarrow> None | y # ys \<Rightarrow> Some y)
    \<and> queue_contents (snd (try_pop q)) = tl (queue_contents q)"
proof -
  have ok: "queue_ok q" using assms by (rule queue_machine.inv_reach)
  have cap: "SCANCODE_BUF_SIZE - 1 = 255" by (simp add: rock_consts)
  show ?thesis
    using scancode_fifo.length_cap[OF ok] scancode_fifo.push_room[OF ok, of b]
      scancode_fifo.push_full[OF ok, of b] scancode_fifo.pop_contents[OF ok]
    unfolding cap by auto
qed

theorem scancode_queue_refines_fifo_witness:
  "fst (try_pop (snd (try_push 30 ScancodeQueue_new))) = Some 30"
proof -
  have i: "reach (\<lambda>q. q = ScancodeQueue_new)
      (\<lambda>q q'. (\<exists>b. q' = snd (try_push b q)) \<or> q' = snd (try_pop q)) ScancodeQueue_new"
    by (rule reach_init) simp
  have r: "reach (\<lambda>q. q = ScancodeQueue_new)
      (\<lambda>q q'. (\<exists>b. q' = snd (try_push b q)) \<or> q' = snd (try_pop q)) (snd (try_push 30 ScancodeQueue_new))"
    by (rule reach_step[OF i]) blast
  show ?thesis
    using scancode_queue_refines_fifo[OF r] scancode_queue_refines_fifo[OF i, of 30] queue_new by auto
qed

text \<open>
  Codes pushed by the interrupt handler while nobody reads are kept oldest first, and from
  the 256th on the newest are dropped.
\<close>

theorem scancode_queue_drops_newest:
  "queue_contents (fold (\<lambda>b q. snd (try_push b q)) bs ScancodeQueue_new) = take 255 bs"
  using scancode_fifo.push_all[of ScancodeQueue_new bs] queue_new by (simp add: rock_consts)

end
