(* ===== verification/Rock_Tty.thy ===== *)
theory Rock_Tty
  imports Rock_Keyboard
begin

text \<open>
  The cooked terminal (\<open>src/tty.rs\<close>): scan codes to characters under the shift state, line
  editing, and the queue of finished lines that \<open>read\<close> consumes.
\<close>

section \<open>Characters\<close>

text \<open>\<open>char::encode_utf8\<close> and \<open>char::to_ascii_uppercase\<close> of the Rust core library.\<close>

definition encode_utf8 :: "rchar \<Rightarrow> u8 list" where
  "encode_utf8 c =
     (if c < 0x80 then [ucast c]
      else if c < 0x800 then [0xC0 OR ucast (drop_bit 6 c), 0x80 OR ucast (c AND 0x3F)]
      else if c < 0x10000 then
        [0xE0 OR ucast (drop_bit 12 c), 0x80 OR ucast (drop_bit 6 c AND 0x3F),
         0x80 OR ucast (c AND 0x3F)]
      else
        [0xF0 OR ucast (drop_bit 18 c), 0x80 OR ucast (drop_bit 12 c AND 0x3F),
         0x80 OR ucast (drop_bit 6 c AND 0x3F), 0x80 OR ucast (c AND 0x3F)])"

definition to_ascii_uppercase :: "rchar \<Rightarrow> rchar" where
  "to_ascii_uppercase c = (if 0x61 \<le> c \<and> c \<le> 0x7a then c - 0x20 else c)"

definition shifted_table :: "(u8 \<times> rchar) list" where
  "shifted_table =
    [(0x02, ch CHR ''!''), (0x03, 0x40), (0x04, ch CHR ''#''), (0x05, ch CHR ''$''),
     (0x06, ch CHR ''%''), (0x07, ch CHR ''^''), (0x08, ch CHR ''&''), (0x09, ch CHR ''*''),
     (0x0a, ch CHR ''(''), (0x0b, ch CHR '')''), (0x0c, ch CHR ''_''), (0x0d, ch CHR ''+''),
     (0x29, ch CHR ''~''), (0x2b, ch CHR ''|''), (0x33, ch CHR ''<''), (0x34, ch CHR ''>''),
     (0x35, ch CHR ''?'')]"

definition shifted_char :: "u8 \<Rightarrow> rchar option" where
  "shifted_char code =
     (case map_of shifted_table code of
        Some c \<Rightarrow> Some c
      | None \<Rightarrow> map_option to_ascii_uppercase (scancode_to_char code))"

section \<open>State and operations\<close>

definition LINE_BUF :: nat where [rock_consts]: "LINE_BUF = 1024"
definition MAX_READY_LINES :: nat where [rock_consts]: "MAX_READY_LINES = 128"

record tty_state =
  shift_left :: bool
  shift_right :: bool
  e0_prefix :: bool
  line_edit :: "u8 list"
  ready_lines :: "u8 list list"

definition TtyState_new :: tty_state where
  "TtyState_new = \<lparr>shift_left = False, shift_right = False, e0_prefix = False,
     line_edit = [], ready_lines = []\<rparr>"

definition shift :: "tty_state \<Rightarrow> bool" where
  "shift st \<longleftrightarrow> shift_left st \<or> shift_right st"

text \<open>The bounded push of the bytes of one character.\<close>

definition push_bytes :: "u8 list \<Rightarrow> u8 list \<Rightarrow> u8 list" where
  "push_bytes line bs = foldl (\<lambda>l b. if length l < LINE_BUF then l @ [b] else l) line bs"

text \<open>The final \<open>match c\<close> of \<open>feed_scancode\<close>.\<close>

definition feed_char :: "tty_state \<Rightarrow> rchar \<Rightarrow> tty_state" where
  "feed_char st c =
     (if c = 0x0a \<or> c = 0x0d then
        let line = line_edit st @ [0x0a]; st' = st\<lparr>line_edit := []\<rparr> in
        if length (ready_lines st') < MAX_READY_LINES
        then st'\<lparr>ready_lines := ready_lines st' @ [line]\<rparr> else st'
      else if c = 0x08 \<or> c = 0x7f then st\<lparr>line_edit := butlast (line_edit st)\<rparr>
      else st\<lparr>line_edit := push_bytes (line_edit st) (encode_utf8 c)\<rparr>)"

definition feed_scancode :: "tty_state \<Rightarrow> u8 \<Rightarrow> tty_state" where
  "feed_scancode st code =
     (if e0_prefix st then
        (let st' = st\<lparr>e0_prefix := (code \<noteq> 0xE0)\<rparr> in
         if code = 0xE0 then st' else st'\<lparr>e0_prefix := False\<rparr>)
      else if code = 0xE0 then st\<lparr>e0_prefix := True\<rparr>
      else if 0x80 \<le> code then
        (let mk = code - 0x80 in
         if mk = 0x2a then st\<lparr>shift_left := False\<rparr>
         else if mk = 0x36 then st\<lparr>shift_right := False\<rparr>
         else st)
      else if code = 0x2a then st\<lparr>shift_left := True\<rparr>
      else if code = 0x36 then st\<lparr>shift_right := True\<rparr>
      else case (if shift st then shifted_char code else scancode_to_char code) of
          None \<Rightarrow> st
        | Some c \<Rightarrow> feed_char st c)"

text \<open>
  \<open>tty::read\<close> with a destination of \<open>dst_len\<close> bytes: the error code, or the bytes copied to
  the front of the destination.
\<close>

definition tty_read :: "nat \<Rightarrow> bool \<Rightarrow> tty_state \<Rightarrow> (int + u8 list) \<times> tty_state" where
  "tty_read dst_len nonblock st =
     (case ready_lines st of
        [] \<Rightarrow> (if nonblock then Inl (-11) else Inr [], st)
      | line # rest \<Rightarrow>
          (let n = min (length line) dst_len in
           (Inr (take n line),
            st\<lparr>ready_lines := (if n < length line then drop n line # rest else rest)\<rparr>)))"

section \<open>Invariant of the terminal\<close>

definition full_line :: "u8 list \<Rightarrow> bool" where
  "full_line l \<longleftrightarrow> (\<exists>bs. l = bs @ [0x0a] \<and> length bs \<le> LINE_BUF \<and> 0x0a \<notin> set bs)"

definition tty_ok :: "tty_state \<Rightarrow> bool" where
  "tty_ok st \<longleftrightarrow> length (line_edit st) \<le> LINE_BUF \<and> 0x0a \<notin> set (line_edit st)
     \<and> (\<forall>b \<in> set (line_edit st). b < 0x80)
     \<and> length (ready_lines st) \<le> MAX_READY_LINES \<and> (\<forall>l \<in> set (ready_lines st). full_line l)"

inductive tty_step :: "tty_state \<Rightarrow> tty_state \<Rightarrow> bool" where
  ts_feed: "tty_step st (feed_scancode st code)"
| ts_read: "tty_step st (snd (tty_read n nb st))"

lemma encode_utf8_ascii: "c < 0x80 \<Longrightarrow> encode_utf8 c = [ucast c]"
  by (simp add: encode_utf8_def)

lemma to_ascii_uppercase_ascii: "c < 0x80 \<Longrightarrow> to_ascii_uppercase c < 0x80"
  by (simp add: to_ascii_uppercase_def) unat_arith

lemma shifted_table_ascii: "map_of shifted_table code = Some c \<Longrightarrow> c < 0x80"
  by (erule map_of_list_allD[rotated]) (simp add: shifted_table_def)

lemma shifted_char_ascii: "shifted_char code = Some c \<Longrightarrow> c < 0x80"
  by (auto simp: shifted_char_def shifted_table_ascii to_ascii_uppercase_ascii
      scancode_to_char_ascii split: option.splits)

lemma unat_ucast_ascii: "c < (0x80 :: rchar) \<Longrightarrow> unat (ucast c :: u8) = unat c"
  by (simp add: word_less_nat_alt unsigned_ucast_eq unsigned_take_bit_eq take_bit_nat_eq_self)

lemma ucast_ascii_less: "c < (0x80 :: rchar) \<Longrightarrow> (ucast c :: u8) < 0x80"
  by (simp add: word_less_nat_alt unat_ucast_ascii)

lemma ucast_ascii_eq_10: "c < (0x80 :: rchar) \<Longrightarrow> (ucast c :: u8) = 0x0a \<longleftrightarrow> c = 0x0a"
  by (simp add: word_unat_eq_iff unat_ucast_ascii)

lemma push_bytes_single: "push_bytes l [b] = (if length l < LINE_BUF then l @ [b] else l)"
  by (simp add: push_bytes_def)

lemma feed_char_ok: "tty_ok st \<Longrightarrow> c < 0x80 \<Longrightarrow> tty_ok (feed_char st c)"
  by (auto simp: tty_ok_def feed_char_def encode_utf8_ascii push_bytes_single Let_def
      full_line_def ucast_ascii_less ucast_ascii_eq_10 dest: in_set_butlastD)

lemma tty_ok_frame [simp]:
  "tty_ok (st\<lparr>shift_left := a\<rparr>) = tty_ok st" "tty_ok (st\<lparr>shift_right := a\<rparr>) = tty_ok st"
  "tty_ok (st\<lparr>e0_prefix := a\<rparr>) = tty_ok st"
  by (simp_all add: tty_ok_def)

lemma feed_scancode_ok: "tty_ok st \<Longrightarrow> tty_ok (feed_scancode st code)"
  by (auto simp: feed_scancode_def Let_def feed_char_ok shifted_char_ascii scancode_to_char_ascii
      split: option.splits)

lemma full_line_drop: "full_line l \<Longrightarrow> n < length l \<Longrightarrow> full_line (drop n l)"
proof -
  assume "full_line l" "n < length l"
  then obtain bs where "l = bs @ [0x0a]" "length bs \<le> LINE_BUF" "0x0a \<notin> set bs" "n \<le> length bs"
    by (auto simp: full_line_def)
  then show ?thesis by (auto simp: full_line_def dest: in_set_dropD intro!: exI[of _ "drop n bs"])
qed

lemma tty_read_ok: "tty_ok st \<Longrightarrow> tty_ok (snd (tty_read n nb st))"
  by (auto simp: tty_read_def tty_ok_def Let_def full_line_drop split: list.splits)

lemma tty_step_ok: "tty_step s t \<Longrightarrow> tty_ok s \<Longrightarrow> tty_ok t"
  by (induction rule: tty_step.induct) (auto intro: feed_scancode_ok tty_read_ok)

lemma tty_new_ok: "tty_ok TtyState_new"
  by (simp add: TtyState_new_def tty_ok_def)

interpretation tty_machine: invariant_of "\<lambda>st. st = TtyState_new" tty_step tty_ok
  by unfold_locales (auto intro: tty_step_ok tty_new_ok)

lemma full_line_butlast_take:
  assumes "full_line l"
  shows "0x0a \<notin> set (butlast (take n l))" "0x0a \<notin> set (butlast l)"
proof -
  obtain bs where bs: "l = bs @ [0x0a]" "0x0a \<notin> set bs" using assms by (auto simp: full_line_def)
  then show "0x0a \<notin> set (butlast l)" by simp
  then show "0x0a \<notin> set (butlast (take n l))"
    using bs by (cases "n \<le> length bs") (auto dest: in_set_butlastD in_set_takeD)
qed

lemma full_line_nonempty: "full_line l \<Longrightarrow> l \<noteq> []"
  by (auto simp: full_line_def)

section \<open>Typing\<close>

text \<open>
  What a person does at the keyboard: press a key, with or without the left shift held, or erase
  with backspace. \<open>strokes\<close> is the byte sequence the controller sends for one of these, and
  \<open>edit_line\<close> what it should do to the line being edited.
\<close>

datatype key_item = Key bool u8 | Erase

definition key_char :: "bool \<Rightarrow> u8 \<Rightarrow> rchar option" where
  "key_char sh k = (if sh then shifted_char k else scancode_to_char k)"

definition plain_key :: "bool \<Rightarrow> u8 \<Rightarrow> bool" where
  "plain_key sh k \<longleftrightarrow> (case key_char sh k of None \<Rightarrow> False | Some c \<Rightarrow> c \<notin> {0x08, 0x0a, 0x0d, 0x7f})"

fun plain_item :: "key_item \<Rightarrow> bool" where
  "plain_item (Key sh k) = plain_key sh k"
| "plain_item Erase = True"

definition press :: "u8 \<Rightarrow> u8 list" where
  "press k = [k, k + 0x80]"

fun strokes :: "key_item \<Rightarrow> u8 list" where
  "strokes (Key sh k) = (if sh then [0x2a] @ press k @ [0xaa] else press k)"
| "strokes Erase = press 0x0e"

fun edit_line :: "u8 list \<Rightarrow> key_item \<Rightarrow> u8 list" where
  "edit_line l (Key sh k) = (if length l < LINE_BUF then l @ [ucast (the (key_char sh k))] else l)"
| "edit_line l Erase = butlast l"

definition idle :: "tty_state \<Rightarrow> bool" where
  "idle st \<longleftrightarrow> \<not> shift_left st \<and> \<not> shift_right st \<and> \<not> e0_prefix st"

abbreviation feed_all :: "u8 list \<Rightarrow> tty_state \<Rightarrow> tty_state" where
  "feed_all codes st \<equiv> foldl feed_scancode st codes"

lemma shifted_table_keys:
  "map_of shifted_table k = Some c \<Longrightarrow> k < 0x80 \<and> k \<noteq> 0x2a \<and> k \<noteq> 0x36 \<and> k \<noteq> 0x60"
  by (erule map_of_list_allD[rotated]) (simp add: shifted_table_def)

lemma key_char_code: "key_char sh k = Some c \<Longrightarrow> k < 0x80 \<and> k \<noteq> 0x2a \<and> k \<noteq> 0x36 \<and> k \<noteq> 0x60 \<and> c < 0x80"
  by (auto simp: key_char_def shifted_char_def scancode_to_char_def shifted_table_ascii scancode_table_ascii
      to_ascii_uppercase_ascii dest: scancode_table_keys shifted_table_keys split: if_splits option.splits)

lemma break_code: "k < (0x80::u8) \<Longrightarrow> k \<noteq> 0x60 \<Longrightarrow> 0x80 \<le> k + 0x80 \<and> k + 0x80 \<noteq> 0xE0"
  by (auto simp: word_le_nat_alt word_less_nat_alt word_unat_eq_iff unat_word_ariths)

lemma feed_break:
  assumes "k < 0x80" "k \<noteq> 0x60" "k \<noteq> 0x2a" "k \<noteq> 0x36" "\<not> e0_prefix st"
  shows "feed_scancode st (k + 0x80) = st"
  using break_code[OF assms(1,2)] assms by (simp add: feed_scancode_def Let_def)

lemma feed_make:
  assumes "key_char (shift st) k = Some c" "\<not> e0_prefix st"
  shows "feed_scancode st k = feed_char st c"
  using assms key_char_code[OF assms(1)] by (auto simp: key_char_def feed_scancode_def not_le)

lemma feed_press:
  assumes "key_char (shift st) k = Some c" "\<not> e0_prefix st"
  shows "feed_all (press k) st = feed_char st c"
proof -
  have "\<not> e0_prefix (feed_char st c)" using assms(2) by (simp add: feed_char_def Let_def)
  then show ?thesis using assms feed_make key_char_code[OF assms(1)] by (simp add: press_def feed_break)
qed

lemma feed_char_plain:
  "c < 0x80 \<Longrightarrow> c \<notin> {0x08, 0x0a, 0x0d, 0x7f} \<Longrightarrow>
    feed_char st c = st\<lparr>line_edit := (if length (line_edit st) < LINE_BUF then line_edit st @ [ucast c] else line_edit st)\<rparr>"
  by (simp add: feed_char_def encode_utf8_ascii push_bytes_single)

lemma feed_item:
  assumes "idle st" "plain_item it"
  shows "feed_all (strokes it) st = st\<lparr>line_edit := edit_line (line_edit st) it\<rparr>"
proof (cases it)
  case (Key sh k)
  then obtain c where c: "key_char sh k = Some c" "c \<notin> {0x08, 0x0a, 0x0d, 0x7f}"
    using assms(2) by (auto simp: plain_key_def split: option.splits)
  have less: "c < 0x80" using key_char_code[OF c(1)] by simp
  show ?thesis
  proof (cases sh)
    case False
    then have "feed_all (press k) st = feed_char st c"
      using c(1) assms(1) by (intro feed_press) (auto simp: idle_def shift_def)
    then show ?thesis using Key False c less by (simp add: feed_char_plain)
  next
    case True
    let ?st = "st\<lparr>shift_left := True\<rparr>"
    have "feed_all (press k) ?st = feed_char ?st c"
      using c(1) assms(1) True by (intro feed_press) (auto simp: idle_def shift_def)
    moreover have "feed_scancode st 0x2a = ?st" using assms(1) by (simp add: feed_scancode_def idle_def)
    ultimately show ?thesis using Key True c less assms(1)
      by (simp add: feed_char_plain feed_scancode_def idle_def)
  qed
next
  case Erase
  have "key_char (shift st) 0x0e = Some 8"
    by (simp add: key_char_def shifted_char_def shifted_table_def scancode_to_char_def scancode_table_def to_ascii_uppercase_def)
  then have "feed_all (press 0x0e) st = feed_char st 8" using assms(1) by (intro feed_press) (auto simp: idle_def)
  then show ?thesis using Erase by (simp add: feed_char_def)
qed

lemma feed_items:
  "idle st \<Longrightarrow> list_all plain_item its \<Longrightarrow>
    feed_all (concat (map strokes its)) st = st\<lparr>line_edit := foldl edit_line (line_edit st) its\<rparr>"
proof (induction its arbitrary: st)
  case (Cons it its)
  have "feed_all (strokes it) st = st\<lparr>line_edit := edit_line (line_edit st) it\<rparr>"
    using Cons.prems by (intro feed_item) auto
  moreover have "idle (st\<lparr>line_edit := edit_line (line_edit st) it\<rparr>)" using Cons.prems(1) by (simp add: idle_def)
  ultimately show ?case using Cons by simp
qed simp

section \<open>Properties\<close>

text \<open>
  Whatever scan codes arrive and however the lines are read, the terminal's buffers stay
  bounded: the line being edited has at most 1024 bytes, all ASCII and none a newline, at most
  128 lines wait, and each waiting line is at most 1024 bytes followed by its only newline.
\<close>

theorem tty_buffers_bounded:
  assumes "reach (\<lambda>st. st = TtyState_new) tty_step st"
  shows "length (line_edit st) \<le> 1024 \<and> (\<forall>b. b \<in> set (line_edit st) \<longrightarrow> b < 0x80 \<and> b \<noteq> 0x0a)
    \<and> length (ready_lines st) \<le> 128
    \<and> (\<forall>l. l \<in> set (ready_lines st) \<longrightarrow>
         (\<exists>bs. l = bs @ [0x0a] \<and> length bs \<le> 1024 \<and> 0x0a \<notin> set bs))"
  using tty_machine.inv_reach[OF assms] by (auto simp: tty_ok_def full_line_def rock_consts)

theorem tty_buffers_bounded_witness:
  "reach (\<lambda>st. st = TtyState_new) tty_step (feed_scancode TtyState_new 0x1e)
    \<and> line_edit (feed_scancode TtyState_new 0x1e) = [0x61]
    \<and> length (line_edit (feed_scancode TtyState_new 0x1e)) \<le> 1024"
proof -
  have "reach (\<lambda>st. st = TtyState_new) tty_step TtyState_new" by (rule reach_init) simp
  then have r: "reach (\<lambda>st. st = TtyState_new) tty_step (feed_scancode TtyState_new 0x1e)"
    by (rule reach_step) (rule ts_feed)
  have "line_edit (feed_scancode TtyState_new 0x1e) = [0x61]"
    by (simp add: feed_scancode_def TtyState_new_def shift_def scancode_to_char_def
        scancode_table_def feed_char_def encode_utf8_def push_bytes_def rock_consts)
  then show ?thesis using r tty_buffers_bounded[OF r] by blast
qed

text \<open>
  (C27) \<open>tty::read\<close> hands out the stream of finished lines without loss, reordering or
  duplication: the bytes it returns followed by what remains ready is what was ready before. It
  never returns more than the destination holds nor goes past the end of a line, it returns no
  bytes only for an empty destination or when no line is ready, and it fails, with \<open>EAGAIN\<close>
  and no change, exactly when no line is ready and the caller does not block.
\<close>

theorem tty_read_stream:
  assumes "tty_ok st"
  shows "case tty_read n nb st of
      (Inl e, st') \<Rightarrow> e = -11 \<and> nb \<and> ready_lines st = [] \<and> st' = st
    | (Inr bs, st') \<Rightarrow> concat (ready_lines st) = bs @ concat (ready_lines st') \<and> length bs \<le> n
        \<and> (ready_lines st = [] \<longrightarrow> \<not> nb) \<and> line_edit st' = line_edit st
        \<and> (bs = [] \<longleftrightarrow> n = 0 \<or> ready_lines st = []) \<and> 0x0a \<notin> set (butlast bs)"
  using assms
  by (auto simp: tty_read_def tty_ok_def Let_def full_line_butlast_take
      dest: full_line_nonempty split: list.splits)

theorem tty_read_stream_witness:
  "let st = TtyState_new\<lparr>ready_lines := [[0x68, 0x69, 0x0a]]\<rparr> in
     tty_ok st \<and> fst (tty_read 2 True st) = Inr [0x68, 0x69]
     \<and> ready_lines (snd (tty_read 2 True st)) = [[0x0a]]
     \<and> concat (ready_lines st) = [0x68, 0x69] @ concat (ready_lines (snd (tty_read 2 True st)))"
proof -
  let ?st = "TtyState_new\<lparr>ready_lines := [[0x68, 0x69, 0x0a]]\<rparr>"
  have ok: "tty_ok ?st"
    by (simp add: tty_ok_def TtyState_new_def full_line_def rock_consts)
  have r: "tty_read 2 True ?st = (Inr [0x68, 0x69], ?st\<lparr>ready_lines := [[0x0a]]\<rparr>)"
    by (simp add: tty_read_def)
  show ?thesis using tty_read_stream[OF ok, where n = 2 and nb = True] ok by (simp add: r Let_def)
qed

text \<open>
  (C16) From a terminal with no modifier held, typing any sequence of printable keys (shifted or
  not) and backspaces and then Enter makes exactly one line ready: the characters typed, with
  backspaces applied and characters past the 1024th ignored, then a newline. When 128 lines are
  already waiting the line is dropped. Nothing else of the terminal changes.
\<close>

theorem typed_line:
  assumes "idle st" "list_all plain_item its"
  shows "feed_all (concat (map strokes its) @ press 0x1c) st =
    st\<lparr>line_edit := [],
       ready_lines := (if length (ready_lines st) < 128
         then ready_lines st @ [foldl edit_line (line_edit st) its @ [0x0a]] else ready_lines st)\<rparr>"
proof -
  let ?st = "st\<lparr>line_edit := foldl edit_line (line_edit st) its\<rparr>"
  have "key_char (shift ?st) 0x1c = Some 0x0a"
    by (simp add: key_char_def shifted_char_def shifted_table_def scancode_to_char_def scancode_table_def to_ascii_uppercase_def)
  then have "feed_all (press 0x1c) ?st = feed_char ?st 0x0a" using assms(1) by (intro feed_press) (auto simp: idle_def)
  then show ?thesis using feed_items[OF assms] by (simp add: feed_char_def Let_def rock_consts)
qed

theorem typed_line_witness:
  "ready_lines (feed_all (concat (map strokes [Key True 0x23, Key False 0x17, Key False 0x2d, Erase]) @ press 0x1c) TtyState_new)
    = [[0x48, 0x69, 0x0a]]"
  by (subst typed_line) (simp_all add: idle_def key_char_def TtyState_new_def plain_key_def shifted_char_def shifted_table_def scancode_to_char_def scancode_table_def to_ascii_uppercase_def rock_consts)
end
