(* ===== verification/Rock_Task.thy ===== *)
theory Rock_Task
  imports Rock_Prelude
begin

text \<open>
  The system call frame (\<open>src/task.rs\<close> and the assembly of \<open>src/syscall.rs\<close>): what the
  entry code pushes on the task's kernel stack, how that frame is saved into and restored from
  \<open>SyscallSaved\<close>, and what the exit code pops. Kernel stack memory is a store of 8-byte words
  by address, since every access of this path is to a whole word.
\<close>

section \<open>Machine state\<close>

record machine =
  rax :: u64
  rbx :: u64
  rcx :: u64
  rdx :: u64
  rsi :: u64
  rdi :: u64
  rbp :: u64
  rsp :: u64
  r8 :: u64
  r9 :: u64
  r10 :: u64
  r11 :: u64
  r12 :: u64
  r13 :: u64
  r14 :: u64
  r15 :: u64
  kmem :: "u64 \<Rightarrow> u64"
  SYSCALL_USER_RSP_STASH :: u64
  CURRENT_KSTACK_TOP :: u64

definition push_word :: "u64 \<Rightarrow> machine \<Rightarrow> machine" where
  "push_word v m = m\<lparr>rsp := rsp m - 8, kmem := (kmem m)(rsp m - 8 := v)\<rparr>"

definition top_word :: "machine \<Rightarrow> u64" where
  "top_word m = kmem m (rsp m)"

definition drop_word :: "machine \<Rightarrow> machine" where
  "drop_word m = m\<lparr>rsp := rsp m + 8\<rparr>"

section \<open>Entry\<close>

text \<open>
  The instructions of \<open>syscall_entry\<close> up to the call of \<open>syscall_dispatch\<close>, from the state
  the \<open>syscall\<close> instruction leaves: the user's return address in \<open>rcx\<close> and its flags in
  \<open>r11\<close>.
\<close>

definition syscall_entry :: "machine \<Rightarrow> machine" where
  "syscall_entry m =
     (let m = m\<lparr>SYSCALL_USER_RSP_STASH := rsp m\<rparr>;
          m = m\<lparr>r14 := CURRENT_KSTACK_TOP m\<rparr>;
          m = m\<lparr>rsp := r14 m\<rparr>;
          m = push_word (SYSCALL_USER_RSP_STASH m) m;
          m = push_word (rcx m) m;
          m = push_word (r11 m) m;
          m = push_word (rbx m) m;
          m = push_word (rbp m) m;
          m = push_word (r12 m) m;
          m = push_word (r13 m) m;
          m = push_word (r14 m) m;
          m = push_word (r15 m) m;
          m = m\<lparr>rsp := rsp m - 8\<rparr>;
          m = m\<lparr>r9 := rax m\<rparr>;
          m = m\<lparr>r8 := rdi m\<rparr>;
          m = m\<lparr>r10 := rsi m\<rparr>;
          m = m\<lparr>r11 := rdx m\<rparr>;
          m = m\<lparr>rdi := r9 m\<rparr>;
          m = m\<lparr>rsi := r8 m\<rparr>;
          m = m\<lparr>rdx := r10 m\<rparr>
      in m\<lparr>rcx := r11 m\<rparr>)"

text \<open>The four arguments of \<open>syscall_dispatch\<close> in the C calling convention.\<close>

definition dispatch_args :: "machine \<Rightarrow> u64 \<times> u64 \<times> u64 \<times> u64" where
  "dispatch_args m = (rdi m, rsi m, rdx m, rcx m)"

section \<open>Exit\<close>

text \<open>
  \<open>syscall_user_return\<close> up to \<open>sysretq\<close>, which continues the user at the address in
  \<open>rcx\<close> with the flags in \<open>r11\<close>.
\<close>

definition syscall_user_return :: "machine \<Rightarrow> machine" where
  "syscall_user_return m =
     (let m = m\<lparr>rsp := rsp m + 8\<rparr>;
          m = drop_word (m\<lparr>r15 := top_word m\<rparr>);
          m = drop_word (m\<lparr>r14 := top_word m\<rparr>);
          m = drop_word (m\<lparr>r13 := top_word m\<rparr>);
          m = drop_word (m\<lparr>r12 := top_word m\<rparr>);
          m = drop_word (m\<lparr>rbp := top_word m\<rparr>);
          m = drop_word (m\<lparr>rbx := top_word m\<rparr>);
          m = drop_word (m\<lparr>r11 := top_word m\<rparr>);
          m = drop_word (m\<lparr>rcx := top_word m\<rparr>)
      in m\<lparr>rsp := top_word m\<rparr>)"

section \<open>Saved frames\<close>

record syscall_saved =
  user_rsp :: u64
  user_rip :: u64
  user_rflags :: u64
  sv_rbx :: u64
  sv_rbp :: u64
  sv_r12 :: u64
  sv_r13 :: u64
  sv_r14 :: u64
  sv_r15 :: u64

definition bootstrap_user :: "u64 \<Rightarrow> u64 \<Rightarrow> u64 \<Rightarrow> syscall_saved" where
  "bootstrap_user entry stack_top flags =
     \<lparr>user_rsp = stack_top, user_rip = entry, user_rflags = flags,
      sv_rbx = 0, sv_rbp = 0, sv_r12 = 0, sv_r13 = 0, sv_r14 = 0, sv_r15 = 0\<rparr>"

definition save_from_dispatch_rsp :: "(u64 \<Rightarrow> u64) \<Rightarrow> u64 \<Rightarrow> syscall_saved" where
  "save_from_dispatch_rsp mem dispatch_rsp =
     \<lparr>user_rsp = mem (dispatch_rsp + 80), user_rip = mem (dispatch_rsp + 72),
      user_rflags = mem (dispatch_rsp + 64), sv_rbx = mem (dispatch_rsp + 56),
      sv_rbp = mem (dispatch_rsp + 48), sv_r12 = mem (dispatch_rsp + 40),
      sv_r13 = mem (dispatch_rsp + 32), sv_r14 = mem (dispatch_rsp + 24),
      sv_r15 = mem (dispatch_rsp + 16)\<rparr>"

definition restore_to_kstack ::
  "u64 \<Rightarrow> syscall_saved \<Rightarrow> u64 \<Rightarrow> (u64 \<Rightarrow> u64) \<Rightarrow> (u64 \<Rightarrow> u64)" where
  "restore_to_kstack top_exclusive s ret_to_kernel mem =
     (let p = top_exclusive - 88 in
      mem(p := ret_to_kernel, p + 8 := 0, p + 16 := sv_r15 s, p + 24 := sv_r14 s,
          p + 32 := sv_r13 s, p + 40 := sv_r12 s, p + 48 := sv_rbp s, p + 56 := sv_rbx s,
          p + 64 := user_rflags s, p + 72 := user_rip s, p + 80 := user_rsp s))"

definition set_current_kstack_top :: "u64 \<Rightarrow> machine \<Rightarrow> machine" where
  "set_current_kstack_top top_exclusive m = m\<lparr>CURRENT_KSTACK_TOP := top_exclusive\<rparr>"

text \<open>
  The last part of \<open>pick_next_and_restore\<close>: write the frame of the task that runs next at the
  top of its kernel stack, load the stack pointer and the return value, and jump to
  \<open>syscall_user_return\<close>.
\<close>

definition resume_user :: "u64 \<Rightarrow> syscall_saved \<Rightarrow> u64 \<Rightarrow> u64 \<Rightarrow> machine \<Rightarrow> machine" where
  "resume_user stack_top saved ret_to pending_rax m =
     syscall_user_return
       (m\<lparr>kmem := restore_to_kstack stack_top saved ret_to (kmem m),
          rsp := stack_top - 88, rax := pending_rax\<rparr>)"

section \<open>What entry stores and what exit loads\<close>

lemma syscall_entry_frame:
  "let m' = syscall_entry m; t = CURRENT_KSTACK_TOP m in
   rsp m' = t - 80 \<and> kmem m' (t - 8) = rsp m \<and> kmem m' (t - 16) = rcx m
   \<and> kmem m' (t - 24) = r11 m \<and> kmem m' (t - 32) = rbx m \<and> kmem m' (t - 40) = rbp m
   \<and> kmem m' (t - 48) = r12 m \<and> kmem m' (t - 56) = r13 m \<and> kmem m' (t - 64) = t
   \<and> kmem m' (t - 72) = r15 m"
  by (simp add: syscall_entry_def push_word_def Let_def)

lemma resume_user_regs:
  "let m' = resume_user t s ret rx m in
   rax m' = rx \<and> rsp m' = user_rip s \<and> rcx m' = user_rflags s \<and> r11 m' = sv_rbx s
   \<and> rbx m' = sv_rbp s \<and> rbp m' = sv_r12 s \<and> r12 m' = sv_r13 s \<and> r13 m' = sv_r14 s
   \<and> r14 m' = sv_r15 s \<and> r15 m' = 0"
  by (simp add: resume_user_def syscall_user_return_def restore_to_kstack_def drop_word_def
      top_word_def Let_def)

text \<open>
  A task \<open>m\<close> that makes a system call and is the next to run: \<open>mt\<close> is the machine when
  \<open>syscall_tail\<close> is called with the stack pointer of the entry code.
\<close>

definition resumed :: "machine \<Rightarrow> machine \<Rightarrow> u64 \<Rightarrow> u64 \<Rightarrow> machine" where
  "resumed m mt ret_to ret =
     resume_user (CURRENT_KSTACK_TOP m)
       (save_from_dispatch_rsp (kmem mt) (rsp (syscall_entry m))) ret_to ret mt"

text \<open>
  The frame survives the dispatcher when the words from the stack pointer at the call up to the
  top of the stack are unchanged, which the calling convention guarantees.
\<close>

definition frame_intact :: "machine \<Rightarrow> machine \<Rightarrow> bool" where
  "frame_intact m mt \<longleftrightarrow>
     list_all (\<lambda>k. kmem mt (CURRENT_KSTACK_TOP m - k) = kmem (syscall_entry m) (CURRENT_KSTACK_TOP m - k))
       [8, 16, 24, 32, 40, 48, 56, 64, 72]"

lemma saved_frame:
  assumes "frame_intact m mt"
  shows "let s = save_from_dispatch_rsp (kmem mt) (rsp (syscall_entry m)) in
    user_rip s = rsp m \<and> user_rflags s = rcx m \<and> sv_rbx s = r11 m \<and> sv_rbp s = rbx m
    \<and> sv_r12 s = rbp m \<and> sv_r13 s = r12 m \<and> sv_r14 s = r13 m \<and> sv_r15 s = CURRENT_KSTACK_TOP m"
  using assms syscall_entry_frame[of m]
  by (simp add: frame_intact_def save_from_dispatch_rsp_def Let_def)

lemma dispatch_args_entry: "dispatch_args (syscall_entry m) = (rax m, rdi m, rsi m, rdx m)"
  by (simp add: syscall_entry_def push_word_def dispatch_args_def Let_def)

section \<open>Properties\<close>

text \<open>
  A system call passes its number and first three arguments to the dispatcher unchanged.
\<close>

theorem syscall_entry_passes_arguments:
  "dispatch_args (syscall_entry m) = (rax m, rdi m, rsi m, rdx m)"
  by (rule dispatch_args_entry)

text \<open>
  (C9) A task that makes a system call and is resumed from the frame saved for it continues with
  its own stack pointer, return address, flags and the registers \<open>rbx\<close>, \<open>rbp\<close>, \<open>r12\<close>,
  \<open>r13\<close>, and with the call's result in \<open>rax\<close>: the one-word displacement with which
  \<open>syscall_tail\<close> hands the frame to \<open>save_from_dispatch_rsp\<close> and the one with which the
  frame is popped cancel out.
\<close>

theorem syscall_context_roundtrip:
  assumes "frame_intact m mt"
  shows "let m' = resumed m mt ret_to ret in
    rax m' = ret \<and> rsp m' = rsp m \<and> rcx m' = rcx m \<and> r11 m' = r11 m
    \<and> rbx m' = rbx m \<and> rbp m' = rbp m \<and> r12 m' = r12 m \<and> r13 m' = r13 m"
  using saved_frame[OF assms] resume_user_regs unfolding resumed_def Let_def by simp

definition demo_machine :: machine where
  "demo_machine = \<lparr>rax = 39, rbx = 1, rcx = 0x400010, rdx = 0, rsi = 0, rdi = 0, rbp = 2,
     rsp = 0x401ff0, r8 = 0, r9 = 0, r10 = 0, r11 = 0x202, r12 = 3, r13 = 4, r14 = 5, r15 = 6,
     kmem = (\<lambda>_. 0), SYSCALL_USER_RSP_STASH = 0, CURRENT_KSTACK_TOP = 0x444444441000\<rparr>"

lemma demo_frame_intact: "frame_intact demo_machine (syscall_entry demo_machine)"
  by (simp add: frame_intact_def)

lemma demo_machine_regs:
  "rcx demo_machine = 0x400010" "rsp demo_machine = 0x401ff0" "r13 demo_machine = 4"
  "r15 demo_machine = 6"
  by (simp_all add: demo_machine_def)

theorem syscall_context_roundtrip_witness:
  "let m' = resumed demo_machine (syscall_entry demo_machine) 0 1 in
   rax m' = 1 \<and> rcx m' = 0x400010 \<and> rsp m' = 0x401ff0 \<and> r13 m' = 4"
  using syscall_context_roundtrip[OF demo_frame_intact, where ret_to = 0 and ret = 1]
  by (simp add: Let_def demo_machine_regs)

text \<open>
  (C35) The same resumption loses two callee-saved registers of the user: \<open>r15\<close> comes back as
  zero, and \<open>r14\<close> as the address of the top of the task's kernel stack.
\<close>

theorem syscall_clobbers_r14_r15:
  assumes "frame_intact m mt"
  shows "let m' = resumed m mt ret_to ret in
    r15 m' = 0 \<and> r14 m' = CURRENT_KSTACK_TOP m"
  using saved_frame[OF assms] resume_user_regs unfolding resumed_def Let_def by simp

theorem syscall_clobbers_r14_r15_witness:
  "r15 demo_machine = 6 \<and> r15 (resumed demo_machine (syscall_entry demo_machine) 0 1) = 0"
  using syscall_clobbers_r14_r15[OF demo_frame_intact, where ret_to = 0 and ret = 1]
  by (simp add: Let_def demo_machine_regs)

text \<open>
  (C36) A context that was not saved by a system call but built by \<open>bootstrap_user\<close>, as
  \<open>process::init\<close> and \<open>sys_execve\<close> do, would be resumed one word off: the user would
  continue at the address given by its flags, with the entry point as its stack pointer.
\<close>

theorem bootstrap_context_displaced:
  "rcx (resume_user t (bootstrap_user entry stack_top flags) ret_to pending_rax m) = flags
   \<and> rsp (resume_user t (bootstrap_user entry stack_top flags) ret_to pending_rax m) = entry
   \<and> r11 (resume_user t (bootstrap_user entry stack_top flags) ret_to pending_rax m) = 0"
  using resume_user_regs[of t "bootstrap_user entry stack_top flags" ret_to pending_rax m]
  by (simp add: bootstrap_user_def Let_def)

end
