(* ===== verification/Rock_Serial.thy ===== *)
theory Rock_Serial
  imports Rock_Prelude
begin

text \<open>
  The serial port (\<open>src/serial.rs\<close>). The UART is outside the kernel: the bytes its line status
  register yields are an argument (a finite prefix of the reads), and what the driver writes is a
  result. A send that is still polling when the given status reads are used up is \<open>None\<close>.
\<close>

section \<open>The driver\<close>

definition COM1_BASE :: u16 where [rock_consts]: "COM1_BASE = 0x3F8"

text \<open>\<open>SerialPort::init\<close>: the port writes, in order.\<close>

definition serial_init :: "(u16 \<times> u8) list" where
  "serial_init =
     [(COM1_BASE + 1, 0x00), (COM1_BASE + 3, 0x80), (COM1_BASE, 0x03), (COM1_BASE + 1, 0x00),
      (COM1_BASE + 3, 0x03), (COM1_BASE + 2, 0xC7), (COM1_BASE + 4, 0x0B)]"

definition line_sts_ready :: "u8 \<Rightarrow> bool" where
  "line_sts_ready sts \<longleftrightarrow> sts AND 0x20 \<noteq> 0"

text \<open>
  \<open>send_raw\<close> returns the bytes written to the data port so far and the status reads it left.
\<close>

fun send_raw :: "u8 \<Rightarrow> u8 list \<times> u8 list \<Rightarrow> (u8 list \<times> u8 list) option" where
  "send_raw b (out, []) = None"
| "send_raw b (out, s # ss) = (if line_sts_ready s then Some (out @ [b], ss) else send_raw b (out, ss))"

fun write_bytes :: "u8 list \<Rightarrow> u8 list \<times> u8 list \<Rightarrow> (u8 list \<times> u8 list) option" where
  "write_bytes [] s = Some s"
| "write_bytes (b # bs) s = (case send_raw b s of None \<Rightarrow> None | Some s' \<Rightarrow> write_bytes bs s')"

text \<open>\<open>write_line_fmt\<close> on the bytes of the formatted text.\<close>

definition write_line :: "u8 list \<Rightarrow> u8 list \<times> u8 list \<Rightarrow> (u8 list \<times> u8 list) option" where
  "write_line bs s =
     (case write_bytes bs s of None \<Rightarrow> None | Some s' \<Rightarrow> write_bytes [0x0D, 0x0A] s')"

text \<open>
  \<open>debug_hex_u64\<close>: \<open>hex_loop\<close> is the first loop (the digits, least significant first, into a
  buffer of sixteen), the reversal the second.
\<close>

definition HEX :: "u8 list" where
  "HEX = [0x30, 0x31, 0x32, 0x33, 0x34, 0x35, 0x36, 0x37, 0x38, 0x39, 0x61, 0x62, 0x63, 0x64, 0x65, 0x66]"

function hex_loop :: "u64 \<Rightarrow> u8 list \<Rightarrow> u8 list" where
  "hex_loop v buf =
     (if v \<noteq> 0 \<and> length buf < 16 then hex_loop (drop_bit 4 v) (buf @ [HEX ! unat (v AND 0xf)]) else buf)"
  by auto
termination by (relation "measure (\<lambda>(v, buf). 16 - length buf)") auto

definition debug_hex_u64 :: "u64 \<Rightarrow> u8 list" where
  "debug_hex_u64 n = [0x30, 0x78] @ (if n = 0 then [0x30] else rev (hex_loop n []))"

declare hex_loop.simps [simp del]

section \<open>Sending\<close>

lemma send_raw_cases:
  "(\<forall>s \<in> set ss. \<not> line_sts_ready s) \<and> send_raw b (out, ss) = None
   \<or> (\<exists>rest. send_raw b (out, ss) = Some (out @ [b], rest)
        \<and> length (filter line_sts_ready ss) = Suc (length (filter line_sts_ready rest)))"
  by (induction ss) auto

lemma write_bytes_spec:
  "if length bs \<le> length (filter line_sts_ready ss)
   then \<exists>rest. write_bytes bs (out, ss) = Some (out @ bs, rest)
     \<and> length (filter line_sts_ready ss) = length bs + length (filter line_sts_ready rest)
   else write_bytes bs (out, ss) = None"
proof (induction bs arbitrary: out ss)
  case Nil
  show ?case by simp
next
  case (Cons b bs)
  from send_raw_cases[of ss b out] show ?case
  proof (elim disjE exE conjE)
    assume "\<forall>s \<in> set ss. \<not> line_sts_ready s" "send_raw b (out, ss) = None"
    then show ?case by simp
  next
    fix rest assume r: "send_raw b (out, ss) = Some (out @ [b], rest)"
      "length (filter line_sts_ready ss) = Suc (length (filter line_sts_ready rest))"
    show ?case using Cons.IH[of rest "out @ [b]"] r by (auto split: if_splits)
  qed
qed

text \<open>
  (C30) Writing to the serial port transmits exactly the given bytes, in order and once each, and it
  returns precisely when the device reports itself ready at least as many times as there are bytes;
  otherwise the driver is still polling.
\<close>

theorem write_bytes_transmits:
  "if length bs \<le> length (filter line_sts_ready ss)
   then \<exists>rest. write_bytes bs (out, ss) = Some (out @ bs, rest)
   else write_bytes bs (out, ss) = None"
  using write_bytes_spec[of bs ss out] by (auto split: if_splits)

section \<open>Hexadecimal output\<close>

text \<open>Reading a number back from its digits, most significant first.\<close>

definition hex_digit :: "u8 \<Rightarrow> nat" where
  "hex_digit c = (if c \<ge> 0x61 then unat c - 0x61 + 10 else unat c - 0x30)"

definition parse_hex :: "u8 list \<Rightarrow> nat" where
  "parse_hex cs = foldl (\<lambda>n c. 16 * n + hex_digit c) 0 cs"

lemma hex_digit_HEX: "d < 16 \<Longrightarrow> hex_digit (HEX ! d) = d"
proof -
  assume "d < 16"
  then have "d \<in> set [0..<16]" by simp
  moreover have "\<forall>d \<in> set [0..<16]. hex_digit (HEX ! d) = d"
    by (simp add: upt_rec HEX_def hex_digit_def)
  ultimately show ?thesis by blast
qed

lemma length_HEX: "length HEX = 16"
  by (simp add: HEX_def)

lemma parse_hex_snoc: "parse_hex (cs @ [c]) = 16 * parse_hex cs + hex_digit c"
  by (simp add: parse_hex_def)

lemma unat_low_nibble: "unat ((v :: u64) AND 0xf) = unat v mod 16"
proof -
  have "v AND 0xf = take_bit 4 v" by (simp add: take_bit_eq_mask mask_eq_exp_minus_1)
  then show ?thesis by (simp add: take_bit_eq_mod unat_mod_distrib)
qed

lemma unat_drop_nibble: "unat (drop_bit 4 (v :: u64)) = unat v div 16"
  by (simp add: drop_bit_eq_div unat_div_distrib)

lemma hex_loop_spec:
  assumes "unat v < 16 ^ k" "length buf + k = 16"
  shows "\<exists>ds. hex_loop v buf = buf @ ds \<and> parse_hex (rev ds) = unat v
    \<and> (ds = [] \<longleftrightarrow> v = 0) \<and> (v \<noteq> 0 \<longrightarrow> hex_digit (last ds) \<noteq> 0) \<and> set ds \<subseteq> set HEX"
  using assms
proof (induction k arbitrary: v buf)
  case 0
  then have "v = 0" by (simp add: unat_eq_0)
  then show ?case by (intro exI[of _ "[]"]) (subst hex_loop.simps, simp add: parse_hex_def)
next
  case (Suc k)
  show ?case
  proof (cases "v = 0")
    case True
    then show ?thesis by (intro exI[of _ "[]"]) (subst hex_loop.simps, simp add: parse_hex_def)
  next
    case False
    define d where "d = unat v mod 16"
    have d: "HEX ! unat (v AND 0xf) = HEX ! d" "d < 16" by (simp_all add: d_def unat_low_nibble)
    have "unat (drop_bit 4 v) < 16 ^ k" using Suc.prems(1)
      by (simp add: unat_drop_nibble less_mult_imp_div_less mult.commute)
    from Suc.IH[OF this, of "buf @ [HEX ! d]"] Suc.prems(2) obtain ds where ds:
      "hex_loop (drop_bit 4 v) (buf @ [HEX ! d]) = (buf @ [HEX ! d]) @ ds"
      "parse_hex (rev ds) = unat v div 16" "ds = [] \<longleftrightarrow> drop_bit 4 v = 0"
      "drop_bit 4 v \<noteq> 0 \<longrightarrow> hex_digit (last ds) \<noteq> 0" "set ds \<subseteq> set HEX"
      by (auto simp: unat_drop_nibble)
    have e: "hex_loop v buf = buf @ (HEX ! d # ds)"
      using False Suc.prems(2) ds(1) d(1) by (subst hex_loop.simps) simp
    have p: "parse_hex (rev (HEX ! d # ds)) = unat v"
      using ds(2) d(2) by (simp add: parse_hex_snoc hex_digit_HEX d_def)
    have s: "set (HEX ! d # ds) \<subseteq> set HEX"
      using ds(5) d(2) nth_mem[of d HEX] by (simp add: length_HEX)
    have l: "hex_digit (last (HEX ! d # ds)) \<noteq> 0"
    proof (cases "drop_bit 4 v = 0")
      case True
      then have "unat v div 16 = 0" using unat_drop_nibble[of v] by (metis unat_0)
      then have "d = unat v" by (simp add: d_def)
      then have "d \<noteq> 0" using False by (simp add: unat_eq_0)
      then show ?thesis using True ds(3) d(2) by (simp add: hex_digit_HEX)
    qed (use ds(3,4) in auto)
    show ?thesis using e p s l False by (intro exI[of _ "HEX ! d # ds"]) simp
  qed
qed

text \<open>
  The fault handlers' number output is exact: after the prefix \<open>0x\<close> it prints lower-case
  hexadecimal digits that read back as the number, without leading zeros.
\<close>

theorem debug_hex_roundtrip:
  "\<exists>ds. debug_hex_u64 n = [0x30, 0x78] @ ds \<and> parse_hex ds = unat n \<and> set ds \<subseteq> set HEX
     \<and> ds \<noteq> [] \<and> (hd ds = 0x30 \<longleftrightarrow> n = 0)"
proof (cases "n = 0")
  case True
  then show ?thesis
    by (intro exI[of _ "[0x30]"]) (simp add: debug_hex_u64_def parse_hex_def hex_digit_def HEX_def)
next
  case False
  have "unat n < 16 ^ 16" using unsigned_less[of n] by simp
  from hex_loop_spec[OF this, of "[]"] False obtain ds where ds:
    "hex_loop n [] = ds" "parse_hex (rev ds) = unat n" "ds \<noteq> []" "hex_digit (last ds) \<noteq> 0"
    "set ds \<subseteq> set HEX"
    by auto
  have "last ds \<noteq> 0x30" using ds(4) by (auto simp: hex_digit_def)
  then show ?thesis using False ds
    by (intro exI[of _ "rev ds"]) (simp add: debug_hex_u64_def hd_rev)
qed

end
