(* ===== verification/Rock_Vga.thy ===== *)
theory Rock_Vga
  imports Rock_Serial
begin

text \<open>
  The text screen (\<open>src/vga.rs\<close>): the writer with its cursor over the 80 by 25 cells of video
  memory, and the two print entry points, which mirror the text to the serial port.
\<close>

section \<open>The writer\<close>

type_synonym cell = "u8 \<times> u8"

record vga_writer =
  col :: nat
  row :: nat
  color :: u8
  buffer :: "cell list"

definition VgaWriter_new :: "cell list \<Rightarrow> vga_writer" where
  "VgaWriter_new b = \<lparr>col = 0, row = 0, color = 0x0f, buffer = b\<rparr>"

definition new_line :: "vga_writer \<Rightarrow> vga_writer" where
  "new_line w = (let r = row w + 1 in w\<lparr>col := 0, row := (if r \<ge> 25 then 0 else r)\<rparr>)"

definition vga_write_byte :: "u8 \<Rightarrow> vga_writer \<Rightarrow> vga_writer outcome" where
  "vga_write_byte byte w =
     (if byte = 0x0A then Inr (new_line w)
      else let w = (if col w \<ge> 80 then new_line w else w); i = row w * 80 + col w in
        if i < length (buffer w)
        then Inr (w\<lparr>buffer := (buffer w)[i := (byte, color w)], col := col w + 1\<rparr>)
        else Inl IndexOutOfBounds)"

fun vga_write_str :: "u8 list \<Rightarrow> vga_writer \<Rightarrow> vga_writer outcome" where
  "vga_write_str [] w = Inr w"
| "vga_write_str (b # bs) w = obind (vga_write_byte b w) (vga_write_str bs)"

text \<open>\<open>vga::init\<close>: every cell of the buffer (2000 cells by its type) becomes a blue blank.\<close>

definition vga_init :: "cell list \<Rightarrow> vga_writer option" where
  "vga_init b = Some (VgaWriter_new (map (\<lambda>_. (0x20, 0x1f)) b))"

definition vga_print ::
  "u8 list \<Rightarrow> vga_writer option \<times> u8 list \<times> u8 list
     \<Rightarrow> (vga_writer option \<times> u8 list \<times> u8 list) option outcome" where
  "vga_print bs s =
     (case s of (w, port) \<Rightarrow>
        obind (case w of None \<Rightarrow> Inr None | Some w \<Rightarrow> obind (vga_write_str bs w) (\<lambda>w. Inr (Some w)))
          (\<lambda>w. Inr (map_option (Pair w) (write_bytes bs port))))"

definition vga_println ::
  "u8 list \<Rightarrow> vga_writer option \<times> u8 list \<times> u8 list
     \<Rightarrow> (vga_writer option \<times> u8 list \<times> u8 list) option outcome" where
  "vga_println bs s =
     (case s of (w, port) \<Rightarrow>
        obind (case w of None \<Rightarrow> Inr None
               | Some w \<Rightarrow> obind (vga_write_str bs w) (\<lambda>w.
                   obind (vga_write_str [0x0A] w) (\<lambda>w. Inr (Some w))))
          (\<lambda>w. Inr (map_option (Pair w) (write_line bs port))))"

section \<open>The cursor invariant\<close>

definition vga_ok :: "vga_writer \<Rightarrow> bool" where
  "vga_ok w \<longleftrightarrow> row w < 25 \<and> col w \<le> 80 \<and> length (buffer w) = 2000"

text \<open>The cell the next character goes to, counted from the top left corner.\<close>

definition cursor :: "vga_writer \<Rightarrow> nat" where
  "cursor w = (row w * 80 + col w) mod 2000"

lemma new_line_ok: "vga_ok w \<Longrightarrow> vga_ok (new_line w)"
  by (auto simp: vga_ok_def new_line_def Let_def)

lemma vga_write_byte_ok:
  assumes "vga_ok w"
  shows "\<exists>w'. vga_write_byte b w = Inr w' \<and> vga_ok w' \<and> color w' = color w"
proof -
  have "\<exists>w'. vga_write_byte b w = Inr w' \<and> vga_ok w' \<and> color w' = color w" if "col w < 80"
    using assms that new_line_ok[OF assms] by (auto simp: vga_write_byte_def vga_ok_def Let_def new_line_def)
  moreover have "\<exists>w'. vga_write_byte b w = Inr w' \<and> vga_ok w' \<and> color w' = color w" if "col w = 80"
    using assms that new_line_ok[OF assms] by (auto simp: vga_write_byte_def vga_ok_def Let_def new_line_def)
  ultimately show ?thesis using assms by (force simp: vga_ok_def)
qed

lemma vga_write_str_ok:
  "vga_ok w \<Longrightarrow> \<exists>w'. vga_write_str s w = Inr w' \<and> vga_ok w' \<and> color w' = color w"
proof (induction s arbitrary: w)
  case (Cons b s)
  from vga_write_byte_ok[OF Cons.prems] obtain v where
    v: "vga_write_byte b w = Inr v" "vga_ok v" "color v = color w" by blast
  then show ?case using Cons.IH[OF v(2)] by auto
qed simp

lemma vga_write_char:
  assumes "vga_ok w" "b \<noteq> 0x0A" "vga_write_byte b w = Inr w'"
  shows "buffer w' = (buffer w)[cursor w := (b, color w)] \<and> cursor w' = (cursor w + 1) mod 2000"
proof (cases "col w \<ge> 80")
  case True
  then have "col w = 80" using assms(1) by (simp add: vga_ok_def)
  then show ?thesis using assms
    by (cases "row w = 24")
      (auto simp: vga_write_byte_def new_line_def vga_ok_def cursor_def Let_def add.commute)
next
  case False
  then have "row w * 80 + col w < 2000" using assms(1) by (simp add: vga_ok_def)
  then show ?thesis using assms False
    by (auto simp: vga_write_byte_def vga_ok_def cursor_def Let_def)
qed

text \<open>
  Printing never runs off the screen: from a cursor on the screen every bs is written without
  an out-of-bounds access, and the cursor is on the screen afterwards.
\<close>

theorem vga_cursor_on_screen:
  assumes "vga_ok w"
  shows "\<exists>w'. vga_write_str s w = Inr w' \<and> vga_ok w'"
  using vga_write_str_ok[OF assms] by blast

theorem vga_cursor_on_screen_witness:
  "\<exists>w'. vga_write_str [0x52, 0x0A] (VgaWriter_new (replicate 2000 (0, 0))) = Inr w' \<and> vga_ok w'"
  by (rule vga_cursor_on_screen) (simp add: vga_ok_def VgaWriter_new_def)

section \<open>What appears on the screen\<close>

lemma vga_write_chars:
  assumes "vga_ok w" "0x0A \<notin> set s" "length s \<le> 2000" "vga_write_str s w = Inr w'"
  shows "cursor w' = (cursor w + length s) mod 2000 \<and>
    (\<forall>p < 2000. buffer w' ! p =
       (let i = (p + 2000 - cursor w) mod 2000 in if i < length s then (s ! i, color w) else buffer w ! p))"
  using assms
proof (induction s arbitrary: w)
  case Nil
  have "cursor w < 2000" by (simp add: cursor_def)
  then show ?case using Nil by (simp add: Let_def)
next
  case (Cons b s)
  obtain v where v: "vga_write_byte b w = Inr v" "vga_ok v" "color v = color w"
    using vga_write_byte_ok[OF Cons.prems(1)] by blast
  have vc: "buffer v = (buffer w)[cursor w := (b, color w)]" "cursor v = (cursor w + 1) mod 2000"
    using vga_write_char[OF Cons.prems(1) _ v(1)] Cons.prems(2) by auto
  have c: "cursor w < 2000" by (simp add: cursor_def)
  have lb: "length (buffer w) = 2000" using Cons.prems(1) by (simp add: vga_ok_def)
  have ih: "cursor w' = (cursor v + length s) mod 2000"
    "\<forall>p < 2000. buffer w' ! p =
       (let i = (p + 2000 - cursor v) mod 2000 in if i < length s then (s ! i, color v) else buffer v ! p)"
    using Cons.IH[OF v(2)] Cons.prems v(1) by auto
  have "buffer w' ! p = (let i = (p + 2000 - cursor w) mod 2000 in
      if i < length (b # s) then ((b # s) ! i, color w) else buffer w ! p)" if p: "p < 2000" for p
  proof (cases "p = cursor w")
    case True
    have "(p + 2000 - cursor v) mod 2000 = 1999"
      using True c vc(2) by (cases "cursor w = 1999") (auto simp: mod_if)
    moreover have "\<not> 1999 < length s" using Cons.prems(3) by simp
    ultimately show ?thesis using ih(2) p True vc(1) lb c by (simp add: Let_def)
  next
    case False
    have i: "(p + 2000 - cursor w) mod 2000 = Suc ((p + 2000 - cursor v) mod 2000)"
      using False c p vc(2) by (cases "cursor w = 1999") (auto simp: mod_if)
    then show ?thesis using ih(2) p False vc(1) v(3) by (simp add: Let_def)
  qed
  moreover have "cursor w' = (cursor w + length (b # s)) mod 2000"
    using ih(1) vc(2) by (simp add: mod_simps)
  ultimately show ?case by blast
qed

text \<open>
  (C29) A bs of at most one screen without line feeds appears cell by cell from the cursor on, in
  the writer's colour, continuing at the top left corner after the last cell of the screen; every
  other cell keeps its content.
\<close>

theorem vga_text_appears:
  assumes "vga_ok w" "0x0A \<notin> set s" "length s \<le> 2000" "vga_write_str s w = Inr w'" "p < 2000"
  shows "buffer w' ! p =
    (let i = (p + 2000 - cursor w) mod 2000 in if i < length s then (s ! i, color w) else buffer w ! p)"
  using vga_write_chars[OF assms(1-4)] assms(5) by blast

theorem vga_text_appears_witness:
  "\<exists>w'. vga_write_str [0x48, 0x69] (VgaWriter_new (replicate 2000 (0, 0))) = Inr w'
     \<and> buffer w' ! 1 = (0x69, 0x0f)"
proof -
  let ?w = "VgaWriter_new (replicate 2000 (0, 0))"
  have ok: "vga_ok ?w" by (simp add: vga_ok_def VgaWriter_new_def)
  obtain w' where w': "vga_write_str [0x48, 0x69] ?w = Inr w'" using vga_write_str_ok[OF ok] by blast
  have "buffer w' ! 1 = (0x69, 0x0f)"
    using vga_text_appears[OF ok _ _ w', of 1] by (simp add: cursor_def VgaWriter_new_def Let_def)
  then show ?thesis using w' by blast
qed

text \<open>
  The print entry points: the screen receives the bs (with a line feed for \<open>println!\<close>), the
  serial line the same bytes (with carriage return and line feed).
\<close>

lemma vga_println_mirrors:
  assumes "vga_ok w" "length bs + 2 \<le> length (filter line_sts_ready ss)"
  shows "\<exists>w' rest. vga_println bs (Some w, out, ss) = Inr (Some (Some w', out @ bs @ [0x0D, 0x0A], rest))
     \<and> vga_ok w' \<and> col w' = 0"
proof -
  obtain v where v: "vga_write_str bs w = Inr v" "vga_ok v"
    using vga_write_str_ok[OF assms(1)] by blast
  obtain r1 where r1: "write_bytes bs (out, ss) = Some (out @ bs, r1)"
    "length (filter line_sts_ready ss) = length bs + length (filter line_sts_ready r1)"
    using write_bytes_spec[of bs ss out] assms(2) by (auto split: if_splits)
  obtain r2 where r2: "write_bytes [0x0D, 0x0A] (out @ bs, r1) = Some ((out @ bs) @ [0x0D, 0x0A], r2)"
    using write_bytes_spec[of "[0x0D, 0x0A]" r1 "out @ bs"] r1(2) assms(2) by (auto split: if_splits)
  have "vga_println bs (Some w, out, ss)
      = Inr (Some (Some (new_line v), out @ bs @ [0x0D, 0x0A], r2))"
    using v(1) r1(1) r2 by (simp add: vga_println_def write_line_def vga_write_byte_def)
  then show ?thesis using new_line_ok[OF v(2)] by (auto simp: new_line_def Let_def)
qed

end
