(* ===== verification/Rock_Kernel.thy ===== *)
theory Rock_Kernel
  imports Rock_Paging Rock_Tty Rock_Task Rock_Vga
begin

text \<open>
  The state of the running kernel: one record with a field per \<open>static\<close> of the sources, the page
  table (of the parameter type \<open>'pt\<close>), the bytes of physical memory, and the machine of
  \<open>Rock_Task\<close>. Also the accesses of the kernel to user addresses and, through the offset
  window, to physical memory.
\<close>

section \<open>Processes and the scheduler's data\<close>

record vm_area =
  va_id :: u64
  virt_start :: u64
  va_pages :: nat
  va_writable :: bool
  va_executable :: bool

text \<open>
  A process; \<open>kstack\<close> is the address of its kernel stack array, chosen by the heap.
  \<open>exit_code\<close> holds an \<open>i32\<close>.
\<close>

record process =
  pid :: u64
  parent :: "u64 option"
  brk_end :: u64
  vm_areas :: "vm_area list"
  exit_code :: "u32 option"
  kstack :: u64
  save :: syscall_saved
  pending_rax :: u64

type_synonym procs = "process option list"

record sched_state =
  runnable :: "nat list"
  time_slice_ticks :: u64
  last_started_tick :: u64

section \<open>The kernel\<close>

record 'pt kernel =
  mem :: memory
  page_table :: 'pt
  ram :: "u64 \<Rightarrow> u8"
  USER_IMAGE_END :: u64
  USER_RW_IMAGE_START :: u64
  USER_ENTRY_RIP :: u64
  VM_AREA_NEXT_ID :: u64
  NEXT_MMAP :: u64
  TABLE :: "procs option"
  CURRENT_SLOT :: nat
  cpu :: machine
  SCHED :: "sched_state option"
  NEED_RESCHED :: bool
  TICKS :: u64
  SCANCODE_QUEUE :: scancode_queue
  TTY :: tty_state
  STDIN_NONBLOCK :: bool
  NEXT_FD :: u64
  FILES :: "(u64 \<times> u8 list) list"
  SERIAL1 :: "u8 list"
  WRITER :: "vga_writer option"

definition USER_TEXT_BASE :: u64 where [rock_consts]: "USER_TEXT_BASE = 0x400000"
definition USER_STACK_TOP :: u64 where [rock_consts]: "USER_STACK_TOP = 0x402000"
definition USER_STACK_CHILD_TOP :: u64 where [rock_consts]: "USER_STACK_CHILD_TOP = 0x403000"
definition CHILD_STACK_LO :: u64 where [rock_consts]: "CHILD_STACK_LO = USER_STACK_CHILD_TOP - 0x1000"
definition USER_BRK_BASE :: u64 where [rock_consts]: "USER_BRK_BASE = 0x404000"
definition USER_BRK_LIMIT :: u64 where [rock_consts]: "USER_BRK_LIMIT = 0x410000"
definition USER_MMAP_BASE :: u64 where [rock_consts]: "USER_MMAP_BASE = 0x410000"
definition USER_MMAP_LIMIT :: u64 where [rock_consts]: "USER_MMAP_LIMIT = 0x480000"
definition PROT_READ :: u64 where [rock_consts]: "PROT_READ = 1"
definition PROT_WRITE :: u64 where [rock_consts]: "PROT_WRITE = 2"
definition PROT_EXEC :: u64 where [rock_consts]: "PROT_EXEC = 4"

text \<open>The values of the statics when the kernel is entered.\<close>

definition kernel_static :: "'pt \<Rightarrow> (u64 \<Rightarrow> u8) \<Rightarrow> machine \<Rightarrow> 'pt kernel" where
  "kernel_static pt ram0 m =
     \<lparr>mem = memory_static, page_table = pt, ram = ram0,
      USER_IMAGE_END = USER_TEXT_BASE + 0x1000, USER_RW_IMAGE_START = USER_TEXT_BASE + 0x1000,
      USER_ENTRY_RIP = USER_TEXT_BASE, VM_AREA_NEXT_ID = 1, NEXT_MMAP = USER_MMAP_BASE,
      TABLE = None, CURRENT_SLOT = 0,
      cpu = m\<lparr>SYSCALL_USER_RSP_STASH := 0, CURRENT_KSTACK_TOP := 0\<rparr>,
      SCHED = None, NEED_RESCHED = False, TICKS = 0,
      SCANCODE_QUEUE = ScancodeQueue_new, TTY = TtyState_new,
      STDIN_NONBLOCK = False, NEXT_FD = 4, FILES = [], SERIAL1 = [], WRITER = None\<rparr>"

text \<open>The errno results, \<open>(-n i64) as u64\<close>.\<close>

definition errno :: "nat \<Rightarrow> u64" where
  "errno n = - of_nat n"

section \<open>Memory accesses\<close>

text \<open>
  A pointer dereference at a user address goes through the page table and faults where nothing is
  mapped; \<open>read_user\<close> and \<open>write_user\<close> are the byte-wise accesses of the raw slices and copies
  the handlers make. \<open>window_addr\<close> are the checks of an access to physical memory through the
  offset window, which the boot loader maps.
\<close>

definition load8 :: "'pt x86 \<Rightarrow> 'pt kernel \<Rightarrow> u64 \<Rightarrow> u8 outcome" where
  "load8 X k v = (case translate X (page_table k) v of None \<Rightarrow> Inl PageFault | Some p \<Rightarrow> Inr (ram k p))"

definition store8 :: "'pt x86 \<Rightarrow> u64 \<Rightarrow> u8 \<Rightarrow> 'pt kernel \<Rightarrow> 'pt kernel outcome" where
  "store8 X v b k =
     (case translate X (page_table k) v of None \<Rightarrow> Inl PageFault
      | Some p \<Rightarrow> Inr (k\<lparr>ram := (ram k)(p := b)\<rparr>))"

fun read_user :: "'pt x86 \<Rightarrow> 'pt kernel \<Rightarrow> u64 \<Rightarrow> nat \<Rightarrow> u8 list outcome" where
  "read_user X k v 0 = Inr []"
| "read_user X k v (Suc n) =
     obind (load8 X k v) (\<lambda>b. obind (read_user X k (v + 1) n) (\<lambda>bs. Inr (b # bs)))"

fun write_user :: "'pt x86 \<Rightarrow> u64 \<Rightarrow> u8 list \<Rightarrow> 'pt kernel \<Rightarrow> 'pt kernel outcome" where
  "write_user X v [] k = Inr k"
| "write_user X v (b # bs) k = obind (store8 X v b k) (write_user X (v + 1) bs)"

definition window_addr :: "'pt x86 \<Rightarrow> 'pt kernel \<Rightarrow> u64 \<Rightarrow> u64 outcome" where
  "window_addr X k p =
     obind (phys_to_virt (mem k) p) (\<lambda>v. if virt_new X v then Inr p else Inl BadVirtAddr)"

text \<open>Which accesses succeed, and what they return.\<close>

definition user_mapped :: "'pt x86 \<Rightarrow> 'pt \<Rightarrow> u64 \<Rightarrow> nat \<Rightarrow> bool" where
  "user_mapped X pt v n \<longleftrightarrow> (\<forall>i < n. translate X pt (v + of_nat i) \<noteq> None)"

lemma user_mapped_Suc:
  "user_mapped X pt v (Suc n) \<longleftrightarrow> translate X pt v \<noteq> None \<and> user_mapped X pt (v + 1) n"
  unfolding user_mapped_def by (simp add: All_less_Suc2 add.assoc)

lemma read_user_mapped:
  "user_mapped X (page_table k) v n \<Longrightarrow>
    read_user X k v n = Inr (map (\<lambda>i. ram k (the (translate X (page_table k) (v + of_nat i)))) [0..<n])"
proof (induction n arbitrary: v)
  case (Suc n)
  then obtain p where "translate X (page_table k) v = Some p" by (auto simp: user_mapped_Suc)
  then show ?case using Suc
    by (simp add: user_mapped_Suc load8_def upt_conv_Cons map_Suc_upt[symmetric] add.assoc
        del: upt_Suc)
qed simp

lemma write_user_mapped:
  "user_mapped X (page_table k) v (length bs) \<Longrightarrow>
    \<exists>m. write_user X v bs k = Inr (k\<lparr>ram := m\<rparr>)"
proof (induction bs arbitrary: v k)
  case Nil
  show ?case by (intro exI[of _ "ram k"]) simp
next
  case (Cons b bs)
  then obtain p where p: "translate X (page_table k) v = Some p" by (auto simp: user_mapped_Suc)
  let ?k = "k\<lparr>ram := (ram k)(p := b)\<rparr>"
  have "user_mapped X (page_table ?k) (v + 1) (length bs)"
    using Cons.prems by (simp add: user_mapped_Suc)
  from Cons.IH[OF this] p show ?case by (auto simp: store8_def)
qed

end
