(* ===== verification/Rock_Process.thy ===== *)
theory Rock_Process
  imports Rock_Kernel
begin

text \<open>
  The process table (\<open>src/process.rs\<close>): slots, process ids, exit and reaping, and the checks of
  user ranges against the heap and the mapped areas of the current process. The memory calls are in
  \<open>Rock_Vm\<close>, \<open>fork\<close> in \<open>Rock_Fork\<close>.
\<close>

section \<open>The table\<close>

definition Process_new :: "u64 \<Rightarrow> u64 option \<Rightarrow> syscall_saved \<Rightarrow> u64 \<Rightarrow> process" where
  "Process_new p par bootstrap kst =
     \<lparr>pid = p, parent = par, brk_end = USER_BRK_BASE, vm_areas = [], exit_code = None,
      kstack = kst, save = bootstrap, pending_rax = 0\<rparr>"

definition kstack_top :: "process \<Rightarrow> u64" where
  "kstack_top p = kstack p + 4096"

fun first_none :: "'a option list \<Rightarrow> nat option" where
  "first_none [] = None"
| "first_none (None # xs) = Some 0"
| "first_none (Some x # xs) = map_option Suc (first_none xs)"

definition alloc_slot :: "procs \<Rightarrow> nat option \<times> procs" where
  "alloc_slot t =
     (case first_none t of Some i \<Rightarrow> (Some i, t)
      | None \<Rightarrow> if length t < 32 then (Some (length t), t @ [None]) else (None, t))"

text \<open>
  \<open>process::init\<close>. The stack top it records is that of the value before it is moved into its
  box: \<open>at_stack\<close> and \<open>at_box\<close> are the addresses of the stack array before and after.
\<close>

definition process_init :: "u64 \<Rightarrow> u64 \<Rightarrow> 'pt kernel \<Rightarrow> 'pt kernel" where
  "process_init at_stack at_box k =
     (let bootstrap = bootstrap_user (USER_ENTRY_RIP k) USER_STACK_TOP 0x202;
          v = replicate 32 None;
          top = kstack_top (Process_new 1 None bootstrap at_stack)
      in k\<lparr>TABLE := Some (v[0 := Some (Process_new 1 None bootstrap at_box)]), CURRENT_SLOT := 0,
           cpu := set_current_kstack_top top (cpu k)\<rparr>)"

text \<open>\<open>t.procs[i]\<close> (panics out of range) and \<open>t.procs.get(i)\<close> with the inner option flattened.\<close>

definition slot_at :: "procs \<Rightarrow> nat \<Rightarrow> process option outcome" where
  "slot_at t i = (if i < length t then Inr (t ! i) else Inl IndexOutOfBounds)"

definition get_slot :: "procs \<Rightarrow> nat \<Rightarrow> process option" where
  "get_slot t i = (if i < length t then t ! i else None)"

definition proc_of_slot :: "'pt kernel \<Rightarrow> nat \<Rightarrow> process option" where
  "proc_of_slot k i = (case TABLE k of None \<Rightarrow> None | Some t \<Rightarrow> get_slot t i)"

definition with_slot :: "(procs \<Rightarrow> nat \<Rightarrow> 'r outcome) \<Rightarrow> 'pt kernel \<Rightarrow> 'r option outcome" where
  "with_slot f k =
     (case TABLE k of None \<Rightarrow> Inr None | Some t \<Rightarrow> obind (f t (CURRENT_SLOT k)) (\<lambda>r. Inr (Some r)))"

definition set_current_slot :: "nat \<Rightarrow> 'pt kernel \<Rightarrow> 'pt kernel" where
  "set_current_slot s k =
     (let k = k\<lparr>CURRENT_SLOT := s\<rparr> in
      case proc_of_slot k s of None \<Rightarrow> k
      | Some p \<Rightarrow> k\<lparr>cpu := set_current_kstack_top (kstack_top p) (cpu k)\<rparr>)"

definition current_pid :: "'pt kernel \<Rightarrow> u64 outcome" where
  "current_pid k =
     obind (with_slot (\<lambda>t i. obind (slot_at t i) (\<lambda>s. Inr (map_option pid s))) k)
       (\<lambda>r. Inr (case r of Some (Some p) \<Rightarrow> p | _ \<Rightarrow> 1))"

definition current_ppid :: "'pt kernel \<Rightarrow> u64 option outcome" where
  "current_ppid k =
     obind (with_slot (\<lambda>t i. obind (slot_at t i) (\<lambda>s. Inr (Option.bind s parent))) k)
       (\<lambda>r. Inr (Option.bind r id))"

definition kstack_top_for_slot :: "'pt kernel \<Rightarrow> nat \<Rightarrow> u64" where
  "kstack_top_for_slot k slot =
     (case proc_of_slot k slot of Some p \<Rightarrow> kstack_top p | None \<Rightarrow> CURRENT_KSTACK_TOP (cpu k))"

definition syscall_saved_for_slot :: "'pt kernel \<Rightarrow> nat \<Rightarrow> syscall_saved outcome" where
  "syscall_saved_for_slot k slot =
     (case proc_of_slot k slot of Some p \<Rightarrow> Inr (save p) | None \<Rightarrow> Inl UnwrapNone)"

text \<open>Update of a process in place, where the slot holds one.\<close>

definition update_slot :: "nat \<Rightarrow> (process \<Rightarrow> process) \<Rightarrow> 'pt kernel \<Rightarrow> 'pt kernel" where
  "update_slot slot f k =
     (case TABLE k of None \<Rightarrow> k
      | Some t \<Rightarrow> (case get_slot t slot of None \<Rightarrow> k
                 | Some p \<Rightarrow> k\<lparr>TABLE := Some (t[slot := Some (f p)])\<rparr>))"

definition set_syscall_saved :: "nat \<Rightarrow> syscall_saved \<Rightarrow> u64 \<Rightarrow> 'pt kernel \<Rightarrow> 'pt kernel" where
  "set_syscall_saved slot sv rx = update_slot slot (\<lambda>p. p\<lparr>save := sv, pending_rax := rx\<rparr>)"

definition pending_rax_for_slot :: "'pt kernel \<Rightarrow> nat \<Rightarrow> u64" where
  "pending_rax_for_slot k slot =
     (case proc_of_slot k slot of Some p \<Rightarrow> pending_rax p | None \<Rightarrow> 0)"

definition slot_is_alive_runnable :: "'pt kernel \<Rightarrow> nat \<Rightarrow> bool" where
  "slot_is_alive_runnable k slot =
     (case proc_of_slot k slot of Some p \<Rightarrow> exit_code p = None | None \<Rightarrow> False)"

definition mark_exited :: "u32 \<Rightarrow> 'pt kernel \<Rightarrow> 'pt kernel" where
  "mark_exited status k = update_slot (CURRENT_SLOT k) (\<lambda>p. p\<lparr>exit_code := Some status\<rparr>) k"

text \<open>\<open>alloc_pid\<close>: the first candidate of 2..1024 that no process has.\<close>

definition live :: "procs \<Rightarrow> process list" where
  "live t = List.map_filter id t"

definition alloc_pid :: "'pt kernel \<Rightarrow> u64 option" where
  "alloc_pid k =
     (case TABLE k of None \<Rightarrow> None
      | Some t \<Rightarrow> find (\<lambda>cand. list_all (\<lambda>p. pid p \<noteq> cand) (live t)) (map of_nat [2..<1024]))"

text \<open>
  \<open>wait_reap\<close>: \<open>wait_scan\<close> is its loop, with the index of the slot it looks at. The \<open>?\<close> on
  the exit code returns from the whole function at a child that has not exited. The target is an
  \<open>i64\<close>, read as signed.
\<close>

fun wait_scan :: "u64 \<Rightarrow> u64 \<Rightarrow> nat \<Rightarrow> procs \<Rightarrow> (nat \<times> u64 \<times> u32) option" where
  "wait_scan me target slot [] = None"
| "wait_scan me target slot (None # ps) = wait_scan me target (Suc slot) ps"
| "wait_scan me target slot (Some p # ps) =
     (if parent p \<noteq> Some me then wait_scan me target (Suc slot) ps
      else case exit_code p of None \<Rightarrow> None
        | Some code \<Rightarrow>
            if 0 \<le> sint target \<and> pid p \<noteq> target then wait_scan me target (Suc slot) ps
            else Some (slot, pid p, code))"

definition wait_reap :: "u64 \<Rightarrow> 'pt kernel \<Rightarrow> ((u64 \<times> u32) option \<times> 'pt kernel) outcome" where
  "wait_reap target k =
     obind (current_pid k) (\<lambda>me. Inr (
       case TABLE k of None \<Rightarrow> (None, k)
       | Some t \<Rightarrow> (case wait_scan me target 0 t of None \<Rightarrow> (None, k)
           | Some (slot, p, st) \<Rightarrow> (Some (p, st), k\<lparr>TABLE := Some (t[slot := None])\<rparr>))))"

section \<open>Ranges of the current process\<close>

definition covers_brk_heap :: "'pt kernel \<Rightarrow> u64 \<Rightarrow> u64 \<Rightarrow> bool outcome" where
  "covers_brk_heap k addr end' =
     obind (with_slot (\<lambda>t i. obind (slot_at t i) (\<lambda>s. Inr (map_option brk_end s))) k)
       (\<lambda>r. Inr (case r of Some (Some brk) \<Rightarrow>
               addr \<ge> USER_BRK_BASE \<and> end' \<le> brk \<and> end' \<le> USER_BRK_LIMIT
             | _ \<Rightarrow> False))"

text \<open>\<open>a.virt_start + (a.pages as u64) * Size4KiB::SIZE\<close>, with the overflow checks.\<close>

definition area_end :: "vm_area \<Rightarrow> u64 outcome" where
  "area_end a =
     (if unat (virt_start a) + va_pages a * PAGE_SIZE < 2 ^ 64
      then Inr (virt_start a + of_nat (va_pages a * PAGE_SIZE)) else Inl Overflow)"

fun covers_area :: "bool \<Rightarrow> u64 \<Rightarrow> u64 \<Rightarrow> vm_area list \<Rightarrow> bool outcome" where
  "covers_area write addr end' [] = Inr False"
| "covers_area write addr end' (a # as) =
     (if write \<and> \<not> va_writable a then covers_area write addr end' as
      else obind (area_end a) (\<lambda>aend.
        if addr \<ge> virt_start a \<and> end' \<le> aend then Inr True else covers_area write addr end' as))"

definition covers_mmap :: "bool \<Rightarrow> 'pt kernel \<Rightarrow> u64 \<Rightarrow> u64 \<Rightarrow> bool outcome" where
  "covers_mmap write k addr end' =
     obind (with_slot (\<lambda>t i. obind (slot_at t i) (\<lambda>s. case s of None \<Rightarrow> Inr None
         | Some p \<Rightarrow> obind (covers_area write addr end' (vm_areas p)) (\<lambda>b. Inr (Some b)))) k)
       (\<lambda>r. Inr (case r of Some (Some b) \<Rightarrow> b | _ \<Rightarrow> False))"

definition covers_mmap_read :: "'pt kernel \<Rightarrow> u64 \<Rightarrow> u64 \<Rightarrow> bool outcome" where
  "covers_mmap_read = covers_mmap False"

definition covers_mmap_write :: "'pt kernel \<Rightarrow> u64 \<Rightarrow> u64 \<Rightarrow> bool outcome" where
  "covers_mmap_write = covers_mmap True"

section \<open>The table invariant\<close>

definition area_ok :: "vm_area \<Rightarrow> bool" where
  "area_ok a \<longleftrightarrow> page_aligned (virt_start a) \<and> USER_MMAP_BASE \<le> virt_start a \<and> 0 < va_pages a
     \<and> unat (virt_start a) + va_pages a * PAGE_SIZE \<le> unat USER_MMAP_LIMIT"

definition proc_ok :: "process \<Rightarrow> bool" where
  "proc_ok p \<longleftrightarrow> 1 \<le> unat (pid p) \<and> unat (pid p) < 1024 \<and> parent p \<noteq> Some (pid p)
     \<and> USER_BRK_BASE \<le> brk_end p \<and> brk_end p \<le> USER_BRK_LIMIT \<and> list_all area_ok (vm_areas p)"

definition table_ok :: "procs \<Rightarrow> bool" where
  "table_ok t \<longleftrightarrow> length t = 32 \<and> (\<forall>i p. get_slot t i = Some p \<longrightarrow> proc_ok p)
     \<and> (\<forall>i j p q. get_slot t i = Some p \<longrightarrow> get_slot t j = Some q \<longrightarrow> pid p = pid q \<longrightarrow> i = j)"

text \<open>The table exists, is well formed, and the current slot holds a process.\<close>

definition current_proc :: "'pt kernel \<Rightarrow> procs \<Rightarrow> process \<Rightarrow> bool" where
  "current_proc k t p \<longleftrightarrow> TABLE k = Some t \<and> table_ok t \<and> get_slot t (CURRENT_SLOT k) = Some p"

lemma get_slot_SomeD: "get_slot t i = Some p \<Longrightarrow> i < length t \<and> t ! i = Some p"
  by (simp add: get_slot_def split: if_splits)

lemma get_slot_update:
  "get_slot (t[i := x]) j = (if j = i \<and> i < length t then x else get_slot t j)"
  by (auto simp: get_slot_def nth_list_update)

lemma in_live_iff: "p \<in> set (live t) \<longleftrightarrow> (\<exists>i. get_slot t i = Some p)"
  by (force simp: live_def List.map_filter_def get_slot_def in_set_conv_nth split: if_splits)

lemma length_live: "length (live t) \<le> length t"
  by (simp add: live_def List.map_filter_def)

lemma table_okD:
  assumes "table_ok t"
  shows "length t = 32" and "get_slot t i = Some p \<Longrightarrow> proc_ok p"
    and "get_slot t i = Some p \<Longrightarrow> get_slot t j = Some q \<Longrightarrow> pid p = pid q \<Longrightarrow> i = j"
  using assms unfolding table_ok_def by blast+

lemma table_ok_update:
  assumes "table_ok t"
    "\<And>q. x = Some q \<Longrightarrow> proc_ok q \<and> (\<forall>j p. get_slot t j = Some p \<longrightarrow> pid p = pid q \<longrightarrow> j = i)"
  shows "table_ok (t[i := x])"
  unfolding table_ok_def get_slot_update
  using assms table_okD[OF assms(1)] by (auto split: if_splits)

lemma table_ok_update_same_pid:
  assumes "table_ok t" "get_slot t i = Some p" "proc_ok q" "pid q = pid p"
  shows "table_ok (t[i := Some q])"
  using assms table_okD(3)[OF assms(1)] by (intro table_ok_update) auto

lemma current_procD:
  assumes "current_proc k t p"
  shows "TABLE k = Some t" "table_ok t" "CURRENT_SLOT k < length t" "t ! CURRENT_SLOT k = Some p"
    "get_slot t (CURRENT_SLOT k) = Some p" "proc_ok p"
  using assms get_slot_SomeD table_okD unfolding current_proc_def by blast+

lemma with_slot_current:
  "current_proc k t p \<Longrightarrow>
    with_slot (\<lambda>t i. obind (slot_at t i) f) k = obind (f (Some p)) (\<lambda>r. Inr (Some r))"
  using current_procD by (fastforce simp: with_slot_def slot_at_def)

lemma current_pid_eq: "current_proc k t p \<Longrightarrow> current_pid k = Inr (pid p)"
  by (simp add: current_pid_def with_slot_current)

lemma current_ppid_eq: "current_proc k t p \<Longrightarrow> current_ppid k = Inr (parent p)"
  by (simp add: current_ppid_def with_slot_current)

lemma current_proc_update:
  assumes "current_proc k t p" "proc_ok (f p)" "pid (f p) = pid p"
  shows "current_proc (update_slot (CURRENT_SLOT k) f k) (t[CURRENT_SLOT k := Some (f p)]) (f p)"
proof -
  note c = current_procD[OF assms(1)]
  show ?thesis
    using c table_ok_update_same_pid[OF c(2,5) assms(2,3)]
    by (simp add: current_proc_def update_slot_def get_slot_update)
qed

lemma mark_exited_current:
  assumes "current_proc k t p"
  shows "current_proc (mark_exited st k) (t[CURRENT_SLOT k := Some (p\<lparr>exit_code := Some st\<rparr>)])
    (p\<lparr>exit_code := Some st\<rparr>)"
proof -
  have "proc_ok p" using assms by (rule current_procD)
  then show ?thesis unfolding mark_exited_def
    by (intro current_proc_update[OF assms]) (simp_all add: proc_ok_def)
qed

text \<open>The table that \<open>process::init\<close> sets up satisfies the invariant.\<close>

lemma process_init_current:
  "\<exists>t p. current_proc (process_init a b k) t p \<and> pid p = 1 \<and> exit_code p = None"
proof -
  let ?p = "Process_new 1 None (bootstrap_user (USER_ENTRY_RIP k) USER_STACK_TOP 0x202) b"
  let ?t = "(replicate 32 None)[0 := Some ?p]"
  have "proc_ok ?p" by (simp add: proc_ok_def Process_new_def rock_consts)
  then have "table_ok ?t" unfolding table_ok_def get_slot_update
    by (auto simp: get_slot_def split: if_splits)
  then have "current_proc (process_init a b k) ?t ?p"
    by (simp add: current_proc_def process_init_def Let_def get_slot_update)
  moreover have "pid ?p = 1" "exit_code ?p = None" by (simp_all add: Process_new_def)
  ultimately show ?thesis by blast
qed

section \<open>Allocation of slots and ids\<close>

lemma first_none_Some: "first_none xs = Some i \<Longrightarrow> i < length xs \<and> xs ! i = None \<and> (\<forall>j < i. xs ! j \<noteq> None)"
proof (induction xs arbitrary: i rule: first_none.induct)
  case (3 x xs)
  then obtain j where "i = Suc j" "first_none xs = Some j" by auto
  then show ?case using 3(1)[of j] by (auto simp: less_Suc_eq_0_disj)
qed auto

lemma first_none_None: "first_none xs = None \<longleftrightarrow> None \<notin> set xs"
  by (induction xs rule: first_none.induct) auto

lemma alloc_slot_full: "length t = 32 \<Longrightarrow> alloc_slot t = (first_none t, t)"
  by (simp add: alloc_slot_def split: option.splits)

lemma find_first_word:
  assumes "find P (map of_nat [lo..<hi] :: u64 list) = Some c" "hi \<le> 2 ^ 64"
  shows "P c \<and> lo \<le> unat c \<and> unat c < hi \<and> (\<forall>d. lo \<le> unat d \<longrightarrow> unat d < unat c \<longrightarrow> \<not> P d)"
proof -
  from assms(1) obtain i where i: "i < hi - lo" "P c" "c = of_nat (lo + i)"
    "\<forall>j < i. \<not> P (of_nat (lo + j))"
    by (auto simp: find_Some_iff simp del: of_nat_add)
  have uc: "unat c = lo + i" unfolding i(3) using i(1) assms(2) by (intro unat_of_nat_u64) simp
  moreover have "\<not> P d" if "lo \<le> unat d" "unat d < unat c" for d
  proof -
    have "unat d - lo < i" using that uc by simp
    then have "\<not> P (of_nat (lo + (unat d - lo)))" using i(4) by blast
    then show ?thesis using that(1) by simp
  qed
  ultimately show ?thesis using i by simp
qed

lemma find_fresh_word:
  assumes "length xs < hi - lo" "hi \<le> 2 ^ 64"
  shows "\<exists>c. find (\<lambda>cand. list_all (\<lambda>p. f p \<noteq> cand) xs) (map of_nat [lo..<hi] :: u64 list) = Some c"
proof (rule ccontr)
  assume "\<not> ?thesis"
  then have h: "\<forall>n \<in> {lo..<hi}. \<exists>p \<in> set xs. f p = of_nat n"
    by (auto simp: find_None_iff list_all_iff)
  have "{lo..<hi} \<subseteq> (unat \<circ> f) ` set xs"
  proof
    fix n assume n: "n \<in> {lo..<hi}"
    then obtain p where "p \<in> set xs" "f p = of_nat n" using h by blast
    moreover have "unat (of_nat n :: u64) = n" using n assms(2) by (intro unat_of_nat_u64) simp
    ultimately show "n \<in> (unat \<circ> f) ` set xs" by force
  qed
  then have "card {lo..<hi} \<le> card ((unat \<circ> f) ` set xs)" by (intro card_mono) simp_all
  also have "\<dots> \<le> length xs"
    by (metis card_image_le card_length finite_set order_trans)
  finally show False using assms(1) by simp
qed

lemma alloc_pid_spec:
  assumes "TABLE k = Some t" "length t \<le> 32"
  shows "\<exists>c. alloc_pid k = Some c \<and> 2 \<le> unat c \<and> unat c < 1024
    \<and> (\<forall>i p. get_slot t i = Some p \<longrightarrow> pid p \<noteq> c)
    \<and> (\<forall>d. 2 \<le> unat d \<longrightarrow> unat d < unat c \<longrightarrow> (\<exists>i p. get_slot t i = Some p \<and> pid p = d))"
proof -
  define hi :: nat where "hi = 1024"
  have "length (live t) < hi - 2" "hi \<le> 2 ^ 64"
    using length_live[of t] assms(2) by (simp_all add: hi_def)
  from find_fresh_word[OF this] obtain c where
    c: "find (\<lambda>cand. list_all (\<lambda>p. pid p \<noteq> cand) (live t)) (map of_nat [2..<hi]) = Some c" by blast
  have l: "list_all (\<lambda>p. pid p \<noteq> d) (live t) \<longleftrightarrow> (\<forall>i p. get_slot t i = Some p \<longrightarrow> pid p \<noteq> d)" for d
    using in_live_iff[of _ t] by (auto simp: list_all_iff)
  have "alloc_pid k = Some c"
    unfolding alloc_pid_def assms(1) option.case hi_def[symmetric] by (rule c)
  then show ?thesis using find_first_word[OF c \<open>hi \<le> 2 ^ 64\<close>] unfolding l
    by (auto simp: hi_def)
qed

text \<open>
  A process id for a new process always exists: \<open>alloc_pid\<close> returns the smallest number of
  2..1024 that no process of the table has, so \<open>fork\<close> never fails for lack of an id and two
  processes never share one.
\<close>

theorem alloc_pid_smallest_fresh:
  assumes "TABLE k = Some t" "table_ok t"
  shows "\<exists>c. alloc_pid k = Some c \<and> 2 \<le> unat c \<and> unat c < 1024
    \<and> (\<forall>i p. get_slot t i = Some p \<longrightarrow> pid p \<noteq> c)
    \<and> (\<forall>d. 2 \<le> unat d \<longrightarrow> unat d < unat c \<longrightarrow> (\<exists>i p. get_slot t i = Some p \<and> pid p = d))"
  using alloc_pid_spec[OF assms(1)] table_okD(1)[OF assms(2)] by simp

text \<open>A small table for the examples: process 1 with the children 2 and 3, child 3 a zombie.\<close>

definition demo_child :: "u64 \<Rightarrow> u32 option \<Rightarrow> process" where
  "demo_child c st = (Process_new c (Some 1) (bootstrap_user 0 0 0) 0)\<lparr>exit_code := st\<rparr>"

definition demo_init :: process where
  "demo_init = Process_new 1 None (bootstrap_user 0 0 0) 0"

definition demo_table :: "u32 option \<Rightarrow> procs" where
  "demo_table st = (replicate 32 None)[0 := Some demo_init, 1 := Some (demo_child 2 st),
     2 := Some (demo_child 3 (Some 7))]"

definition demo_kernel :: "u32 option \<Rightarrow> (u64 \<Rightarrow> u64 option) kernel" where
  "demo_kernel st = (kernel_static (\<lambda>_. None) (\<lambda>_. 0) demo_machine)\<lparr>TABLE := Some (demo_table st)\<rparr>"

lemma demo_table_slots:
  "get_slot (demo_table st) i =
     (if i = 0 then Some demo_init else if i = 1 then Some (demo_child 2 st)
      else if i = 2 then Some (demo_child 3 (Some 7)) else None)"
  unfolding demo_table_def get_slot_update by (auto simp: get_slot_def)

lemma demo_table_ok: "table_ok (demo_table st)"
proof -
  have "proc_ok demo_init" "proc_ok (demo_child 2 st)" "proc_ok (demo_child 3 (Some 7))"
    by (simp_all add: proc_ok_def demo_init_def demo_child_def Process_new_def rock_consts)
  moreover have "length (demo_table st) = 32" by (simp add: demo_table_def)
  moreover have "pid demo_init = 1" "pid (demo_child c st') = c" for c st'
    by (simp_all add: demo_init_def demo_child_def Process_new_def)
  ultimately show ?thesis unfolding table_ok_def demo_table_slots by (auto split: if_splits)
qed

lemma demo_current: "current_proc (demo_kernel st) (demo_table st) demo_init"
  using demo_table_ok by (simp add: current_proc_def demo_kernel_def kernel_static_def demo_table_slots)

theorem alloc_pid_smallest_fresh_witness:
  "\<exists>c. alloc_pid (demo_kernel None) = Some c \<and> unat c < 1024 \<and> c \<noteq> 2 \<and> c \<noteq> 3"
proof -
  have "TABLE (demo_kernel None) = Some (demo_table None)" by (simp add: demo_kernel_def)
  from alloc_pid_smallest_fresh[OF this demo_table_ok] obtain c where
    c: "alloc_pid (demo_kernel None) = Some c" "unat c < 1024"
      "\<forall>i p. get_slot (demo_table None) i = Some p \<longrightarrow> pid p \<noteq> c" by blast
  have "get_slot (demo_table None) 1 = Some (demo_child 2 None)"
    "get_slot (demo_table None) 2 = Some (demo_child 3 (Some 7))" by (simp_all add: demo_table_slots)
  then have "pid (demo_child 2 None) \<noteq> c" "pid (demo_child 3 (Some 7)) \<noteq> c" using c(3) by blast+
  then show ?thesis using c by (auto simp: demo_child_def Process_new_def)
qed

section \<open>Reaping\<close>

text \<open>The children of a process that a wait for \<open>target\<close> accepts.\<close>

definition wait_matches :: "u64 \<Rightarrow> process \<Rightarrow> bool" where
  "wait_matches target p \<longleftrightarrow> sint target < 0 \<or> pid p = target"

definition reapable :: "u64 \<Rightarrow> u64 \<Rightarrow> process \<Rightarrow> bool" where
  "reapable me target p \<longleftrightarrow> parent p = Some me \<and> exit_code p \<noteq> None \<and> wait_matches target p"

text \<open>The processes the loop passes over: strangers, and zombies of another id than the target.\<close>

definition wait_skips :: "u64 \<Rightarrow> u64 \<Rightarrow> process option \<Rightarrow> bool" where
  "wait_skips me target s \<longleftrightarrow>
     (case s of None \<Rightarrow> True
      | Some p \<Rightarrow> parent p = Some me \<longrightarrow> exit_code p \<noteq> None \<and> \<not> wait_matches target p)"

lemma scan_Cons:
  "(\<exists>j. i = n + j \<and> j < length (x # t) \<and> Q ((x # t) ! j) \<and> (\<forall>l < j. S ((x # t) ! l))) \<longleftrightarrow>
   i = n \<and> Q x \<or> S x \<and> (\<exists>j. i = Suc n + j \<and> j < length t \<and> Q (t ! j) \<and> (\<forall>l < j. S (t ! l)))"
  (is "?L \<longleftrightarrow> ?R")
proof
  assume ?L
  then obtain j where j: "i = n + j" "j < length (x # t)" "Q ((x # t) ! j)" "\<forall>l < j. S ((x # t) ! l)"
    by blast
  then show ?R by (cases j) (auto simp: All_less_Suc2)
next
  assume ?R
  then show ?L
  proof (elim disjE conjE exE)
    assume "i = n" "Q x"
    then show ?L by (intro exI[of _ 0]) simp
  next
    fix j assume "S x" "i = Suc n + j" "j < length t" "Q (t ! j)" "\<forall>l < j. S (t ! l)"
    then show ?L by (intro exI[of _ "Suc j"]) (simp add: All_less_Suc2)
  qed
qed

definition reaps :: "u64 \<Rightarrow> u64 \<Rightarrow> u64 \<Rightarrow> u32 \<Rightarrow> process option \<Rightarrow> bool" where
  "reaps me target c st s \<longleftrightarrow>
     (case s of None \<Rightarrow> False
      | Some p \<Rightarrow> parent p = Some me \<and> exit_code p = Some st \<and> pid p = c \<and> wait_matches target p)"

lemma wait_scan_Some_iff:
  "wait_scan me target n t = Some (i, c, st) \<longleftrightarrow>
     (\<exists>j. i = n + j \<and> j < length t \<and> reaps me target c st (t ! j)
        \<and> (\<forall>l < j. wait_skips me target (t ! l)))"
proof (induction t arbitrary: n)
  case (Cons s t)
  show ?case unfolding scan_Cons Cons.IH[symmetric]
    by (cases s) (auto simp: reaps_def wait_skips_def wait_matches_def split: option.splits)
qed simp

lemma wait_scan_None_iff:
  "wait_scan me target n t = None \<longleftrightarrow>
     (\<forall>s \<in> set t. wait_skips me target s)
     \<or> (\<exists>j < length t. (\<exists>p. t ! j = Some p \<and> parent p = Some me \<and> exit_code p = None)
          \<and> (\<forall>l < j. wait_skips me target (t ! l)))"
proof (induction t arbitrary: n)
  case (Cons s t)
  show ?case using Cons.IH[of "Suc n"]
    by (cases s) (auto simp: Ex_less_Suc2 All_less_Suc2 wait_skips_def wait_matches_def
        split: option.splits if_splits)
qed simp

text \<open>
  (C19) \<open>wait_reap\<close> returns exactly the first zombie child (in slot order) that matches the target,
  with its exit status, provided every child in a lower slot is a zombie of another id; it then frees
  that slot, and nothing else of the kernel changes.
\<close>

theorem wait_reap_reaps_first:
  assumes "current_proc k t p" "j < length t" "t ! j = Some c" "parent c = Some (pid p)"
    "exit_code c = Some st" "wait_matches target c"
    "\<forall>l < j. wait_skips (pid p) target (t ! l)"
  shows "wait_reap target k = Inr (Some (pid c, st), k\<lparr>TABLE := Some (t[j := None])\<rparr>)"
proof -
  have "wait_scan (pid p) target 0 t = Some (j, pid c, st)"
    unfolding wait_scan_Some_iff using assms(2-) by (simp add: reaps_def)
  then show ?thesis using current_procD[OF assms(1)]
    by (simp add: wait_reap_def current_pid_eq[OF assms(1)])
qed

theorem wait_reap_reaps_first_witness:
  "wait_reap 3 (demo_kernel (Some 0)) =
     Inr (Some (3, 7), demo_kernel (Some 0)\<lparr>TABLE := Some ((demo_table (Some 0))[2 := None])\<rparr>)"
proof -
  have t: "length (demo_table (Some 0)) = 32" "demo_table (Some 0) ! 2 = Some (demo_child 3 (Some 7))"
    "demo_table (Some 0) ! 0 = Some demo_init" "demo_table (Some 0) ! 1 = Some (demo_child 2 (Some 0))"
    by (simp_all add: demo_table_def)
  have "\<forall>l < 2. wait_skips (pid demo_init) 3 (demo_table (Some 0) ! l)"
    using t by (simp add: numeral_2_eq_2 All_less_Suc2 wait_skips_def wait_matches_def demo_init_def
        demo_child_def Process_new_def)
  from wait_reap_reaps_first[OF demo_current _ t(2) _ _ _ this, of 7] t(1) show ?thesis
    by (simp add: wait_matches_def demo_child_def demo_init_def Process_new_def)
qed

text \<open>
  (C37) A running child hides the zombies behind it: if the child in the lowest slot has not exited,
  \<open>wait_reap\<close> finds nothing, for every target, also for the id of a child that has exited.
\<close>

theorem wait_reap_hidden_by_running_child:
  assumes "current_proc k t p" "j < length t" "t ! j = Some c" "parent c = Some (pid p)"
    "exit_code c = None"
    "\<forall>l < j. \<forall>q. t ! l = Some q \<longrightarrow> parent q \<noteq> Some (pid p)"
  shows "wait_reap target k = Inr (None, k)"
proof -
  have "\<forall>l < j. wait_skips (pid p) target (t ! l)"
    using assms(6) by (auto simp: wait_skips_def split: option.splits)
  then have "wait_scan (pid p) target 0 t = None"
    unfolding wait_scan_None_iff using assms(2-5) by blast
  then show ?thesis using current_procD[OF assms(1)]
    by (simp add: wait_reap_def current_pid_eq[OF assms(1)])
qed

theorem wait_reap_hidden_by_running_child_witness:
  "wait_reap 3 (demo_kernel None) = Inr (None, demo_kernel None)
   \<and> demo_table None ! 2 = Some (demo_child 3 (Some 7))"
proof -
  have t: "length (demo_table None) = 32" "demo_table None ! 1 = Some (demo_child 2 None)"
    "demo_table None ! 0 = Some demo_init" "demo_table None ! 2 = Some (demo_child 3 (Some 7))"
    by (simp_all add: demo_table_def)
  have "\<forall>l < 1. \<forall>q. demo_table None ! l = Some q \<longrightarrow> parent q \<noteq> Some (pid demo_init)"
    using t(3) by (simp add: demo_init_def Process_new_def)
  from wait_reap_hidden_by_running_child[OF demo_current _ t(2) _ _ this] t show ?thesis
    by (simp add: demo_child_def demo_init_def Process_new_def)
qed

text \<open>Reaping keeps the table invariant and never removes the caller.\<close>

lemma wait_reap_current:
  assumes "current_proc k t p" "wait_reap target k = Inr (r, k')"
  shows "\<exists>t'. current_proc k' t' p \<and> CURRENT_SLOT k' = CURRENT_SLOT k
    \<and> (\<forall>i q. get_slot t' i = Some q \<longrightarrow> get_slot t i = Some q)"
proof -
  note c = current_procD[OF assms(1)]
  consider "k' = k" | i cp st where "wait_scan (pid p) target 0 t = Some (i, cp, st)"
      "k' = k\<lparr>TABLE := Some (t[i := None])\<rparr>"
    using assms(2) c(1) by (auto simp: wait_reap_def current_pid_eq[OF assms(1)] split: option.splits prod.splits)
  then show ?thesis
  proof cases
    case 1
    then show ?thesis using assms(1) by blast
  next
    case 2
    have "reaps (pid p) target cp st (t ! i)" using 2(1) unfolding wait_scan_Some_iff by auto
    then obtain q where q: "t ! i = Some q" "parent q = Some (pid p)"
      by (auto simp: reaps_def split: option.splits)
    have ne: "i \<noteq> CURRENT_SLOT k" using q c(4,6) by (auto simp: proc_ok_def)
    have "table_ok (t[i := None])" using c(2) by (intro table_ok_update) simp_all
    then have "current_proc k' (t[i := None]) p"
      using 2(2) c(5) ne by (simp add: current_proc_def get_slot_update)
    then show ?thesis using 2(2) by (auto simp: get_slot_update split: if_splits intro!: exI[of _ "t[i := None]"])
  qed
qed

end
