(* ===== verification/Rock_User.thy ===== *)
theory Rock_User
  imports Rock_Process
begin

text \<open>
  User memory (\<open>src/user.rs\<close>): the checks every handler makes on a user buffer, the mapping of the
  user stack and of the built-in program, and the entry to user mode.
\<close>

section \<open>The checks of user buffers\<close>

definition user_region_is_readable_range :: "'pt kernel \<Rightarrow> u64 \<Rightarrow> nat \<Rightarrow> bool outcome" where
  "user_region_is_readable_range k addr len =
     (case checked_add addr (of_nat len) of None \<Rightarrow> Inr False
      | Some end' \<Rightarrow>
          let img_hi = USER_IMAGE_END k;
              in_image = addr \<ge> USER_TEXT_BASE \<and> end' \<le> img_hi;
              stack_lo = USER_STACK_TOP - 0x1000;
              in_stack = addr \<ge> stack_lo \<and> end' \<le> USER_STACK_TOP
          in if in_image \<or> in_stack then Inr True
             else obind (covers_brk_heap k addr end') (\<lambda>b.
               if b then Inr True else covers_mmap_read k addr end'))"

definition user_region_is_writable_range :: "'pt kernel \<Rightarrow> u64 \<Rightarrow> nat \<Rightarrow> bool outcome" where
  "user_region_is_writable_range k addr len =
     (case checked_add addr (of_nat len) of None \<Rightarrow> Inr False
      | Some end' \<Rightarrow>
          let stack_lo = USER_STACK_TOP - 0x1000;
              in_stack = addr \<ge> stack_lo \<and> end' \<le> USER_STACK_TOP
          in if in_stack then Inr True
             else obind (covers_brk_heap k addr end') (\<lambda>b.
               if b then Inr True
               else obind (covers_mmap_write k addr end') (\<lambda>b.
                 if b then Inr True
                 else Inr (addr \<ge> USER_RW_IMAGE_START k \<and> end' \<le> USER_IMAGE_END k))))"

definition set_user_image_end :: "u64 \<Rightarrow> 'pt kernel \<Rightarrow> 'pt kernel" where
  "set_user_image_end e k = k\<lparr>USER_IMAGE_END := e\<rparr>"

definition set_user_rw_image_start :: "u64 \<Rightarrow> 'pt kernel \<Rightarrow> 'pt kernel" where
  "set_user_rw_image_start lo k = k\<lparr>USER_RW_IMAGE_START := lo\<rparr>"

definition set_user_entry :: "u64 \<Rightarrow> 'pt kernel \<Rightarrow> 'pt kernel" where
  "set_user_entry rip k = k\<lparr>USER_ENTRY_RIP := rip\<rparr>"

section \<open>Mapping the stack and the built-in program\<close>

definition user_data_flags :: page_flags where
  "user_data_flags = \<lparr>PRESENT = True, WRITABLE = True, USER_ACCESSIBLE = True, NO_EXECUTE = True\<rparr>"

definition USER_BLOB :: "u8 list" where
  "USER_BLOB = [0x31, 0xc0, 0xff, 0xc0, 0x48, 0x8d, 0x35, 0x0f, 0x00, 0x00, 0x00, 0x48, 0x31, 0xd2,
     0x48, 0x83, 0xc2, 0x0c, 0x48, 0x31, 0xff, 0x0f, 0x05, 0xf4, 0xeb, 0xfe,
     0x75, 0x73, 0x65, 0x72, 0x6c, 0x61, 0x6e, 0x64, 0x21, 0x0A, 0, 0]"

text \<open>A write of consecutive bytes of physical memory through the offset window.\<close>

definition write_phys :: "u64 \<Rightarrow> u8 list \<Rightarrow> 'pt kernel \<Rightarrow> 'pt kernel" where
  "write_phys p bs k = k\<lparr>ram := (\<lambda>q. if unat (q - p) < length bs then bs ! unat (q - p) else ram k q)\<rparr>"

definition copy_blob_to_frame :: "'pt x86 \<Rightarrow> u64 \<Rightarrow> 'pt kernel \<Rightarrow> 'pt kernel outcome" where
  "copy_blob_to_frame X frame k =
     obind (window_addr X k frame) (\<lambda>p.
       if length USER_BLOB \<le> PAGE_SIZE then Inr (write_phys p USER_BLOB k) else Inl AssertFailed)"

text \<open>
  The two mapping functions share the shape: take a frame, fill it, map it, and panic when
  anything is missing. \<open>fill\<close> is the work between the allocation and the mapping.
\<close>

definition map_fresh_page ::
  "'pt x86 \<Rightarrow> u64 \<Rightarrow> page_flags \<Rightarrow> (u64 \<Rightarrow> 'pt kernel \<Rightarrow> 'pt kernel outcome) \<Rightarrow> 'pt kernel
     \<Rightarrow> 'pt kernel outcome" where
  "map_fresh_page X va flags fill k =
     (case lock_allocator (mem k) of None \<Rightarrow> Inl UnwrapNone
      | Some fa \<Rightarrow>
          (case allocate_frame_inner fa of (None, fa') \<Rightarrow> Inl UnwrapNone
           | (Some frame, fa') \<Rightarrow>
               obind (fill frame k) (\<lambda>k.
                 if \<not> virt_new X va then Inl BadVirtAddr
                 else case map_to X (page_table k) (page_of X va) frame flags fa' of
                     (Some e, pt', fa'') \<Rightarrow> Inl ExpectErr
                   | (None, pt', fa'') \<Rightarrow>
                       Inr (k\<lparr>page_table := pt', mem := unlock_allocator fa'' (mem k)\<rparr>))))"

definition map_user_stack :: "'pt x86 \<Rightarrow> 'pt kernel \<Rightarrow> 'pt kernel outcome" where
  "map_user_stack X = map_fresh_page X (USER_STACK_TOP - 1) user_data_flags (\<lambda>_. Inr)"

definition map_user_blob :: "'pt x86 \<Rightarrow> 'pt kernel \<Rightarrow> 'pt kernel outcome" where
  "map_user_blob X = map_fresh_page X USER_TEXT_BASE
     \<lparr>PRESENT = True, WRITABLE = False, USER_ACCESSIBLE = True, NO_EXECUTE = False\<rparr>
     (copy_blob_to_frame X)"

definition map_and_load :: "'pt x86 \<Rightarrow> 'pt kernel \<Rightarrow> 'pt kernel outcome" where
  "map_and_load X k =
     (let k = set_user_image_end (USER_TEXT_BASE + 0x1000) k;
          k = set_user_rw_image_start (USER_TEXT_BASE + 0x1000) k;
          k = set_user_entry USER_TEXT_BASE k
      in obind (map_user_stack X k) (map_user_blob X))"

text \<open>
  \<open>enter_via_iret_with_rflags\<close>: the words that \<open>iretq\<close> pops, from the top: instruction
  pointer, code segment, flags, stack pointer, stack segment. The selectors are those of the GDT.
\<close>

definition enter_via_iret_with_rflags :: "u64 \<Rightarrow> u64 \<Rightarrow> u64 \<Rightarrow> 'pt kernel \<Rightarrow> u64 list" where
  "enter_via_iret_with_rflags cs ss flags k =
     [USER_ENTRY_RIP k, cs, flags, USER_STACK_TOP, ss]"

section \<open>What the checks accept\<close>

definition fits :: "u64 \<Rightarrow> nat \<Rightarrow> nat \<Rightarrow> nat \<Rightarrow> bool" where
  "fits addr len lo hi \<longleftrightarrow> lo \<le> unat addr \<and> unat addr + len \<le> hi"

definition fits_area :: "u64 \<Rightarrow> nat \<Rightarrow> vm_area \<Rightarrow> bool" where
  "fits_area addr len a \<longleftrightarrow>
     fits addr len (unat (virt_start a)) (unat (virt_start a) + va_pages a * PAGE_SIZE)"

lemma area_okD:
  assumes "area_ok a"
  shows "unat (virt_start a) + va_pages a * PAGE_SIZE \<le> 0x480000" "0x410000 \<le> unat (virt_start a)"
    "page_aligned (virt_start a)" "0 < va_pages a"
  using assms by (simp_all add: area_ok_def USER_MMAP_LIMIT_def USER_MMAP_BASE_def word_le_nat_alt)

lemma area_end_ok:
  assumes "area_ok a"
  shows "area_end a = Inr (virt_start a + of_nat (va_pages a * PAGE_SIZE))"
    and "unat (virt_start a + of_nat (va_pages a * PAGE_SIZE)) = unat (virt_start a) + va_pages a * PAGE_SIZE"
proof -
  note a = area_okD[OF assms]
  show "area_end a = Inr (virt_start a + of_nat (va_pages a * PAGE_SIZE))"
    using a(1) by (simp add: area_end_def)
  have n: "unat (of_nat (va_pages a * PAGE_SIZE) :: u64) = va_pages a * PAGE_SIZE"
    using a(1) by (intro unat_of_nat_u64) simp
  then show "unat (virt_start a + of_nat (va_pages a * PAGE_SIZE)) = unat (virt_start a) + va_pages a * PAGE_SIZE"
    using a(1) by (subst unat_add_ok) (simp_all add: add_ok_def del: of_nat_mult)
qed

lemma covers_area_eq:
  assumes "list_all area_ok as" "unat end' = unat addr + len"
  shows "covers_area write addr end' as =
    Inr (\<exists>a \<in> set as. (write \<longrightarrow> va_writable a) \<and> fits_area addr len a)"
  using assms(1)
proof (induction as)
  case (Cons a as)
  then have a: "area_ok a" and as: "list_all area_ok as" by auto
  have "addr \<ge> virt_start a \<and> end' \<le> virt_start a + of_nat (va_pages a * PAGE_SIZE) \<longleftrightarrow> fits_area addr len a"
    unfolding word_le_nat_alt area_end_ok(2)[OF a] assms(2) fits_area_def fits_def ..
  then show ?case using Cons.IH[OF as] area_end_ok(1)[OF a] by auto
qed simp

lemma covers_brk_heap_eq:
  assumes "current_proc k t p" "unat end' = unat addr + len"
  shows "covers_brk_heap k addr end' = Inr (fits addr len (unat USER_BRK_BASE) (unat (brk_end p)))"
proof -
  have "unat (brk_end p) \<le> unat USER_BRK_LIMIT"
    using current_procD(6)[OF assms(1)] by (simp add: proc_ok_def word_le_nat_alt)
  then show ?thesis using assms(2)
    by (auto simp: covers_brk_heap_def with_slot_current[OF assms(1)] word_le_nat_alt fits_def)
qed

lemma covers_mmap_eq:
  assumes "current_proc k t p" "unat end' = unat addr + len"
  shows "covers_mmap write k addr end' =
    Inr (\<exists>a \<in> set (vm_areas p). (write \<longrightarrow> va_writable a) \<and> fits_area addr len a)"
proof -
  have "list_all area_ok (vm_areas p)" using current_procD(6)[OF assms(1)] by (simp add: proc_ok_def)
  from covers_area_eq[OF this assms(2)] show ?thesis
    by (simp add: covers_mmap_def with_slot_current[OF assms(1)])
qed

lemma stack_lo: "USER_STACK_TOP - 0x1000 = 0x401000" "unat USER_STACK_TOP = 0x402000"
  by (simp_all add: USER_STACK_TOP_def)

lemma range_end:
  assumes "unat addr + len < 2 ^ 64" "len < 2 ^ 64"
  shows "checked_add addr (of_nat len) = Some (addr + of_nat len)" "unat (addr + of_nat len) = unat addr + len"
proof -
  have l: "unat (of_nat len :: u64) = len" using assms(2) by (rule unat_of_nat_u64)
  then have ok: "add_ok addr (of_nat len)" using assms(1) by (simp add: add_ok_def)
  then show "checked_add addr (of_nat len) = Some (addr + of_nat len)" by (simp add: checked_add_def)
  show "unat (addr + of_nat len) = unat addr + len" using unat_add_ok[OF ok] l by simp
qed

lemma range_end_wraps:
  assumes "\<not> unat addr + len < 2 ^ 64" "len < 2 ^ 64"
  shows "checked_add addr (of_nat len) = None"
  using assms unat_of_nat_u64[OF assms(2)] by (simp add: checked_add_def add_ok_def)

text \<open>
  (C20) The check of a buffer the kernel reads never panics, and it accepts exactly the buffers that
  lie, without wrapping around the address space, inside one of the program image, the stack page,
  the heap of the current process, or one of its mapped areas.
\<close>

theorem readable_range_exact:
  assumes "current_proc k t p" "len < 2 ^ 64"
  shows "user_region_is_readable_range k addr len =
    Inr (unat addr + len < 2 ^ 64 \<and>
      (fits addr len 0x400000 (unat (USER_IMAGE_END k)) \<or> fits addr len 0x401000 0x402000
       \<or> fits addr len 0x404000 (unat (brk_end p)) \<or> (\<exists>a \<in> set (vm_areas p). fits_area addr len a)))"
proof (cases "unat addr + len < 2 ^ 64")
  case True
  note e = range_end[OF True assms(2)]
  note w = covers_brk_heap_eq[OF assms(1) e(2)] covers_mmap_eq[OF assms(1) e(2)]
  have f: "addr \<ge> USER_TEXT_BASE \<and> addr + of_nat len \<le> USER_IMAGE_END k \<longleftrightarrow>
      fits addr len 0x400000 (unat (USER_IMAGE_END k))"
    "addr \<ge> 0x401000 \<and> addr + of_nat len \<le> USER_STACK_TOP \<longleftrightarrow> fits addr len 0x401000 0x402000"
    "unat USER_BRK_BASE = 0x404000"
    using e(2) by (simp_all add: word_le_nat_alt fits_def USER_TEXT_BASE_def USER_STACK_TOP_def USER_BRK_BASE_def)
  show ?thesis using True
    by (simp add: user_region_is_readable_range_def e(1) Let_def stack_lo f w covers_mmap_read_def)
next
  case False
  then show ?thesis using range_end_wraps[OF False assms(2)] by (simp add: user_region_is_readable_range_def)
qed

lemma demo_fields:
  "USER_IMAGE_END (demo_kernel st) = 0x401000" "USER_RW_IMAGE_START (demo_kernel st) = 0x401000"
  "brk_end demo_init = 0x404000" "vm_areas demo_init = []"
  by (simp_all add: demo_kernel_def kernel_static_def rock_consts demo_init_def Process_new_def)

theorem readable_range_exact_witness:
  "user_region_is_readable_range (demo_kernel None) 0x400ff0 16 = Inr True
   \<and> user_region_is_readable_range (demo_kernel None) 0x402000 1 = Inr False"
  using readable_range_exact[OF demo_current[of None], where len = 16 and addr = "0x400ff0"]
    readable_range_exact[OF demo_current[of None], where len = "Suc 0" and addr = "0x402000"]
  by (simp add: fits_def demo_fields)

text \<open>
  (C21) The check of a buffer the kernel writes never panics, and it accepts exactly the buffers inside
  the stack page, the heap, a writable mapped area, or the image from \<open>USER_RW_IMAGE_START\<close> on.
\<close>

theorem writable_range_exact:
  assumes "current_proc k t p" "len < 2 ^ 64"
  shows "user_region_is_writable_range k addr len =
    Inr (unat addr + len < 2 ^ 64 \<and>
      (fits addr len 0x401000 0x402000 \<or> fits addr len 0x404000 (unat (brk_end p))
       \<or> (\<exists>a \<in> set (vm_areas p). va_writable a \<and> fits_area addr len a)
       \<or> fits addr len (unat (USER_RW_IMAGE_START k)) (unat (USER_IMAGE_END k))))"
proof (cases "unat addr + len < 2 ^ 64")
  case True
  note e = range_end[OF True assms(2)]
  note w = covers_brk_heap_eq[OF assms(1) e(2)] covers_mmap_eq[OF assms(1) e(2)]
  have f: "addr \<ge> USER_RW_IMAGE_START k \<and> addr + of_nat len \<le> USER_IMAGE_END k \<longleftrightarrow>
      fits addr len (unat (USER_RW_IMAGE_START k)) (unat (USER_IMAGE_END k))"
    "addr \<ge> 0x401000 \<and> addr + of_nat len \<le> USER_STACK_TOP \<longleftrightarrow> fits addr len 0x401000 0x402000"
    "unat USER_BRK_BASE = 0x404000"
    using e(2) by (simp_all add: word_le_nat_alt fits_def USER_STACK_TOP_def USER_BRK_BASE_def)
  show ?thesis using True
    by (auto simp: user_region_is_writable_range_def e(1) Let_def stack_lo f w covers_mmap_write_def)
next
  case False
  then show ?thesis using range_end_wraps[OF False assms(2)] by (simp add: user_region_is_writable_range_def)
qed

theorem writable_range_exact_witness:
  "user_region_is_writable_range (demo_kernel None) 0x401000 4096 = Inr True
   \<and> user_region_is_writable_range (demo_kernel None) 0x400000 1 = Inr False"
  using writable_range_exact[OF demo_current[of None], where len = 4096 and addr = "0x401000"]
    writable_range_exact[OF demo_current[of None], where len = "Suc 0" and addr = "0x400000"]
  by (simp add: fits_def demo_fields)

end
