(* ===== verification/Rock_Vm.thy ===== *)
theory Rock_Vm
  imports Rock_User
begin

text \<open>
  The memory calls of a process (\<open>src/process.rs\<close>): \<open>brk\<close>, \<open>mmap\<close> and \<open>munmap\<close>, with the
  loops that edit the page table. The two locks they hold, the mapper and the frame allocator, are
  the pair of page table and allocator that \<open>with_mapper\<close> passes to the loop.
\<close>

section \<open>Editing the page table\<close>

definition with_mapper ::
  "('pt \<times> falloc \<Rightarrow> (bool \<times> 'pt \<times> falloc) outcome) \<Rightarrow> 'pt kernel \<Rightarrow> (bool \<times> 'pt kernel) outcome" where
  "with_mapper f k =
     (case lock_allocator (mem k) of None \<Rightarrow> Inr (False, k)
      | Some fa \<Rightarrow> obind (f (page_table k, fa)) (\<lambda>(okk, pt, fa').
          Inr (okk, k\<lparr>page_table := pt, mem := unlock_allocator fa' (mem k)\<rparr>)))"

text \<open>One round of the mapping loops: take a frame and map the page to it.\<close>

definition map_one :: "'pt x86 \<Rightarrow> page_flags \<Rightarrow> u64 \<Rightarrow> 'pt \<times> falloc \<Rightarrow> bool \<times> 'pt \<times> falloc" where
  "map_one X flags page s =
     (case s of (pt, fa) \<Rightarrow>
        (case allocate_frame_inner fa of (None, fa') \<Rightarrow> (False, pt, fa')
         | (Some frame, fa') \<Rightarrow>
             (case map_to X pt page frame flags fa' of (e, pt', fa'') \<Rightarrow> (e = None, pt', fa''))))"

text \<open>The loop of \<open>map_brk_grow\<close> skips the pages that are mapped already.\<close>

fun grow_pages :: "'pt x86 \<Rightarrow> page_flags \<Rightarrow> u64 list \<Rightarrow> 'pt \<times> falloc \<Rightarrow> bool \<times> 'pt \<times> falloc" where
  "grow_pages X flags [] s = (True, s)"
| "grow_pages X flags (page # pages) s =
     (if translate X (fst s) page \<noteq> None then grow_pages X flags pages s
      else case map_one X flags page s of (okk, s') \<Rightarrow>
        if okk then grow_pages X flags pages s' else (False, s'))"

text \<open>The loop of \<open>map_brk_shrink\<close> asks for a translation first.\<close>

fun shrink_pages :: "'pt x86 \<Rightarrow> u64 list \<Rightarrow> 'pt \<times> falloc \<Rightarrow> 'pt \<times> falloc" where
  "shrink_pages X [] s = s"
| "shrink_pages X (page # pages) s =
     (if translate X (fst s) page = None then shrink_pages X pages s
      else shrink_pages X pages (snd (unmap_4k_and_free_bitmap X page s)))"

section \<open>The heap\<close>

definition align_up :: "u64 \<Rightarrow> u64 \<Rightarrow> u64 outcome" where
  "align_up x a = (if add_ok x a then Inr ((x + a - 1) AND NOT (a - 1)) else Inl Overflow)"

definition page_containing :: "'pt x86 \<Rightarrow> u64 \<Rightarrow> u64 outcome" where
  "page_containing X v = (if virt_new X v then Inr (page_of X v) else Inl BadVirtAddr)"

definition map_brk_shrink :: "'pt x86 \<Rightarrow> u64 \<Rightarrow> u64 \<Rightarrow> 'pt kernel \<Rightarrow> (bool \<times> 'pt kernel) outcome" where
  "map_brk_shrink X new_end old_end k =
     (if new_end \<ge> old_end \<or> new_end < USER_BRK_BASE then Inr (True, k)
      else obind (align_up new_end 0x1000) (\<lambda>first_page_lo.
        if first_page_lo \<ge> old_end then Inr (True, k)
        else obind (page_containing X first_page_lo) (\<lambda>first.
          obind (page_containing X (saturating_sub old_end 1)) (\<lambda>last.
            with_mapper (\<lambda>s. Inr (True, shrink_pages X (page_range X first last) s)) k))))"

definition map_brk_grow :: "'pt x86 \<Rightarrow> u64 \<Rightarrow> u64 \<Rightarrow> page_flags \<Rightarrow> 'pt kernel \<Rightarrow> (bool \<times> 'pt kernel) outcome" where
  "map_brk_grow X old_end new_end flags k =
     obind (page_containing X old_end) (\<lambda>first.
       if new_end = 0 then Inl Overflow
       else obind (page_containing X (new_end - 1)) (\<lambda>last.
         with_mapper (\<lambda>s. Inr (grow_pages X flags (page_range X first last) s)) k))"

definition sys_brk :: "'pt x86 \<Rightarrow> u64 \<Rightarrow> 'pt kernel \<Rightarrow> (u64 \<times> 'pt kernel) outcome" where
  "sys_brk X addr k =
     (case TABLE k of None \<Rightarrow> Inr (errno 12, k)
      | Some t \<Rightarrow> obind (slot_at t (CURRENT_SLOT k)) (\<lambda>s.
          case s of None \<Rightarrow> Inr (errno 12, k)
          | Some proc \<Rightarrow>
              if addr = 0 then Inr (brk_end proc, k)
              else if addr < USER_BRK_BASE \<or> addr > USER_BRK_LIMIT then Inr (errno 12, k)
              else let old = brk_end proc;
                  set_brk = update_slot (CURRENT_SLOT k) (\<lambda>p. p\<lparr>brk_end := addr\<rparr>) in
                if addr < old then
                  obind (map_brk_shrink X addr old k) (\<lambda>(okk, k').
                    if \<not> okk then Inr (errno 12, k') else Inr (addr, set_brk k'))
                else if addr = old then Inr (addr, k)
                else obind (map_brk_grow X old addr user_data_flags k) (\<lambda>(okk, k').
                  if \<not> okk then Inr (errno 12, k') else Inr (addr, set_brk k'))))"

section \<open>Anonymous mappings\<close>

text \<open>
  The address \<open>start + i * SIZE\<close> of the loops over \<open>0..page_count\<close>, with its checks, and the
  two loops.
\<close>

definition nth_addr :: "'pt x86 \<Rightarrow> u64 \<Rightarrow> nat \<Rightarrow> u64 outcome" where
  "nth_addr X start i =
     (if unat start + i * PAGE_SIZE < 2 ^ 64 then
        let va = start + of_nat (i * PAGE_SIZE) in if virt_new X va then Inr va else Inl BadVirtAddr
      else Inl Overflow)"

fun map_anon_loop ::
  "'pt x86 \<Rightarrow> u64 \<Rightarrow> page_flags \<Rightarrow> nat list \<Rightarrow> 'pt \<times> falloc \<Rightarrow> (bool \<times> 'pt \<times> falloc) outcome" where
  "map_anon_loop X start flags [] s = Inr (True, s)"
| "map_anon_loop X start flags (i # is) s =
     obind (nth_addr X start i) (\<lambda>va.
       case map_one X flags (page_of X va) s of (okk, s') \<Rightarrow>
         if okk then map_anon_loop X start flags is s' else Inr (False, s'))"

fun unmap_loop :: "'pt x86 \<Rightarrow> u64 \<Rightarrow> nat list \<Rightarrow> 'pt \<times> falloc \<Rightarrow> ('pt \<times> falloc) outcome" where
  "unmap_loop X start [] s = Inr s"
| "unmap_loop X start (i # is) s =
     obind (nth_addr X start i) (\<lambda>va. unmap_loop X start is (snd (unmap_4k_and_free_bitmap X va s)))"

definition map_user_anon_pages ::
  "'pt x86 \<Rightarrow> u64 \<Rightarrow> nat \<Rightarrow> page_flags \<Rightarrow> 'pt kernel \<Rightarrow> (bool \<times> 'pt kernel) outcome" where
  "map_user_anon_pages X start page_count flags k =
     with_mapper (map_anon_loop X start flags [0..<page_count]) k"

definition unmap_user_range :: "'pt x86 \<Rightarrow> u64 \<Rightarrow> nat \<Rightarrow> 'pt kernel \<Rightarrow> (bool \<times> 'pt kernel) outcome" where
  "unmap_user_range X start page_count k =
     with_mapper (\<lambda>s. obind (unmap_loop X start [0..<page_count] s) (\<lambda>s. Inr (True, s))) k"

definition mmap_flags :: "u64 \<Rightarrow> page_flags" where
  "mmap_flags prot = \<lparr>PRESENT = True, WRITABLE = (prot AND PROT_WRITE \<noteq> 0), USER_ACCESSIBLE = True,
     NO_EXECUTE = (prot AND PROT_EXEC = 0)\<rparr>"

text \<open>
  The address of a mapping: \<open>NEXT_MMAP\<close> is moved before the limit is checked; \<open>Inl\<close> is the
  error to return.
\<close>

definition mmap_addr :: "u64 \<Rightarrow> u64 \<Rightarrow> nat \<Rightarrow> 'pt kernel \<Rightarrow> (u64 + u64) \<times> 'pt kernel" where
  "mmap_addr addr len n_pages k =
     (let bytes = of_nat n_pages * 0x1000 in
      if addr = 0 then
        let base = NEXT_MMAP k; k' = k\<lparr>NEXT_MMAP := base + bytes\<rparr> in
        if saturating_add base bytes > USER_MMAP_LIMIT then (Inl (errno 12), k') else (Inr base, k')
      else if unat addr mod PAGE_SIZE \<noteq> 0 then (Inl (errno 22), k)
      else if addr < USER_MMAP_BASE \<or> saturating_add addr len > USER_MMAP_LIMIT then (Inl (errno 22), k)
      else (Inr addr, k))"

text \<open>The rest of the call: map the pages and record the area.\<close>

definition mmap_install :: "'pt x86 \<Rightarrow> u64 \<Rightarrow> nat \<Rightarrow> u64 \<Rightarrow> 'pt kernel \<Rightarrow> (u64 \<times> 'pt kernel) outcome" where
  "mmap_install X addr n_pages prot k =
     (if \<not> virt_new X addr then Inl BadVirtAddr
      else obind (map_user_anon_pages X addr n_pages (mmap_flags prot) k) (\<lambda>(okk, k).
        if \<not> okk then Inr (errno 12, k)
        else let area = \<lparr>va_id = VM_AREA_NEXT_ID k, virt_start = addr, va_pages = n_pages,
                 va_writable = (prot AND PROT_WRITE \<noteq> 0), va_executable = (prot AND PROT_EXEC \<noteq> 0)\<rparr>;
               k = k\<lparr>VM_AREA_NEXT_ID := VM_AREA_NEXT_ID k + 1\<rparr> in
          (case TABLE k of None \<Rightarrow> Inr (addr, k)
           | Some t \<Rightarrow> obind (slot_at t (CURRENT_SLOT k)) (\<lambda>s. Inr (addr,
               update_slot (CURRENT_SLOT k) (\<lambda>p. p\<lparr>vm_areas := vm_areas p @ [area]\<rparr>) k)))))"

definition sys_mmap :: "'pt x86 \<Rightarrow> u64 \<Rightarrow> u64 \<Rightarrow> u64 \<Rightarrow> 'pt kernel \<Rightarrow> (u64 \<times> 'pt kernel) outcome" where
  "sys_mmap X addr len prot k =
     (if len = 0 \<or> len > USER_MMAP_LIMIT - USER_MMAP_BASE then Inr (errno 22, k)
      else let n_pages = (unat len + PAGE_SIZE - 1) div PAGE_SIZE in
        case mmap_addr addr len n_pages k of (Inl e, k) \<Rightarrow> Inr (e, k)
        | (Inr addr, k) \<Rightarrow> mmap_install X addr n_pages prot k)"

text \<open>The \<open>retain\<close> of \<open>sys_munmap\<close>: whether an area was hit, and the areas that stay.\<close>

fun retain_areas :: "u64 \<Rightarrow> u64 \<Rightarrow> vm_area list \<Rightarrow> (bool \<times> vm_area list) outcome" where
  "retain_areas addr end' [] = Inr (False, [])"
| "retain_areas addr end' (a # as) =
     obind (area_end a) (\<lambda>aend.
       obind (retain_areas addr end' as) (\<lambda>(hit, rest).
         if virt_start a = addr \<and> aend = end' then Inr (True, rest) else Inr (hit, a # rest)))"

definition sys_munmap :: "'pt x86 \<Rightarrow> u64 \<Rightarrow> u64 \<Rightarrow> 'pt kernel \<Rightarrow> (u64 \<times> 'pt kernel) outcome" where
  "sys_munmap X addr len k =
     (if unat addr mod PAGE_SIZE \<noteq> 0 \<or> len = 0 then Inr (errno 22, k)
      else let n_pages = unat len div PAGE_SIZE; end' = saturating_add addr len in
        obind (case TABLE k of None \<Rightarrow> Inr (False, k)
          | Some t \<Rightarrow> obind (slot_at t (CURRENT_SLOT k)) (\<lambda>s. case s of None \<Rightarrow> Inr (False, k)
              | Some p \<Rightarrow> obind (retain_areas addr end' (vm_areas p)) (\<lambda>(hit, rest).
                  Inr (hit, update_slot (CURRENT_SLOT k) (\<lambda>p. p\<lparr>vm_areas := rest\<rparr>) k))))
        (\<lambda>(removed, k).
          if \<not> removed then Inr (errno 22, k)
          else obind (unmap_user_range X addr n_pages k) (\<lambda>(okk, k).
            if \<not> okk then Inr (errno 12, k) else Inr (0, k))))"

section \<open>Pages of a range\<close>

lemma page_aligned_unat: "page_aligned a \<Longrightarrow> unat a = unat a div PAGE_SIZE * PAGE_SIZE"
  unfolding page_aligned_def by (metis mod_0_imp_dvd dvd_div_mult_self)

lemma page_size_pos: "0 < PAGE_SIZE"
  by (simp add: PAGE_SIZE_def)

lemma aligned_le_floor: "page_aligned pg \<Longrightarrow> pg \<le> page_floor v \<longleftrightarrow> pg \<le> v"
proof -
  assume a: "page_aligned pg"
  have "unat pg div PAGE_SIZE * PAGE_SIZE \<le> unat v div PAGE_SIZE * PAGE_SIZE \<longleftrightarrow>
      unat pg div PAGE_SIZE * PAGE_SIZE \<le> unat v"
    using page_size_pos by (simp add: less_eq_div_iff_mult_less_eq)
  then show ?thesis
    by (simp add: word_le_nat_alt page_floor_unat page_aligned_unat[OF a, symmetric])
qed

lemma set_page_range:
  assumes "x86_laws X" "page_aligned a" "page_aligned b"
  shows "set (page_range X a b) = {pg. page_aligned pg \<and> a \<le> pg \<and> pg \<le> b}"
proof -
  have "pg \<in> page_at ` {unat a div PAGE_SIZE..<unat b div PAGE_SIZE + 1} \<longleftrightarrow>
      page_aligned pg \<and> a \<le> pg \<and> pg \<le> b" for pg
  proof
    assume "pg \<in> page_at ` {unat a div PAGE_SIZE..<unat b div PAGE_SIZE + 1}"
    then obtain i where i: "pg = page_at i" "unat a div PAGE_SIZE \<le> i" "i \<le> unat b div PAGE_SIZE" by auto
    have "i * PAGE_SIZE \<le> unat b" using i(3) page_size_pos by (simp add: less_eq_div_iff_mult_less_eq)
    then have s: "i * PAGE_SIZE < 2 ^ 64" using u64_bound[of b] by (rule le_less_trans)
    have "unat a div PAGE_SIZE * PAGE_SIZE \<le> i * PAGE_SIZE" using i(2) by simp
    then have "unat a \<le> i * PAGE_SIZE" using page_aligned_unat[OF assms(2)] by simp
    then show "page_aligned pg \<and> a \<le> pg \<and> pg \<le> b"
      using \<open>i * PAGE_SIZE \<le> unat b\<close> page_at_aligned[OF s] page_at_unat[OF s] i(1)
      by (simp add: word_le_nat_alt)
  next
    assume pg: "page_aligned pg \<and> a \<le> pg \<and> pg \<le> b"
    then have "pg = page_at (unat pg div PAGE_SIZE)" using page_floor_id page_floor_def by metis
    moreover have "unat a div PAGE_SIZE \<le> unat pg div PAGE_SIZE" "unat pg div PAGE_SIZE \<le> unat b div PAGE_SIZE"
      using pg by (simp_all add: word_le_nat_alt div_le_mono)
    ultimately show "pg \<in> page_at ` {unat a div PAGE_SIZE..<unat b div PAGE_SIZE + 1}" by auto
  qed
  then show ?thesis unfolding x86_page_range[OF assms] set_map set_upt by blast
qed

lemma and_not_low12: "(z :: u64) AND NOT 0xFFF = push_bit 12 (drop_bit 12 z)"
proof -
  have "z AND NOT 0xFFF = z AND NOT (mask 12)" by (simp add: mask_eq_exp_minus_1)
  also have "\<dots> = push_bit 12 (drop_bit 12 z)" by (rule bit_eqI) (auto simp: bit_simps)
  finally show ?thesis .
qed

lemma unat_and_not_low12: "unat ((z :: u64) AND NOT 0xFFF) = unat z div 4096 * 4096"
proof -
  have "unat z div 4096 * 4096 < 2 ^ 64"
    using u64_bound[of z] by (metis div_times_less_eq_dividend le_less_trans)
  then show ?thesis unfolding and_not_low12
    by (simp add: push_bit_eq_mult drop_bit_eq_div unat_word_ariths unat_div_distrib)
qed

lemma round_up_le_iff: "(n + 4095) div 4096 * 4096 \<le> q * 4096 \<longleftrightarrow> n \<le> q * (4096 :: nat)"
  using div_less_iff_less_mult[of 4096 "n + 4095" "Suc q"] by (simp add: less_Suc_eq_le)

lemma align_up_page:
  assumes "unat x \<le> 0x410000"
  shows "\<exists>y. align_up x 0x1000 = Inr y \<and> page_aligned y \<and> unat y \<le> 0x410000
    \<and> (\<forall>pg. page_aligned pg \<longrightarrow> (y \<le> pg \<longleftrightarrow> x \<le> pg))"
proof -
  let ?y = "(x + 0xFFF) AND NOT 0xFFF"
  have z: "unat (x + 0xFFF) = unat x + 4095" using assms by (simp add: unat_word_ariths)
  have y: "unat ?y = (unat x + 4095) div 4096 * 4096" unfolding unat_and_not_low12 z ..
  have ok: "add_ok x 0x1000" using assms by (simp add: add_ok_def)
  have e: "x + 0x1000 - 1 = x + 0xFFF" "(0x1000 :: u64) - 1 = 0xFFF" by simp_all
  have "align_up x 0x1000 = Inr ?y" unfolding align_up_def e if_P[OF ok] ..
  moreover have "page_aligned ?y" unfolding page_aligned_def y PAGE_SIZE_def by simp
  moreover have "unat ?y \<le> 0x410000"
    using round_up_le_iff[of "unat x" "0x410"] assms unfolding y by simp
  moreover have "?y \<le> pg \<longleftrightarrow> x \<le> pg" if al: "page_aligned pg" for pg
  proof -
    obtain q where q: "unat pg = q * 4096" using page_aligned_unat[OF al] by (metis PAGE_SIZE_def)
    show ?thesis unfolding word_le_nat_alt y q by (rule round_up_le_iff)
  qed
  ultimately show ?thesis by blast
qed

section \<open>Ownership of frames\<close>

text \<open>
  The pages of the user window, and the invariant of page table and allocator over it: the pages are
  mapped one by one, each to a frame that the allocator can manage and does not hold free, and no
  two pages share a frame.
\<close>

definition user_window :: "u64 \<Rightarrow> bool" where
  "user_window pg \<longleftrightarrow> page_aligned pg \<and> USER_TEXT_BASE \<le> pg \<and> pg < USER_MMAP_LIMIT"

definition vm_ok :: "'pt x86 \<Rightarrow> 'pt \<times> falloc \<Rightarrow> bool" where
  "vm_ok X s \<longleftrightarrow> falloc_ok (snd s)
     \<and> (\<forall>pg f. user_window pg \<longrightarrow> translate X (fst s) pg = Some f \<longrightarrow>
          mapped_4k X (fst s) pg \<and> valid_frame f \<and> f \<notin> free_addrs (snd s))
     \<and> (\<forall>pg pg' f. user_window pg \<longrightarrow> user_window pg' \<longrightarrow>
          translate X (fst s) pg = Some f \<longrightarrow> translate X (fst s) pg' = Some f \<longrightarrow> pg = pg')"

lemma vm_okD:
  assumes "vm_ok X (pt, fa)"
  shows "falloc_ok fa"
    and "user_window pg \<Longrightarrow> translate X pt pg = Some f \<Longrightarrow> mapped_4k X pt pg"
    and "user_window pg \<Longrightarrow> translate X pt pg = Some f \<Longrightarrow> valid_frame f"
    and "user_window pg \<Longrightarrow> translate X pt pg = Some f \<Longrightarrow> f \<notin> free_addrs fa"
    and "user_window pg \<Longrightarrow> user_window pg' \<Longrightarrow> translate X pt pg = Some f \<Longrightarrow>
      translate X pt pg' = Some f \<Longrightarrow> pg = pg'"
proof -
  have a: "falloc_ok fa"
    "\<forall>pg f. user_window pg \<longrightarrow> translate X pt pg = Some f \<longrightarrow>
          mapped_4k X pt pg \<and> valid_frame f \<and> f \<notin> free_addrs fa"
    "\<forall>pg pg' f. user_window pg \<longrightarrow> user_window pg' \<longrightarrow>
          translate X pt pg = Some f \<longrightarrow> translate X pt pg' = Some f \<longrightarrow> pg = pg'"
    using assms unfolding vm_ok_def by simp_all
  show "falloc_ok fa" by (rule a)
  show "user_window pg \<Longrightarrow> translate X pt pg = Some f \<Longrightarrow> mapped_4k X pt pg" using a(2) by blast
  show "user_window pg \<Longrightarrow> translate X pt pg = Some f \<Longrightarrow> valid_frame f" using a(2) by blast
  show "user_window pg \<Longrightarrow> translate X pt pg = Some f \<Longrightarrow> f \<notin> free_addrs fa" using a(2) by blast
  show "user_window pg \<Longrightarrow> user_window pg' \<Longrightarrow> translate X pt pg = Some f \<Longrightarrow>
      translate X pt pg' = Some f \<Longrightarrow> pg = pg'" using a(3) by blast
qed

lemma user_window_aligned: "user_window pg \<Longrightarrow> page_aligned pg"
  by (simp add: user_window_def)

lemma map_one_spec:
  assumes "x86_laws X" "page_aligned page" "falloc_ok fa" "map_one X fl page (pt, fa) = (okk, pt', fa')"
  shows "falloc_ok fa'" and "free_addrs fa' \<subseteq> free_addrs fa"
    and "\<not> okk \<Longrightarrow> translate X pt' = translate X pt \<and> mapped_4k X pt' = mapped_4k X pt"
    and "okk \<Longrightarrow> translate X pt page = None \<and> (\<exists>f \<in> free_addrs fa - free_addrs fa'.
      \<forall>pg. page_aligned pg \<longrightarrow> translate X pt' pg = (if pg = page then Some f else translate X pt pg)
        \<and> (mapped_4k X pt' pg \<longleftrightarrow> pg = page \<or> mapped_4k X pt pg))"
proof -
  obtain r fa1 where al: "allocate_frame_inner fa = (r, fa1)" by (cases "allocate_frame_inner fa")
  have all: "falloc_ok fa' \<and> free_addrs fa' \<subseteq> free_addrs fa
    \<and> (\<not> okk \<longrightarrow> translate X pt' = translate X pt \<and> mapped_4k X pt' = mapped_4k X pt)
    \<and> (okk \<longrightarrow> translate X pt page = None \<and> (\<exists>f \<in> free_addrs fa - free_addrs fa'.
      \<forall>pg. page_aligned pg \<longrightarrow> translate X pt' pg = (if pg = page then Some f else translate X pt pg)
        \<and> (mapped_4k X pt' pg \<longleftrightarrow> pg = page \<or> mapped_4k X pt pg)))"
  proof (cases r)
    case None
    then have "okk = False" "pt' = pt" "fa' = fa1" using assms(4) al by (auto simp: map_one_def)
    then show ?thesis using bitmap_frames.alloc_None[OF assms(3)] al None assms(3) by auto
  next
    case (Some f)
    note a = bitmap_frames.alloc_Some[OF assms(3) al[unfolded Some]]
    obtain e where m: "map_to X pt page f fl fa1 = (e, pt', fa')" "okk = (e = None)"
      using assms(4) al Some by (auto simp: map_one_def split: prod.splits)
    note l = x86_map_to[OF assms(1,2) m(1)]
    obtain n where n: "fa' = snd (alloc_many allocate_frame_inner n fa1)" using l(1) by blast
    obtain fs where fs: "alloc_many allocate_frame_inner n fa1 = (fs, fa')" using n by (metis surjective_pairing)
    note am = bitmap_frames.alloc_many_spec[OF _ fs]
    have fa': "falloc_ok fa'" "free_addrs fa' \<subseteq> free_addrs fa" "f \<in> free_addrs fa - free_addrs fa'"
      using am a by auto
    show ?thesis
    proof (cases e)
      case None
      then have "translate X pt page = None" using l(2) by blast
      then show ?thesis using fa' m(2) None l(5,6) by blast
    next
      case (Some x)
      then show ?thesis using fa' m(2) l(3,4) by simp
    qed
  qed
  show "falloc_ok fa'" "free_addrs fa' \<subseteq> free_addrs fa" using all by blast+
  show "\<not> okk \<Longrightarrow> translate X pt' = translate X pt \<and> mapped_4k X pt' = mapped_4k X pt" using all by blast
  show "okk \<Longrightarrow> translate X pt page = None \<and> (\<exists>f \<in> free_addrs fa - free_addrs fa'.
      \<forall>pg. page_aligned pg \<longrightarrow> translate X pt' pg = (if pg = page then Some f else translate X pt pg)
        \<and> (mapped_4k X pt' pg \<longleftrightarrow> pg = page \<or> mapped_4k X pt pg))" using all by blast
qed

lemma map_one_vm_ok:
  assumes "x86_laws X" "page_aligned page" "vm_ok X (pt, fa)" "map_one X fl page (pt, fa) = (okk, pt', fa')"
  shows "vm_ok X (pt', fa')"
proof -
  note v = vm_okD[OF assms(3)]
  note m = map_one_spec[OF assms(1,2) v(1) assms(4)]
  show ?thesis
  proof (cases okk)
    case False
    then show ?thesis unfolding vm_ok_def using m(1,2,3) v(2-5) by (simp add: subset_eq) blast
  next
    case True
    then obtain f where f: "f \<in> free_addrs fa" "f \<notin> free_addrs fa'"
      and t: "\<And>pg. page_aligned pg \<Longrightarrow> translate X pt' pg = (if pg = page then Some f else translate X pt pg)"
      and mp: "\<And>pg. page_aligned pg \<Longrightarrow> mapped_4k X pt' pg \<longleftrightarrow> pg = page \<or> mapped_4k X pt pg"
      using m(4) by blast
    have vf: "valid_frame f" using bitmap_frames.avail_frame[OF v(1) f(1)] .
    have nf: "\<And>pg. user_window pg \<Longrightarrow> translate X pt pg \<noteq> Some f" using v(4) f(1) by blast
    show ?thesis unfolding vm_ok_def
    proof (intro conjI allI impI)
      fix pg g assume w: "user_window pg" and tr: "translate X (fst (pt', fa')) pg = Some g"
      note w' = user_window_aligned[OF w]
      show "mapped_4k X (fst (pt', fa')) pg" using tr t[OF w'] mp[OF w'] v(2)[OF w] by (simp split: if_splits)
      show "valid_frame g" using tr t[OF w'] v(3)[OF w] vf by (auto split: if_splits)
      show "g \<notin> free_addrs (snd (pt', fa'))" using tr t[OF w'] v(4)[OF w] f(2) m(2) by (auto split: if_splits)
    next
      fix pg pg' g assume w: "user_window pg" "user_window pg'"
        and tr: "translate X (fst (pt', fa')) pg = Some g" "translate X (fst (pt', fa')) pg' = Some g"
      show "pg = pg'" using tr t[OF user_window_aligned[OF w(1)]] t[OF user_window_aligned[OF w(2)]]
          v(5)[OF w] nf w by (auto split: if_splits)
    qed (use m(1) in simp)
  qed
qed

lemma unmap_vm_ok:
  assumes "x86_laws X" "user_window page" "vm_ok X (pt, fa)"
    "unmap_4k_and_free_bitmap X page (pt, fa) = (okk, pt', fa')"
  shows "vm_ok X (pt', fa')"
proof -
  note v = vm_okD[OF assms(3)] and al = user_window_aligned[OF assms(2)]
  show ?thesis
  proof (cases "mapped_4k X pt page")
    case False
    note u = unmap_free_unmapped[OF assms(1) al False assms(4)]
    show ?thesis unfolding vm_ok_def using u(2-4) v by simp
  next
    case True
    note u = unmap_free_mapped[OF assms(1) al True assms(4)]
    obtain f where f: "translate X pt page = Some f" using x86_mapped[OF assms(1) True] by blast
    note d = bitmap_frames.dealloc[OF v(1) v(3)[OF assms(2) f]]
    have fa': "falloc_ok fa'" "free_addrs fa' = insert f (free_addrs fa)" using u(2) f d by simp_all
    show ?thesis unfolding vm_ok_def
    proof (intro conjI allI impI)
      fix pg g assume w: "user_window pg" and tr: "translate X (fst (pt', fa')) pg = Some g"
      have ne: "pg \<noteq> page" "translate X pt pg = Some g"
        using tr u(3)[OF user_window_aligned[OF w]] by (auto split: if_splits)
      show "mapped_4k X (fst (pt', fa')) pg" using u(4)[OF user_window_aligned[OF w]] ne v(2)[OF w] by simp
      show "valid_frame g" using v(3)[OF w ne(2)] .
      have "g \<noteq> f" using v(5)[OF w assms(2) ne(2)] f ne(1) by blast
      then show "g \<notin> free_addrs (snd (pt', fa'))" using v(4)[OF w ne(2)] fa'(2) by simp
    next
      fix pg pg' g assume w: "user_window pg" "user_window pg'"
        and tr: "translate X (fst (pt', fa')) pg = Some g" "translate X (fst (pt', fa')) pg' = Some g"
      show "pg = pg'" using tr u(3)[OF user_window_aligned[OF w(1)]] u(3)[OF user_window_aligned[OF w(2)]]
          v(5)[OF w] by (auto split: if_splits)
    qed (use fa' in simp)
  qed
qed

section \<open>Edits of the page table\<close>

text \<open>
  What the loops do, as a relation: any number of rounds that map or unmap a page of a given set.
  Two facts hold of all of them: the invariant is kept, and pages outside the set are not touched.
\<close>

inductive vm_edit :: "'pt x86 \<Rightarrow> u64 set \<Rightarrow> 'pt \<times> falloc \<Rightarrow> 'pt \<times> falloc \<Rightarrow> bool" for X P s where
  edit_refl: "vm_edit X P s s"
| edit_map: "vm_edit X P s s' \<Longrightarrow> page \<in> P \<Longrightarrow> map_one X fl page s' = (okk, s'') \<Longrightarrow> vm_edit X P s s''"
| edit_unmap: "vm_edit X P s s' \<Longrightarrow> page \<in> P \<Longrightarrow> unmap_4k_and_free_bitmap X page s' = (okk, s'') \<Longrightarrow>
    vm_edit X P s s''"

lemma vm_edit_trans: "vm_edit X P s' s'' \<Longrightarrow> vm_edit X P s s' \<Longrightarrow> vm_edit X P s s''"
  by (induction rule: vm_edit.induct) (auto intro: vm_edit.intros)

lemma vm_edit_mono: "vm_edit X P s s' \<Longrightarrow> P \<subseteq> Q \<Longrightarrow> vm_edit X Q s s'"
  by (induction rule: vm_edit.induct) (auto intro: vm_edit.intros)

lemma vm_edit_ok:
  assumes "vm_edit X P s s'" "x86_laws X" "P \<subseteq> {pg. user_window pg}" "vm_ok X s"
  shows "vm_ok X s'"
  using assms
proof (induction rule: vm_edit.induct)
  case (edit_map s' page fl okk s'')
  then show ?case using map_one_vm_ok[of X page "fst s'" "snd s'" fl okk "fst s''" "snd s''"] user_window_aligned
    by auto
next
  case (edit_unmap s' page okk s'')
  then show ?case using unmap_vm_ok[of X page "fst s'" "snd s'" okk "fst s''" "snd s''"] by auto
qed

lemma vm_edit_frame:
  assumes "vm_edit X P s s'" "x86_laws X" "P \<subseteq> {pg. user_window pg}" "vm_ok X s" "page_aligned pg" "pg \<notin> P"
  shows "translate X (fst s') pg = translate X (fst s) pg"
  using assms
proof (induction rule: vm_edit.induct)
  case (edit_map s' page fl okk s'')
  have ok: "falloc_ok (snd s')" using vm_edit_ok[OF edit_map.hyps(1) edit_map.prems(1-3)] by (simp add: vm_ok_def)
  have al: "page_aligned page" using edit_map.hyps(2) edit_map.prems(2) user_window_aligned by blast
  have "map_one X fl page (fst s', snd s') = (okk, fst s'', snd s'')" using edit_map.hyps(3) by simp
  note m = map_one_spec(3,4)[OF edit_map.prems(1) al ok this]
  have "translate X (fst s'') pg = translate X (fst s') pg"
    using m edit_map.prems(4,5) edit_map.hyps(2) by (cases okk) auto
  then show ?case using edit_map.IH edit_map.prems by simp
next
  case (edit_unmap s' page okk s'')
  have al: "page_aligned page" using edit_unmap.hyps(2) edit_unmap.prems(2) user_window_aligned by blast
  have e: "unmap_4k_and_free_bitmap X page (fst s', snd s') = (okk, fst s'', snd s'')"
    using edit_unmap.hyps(3) by simp
  have "translate X (fst s'') pg = translate X (fst s') pg"
    using unmap_free_mapped(3)[OF edit_unmap.prems(1) al _ e edit_unmap.prems(4)]
      unmap_free_unmapped(3)[OF edit_unmap.prems(1) al _ e] edit_unmap.prems(5) edit_unmap.hyps(2)
    by (cases "mapped_4k X (fst s') page") auto
  then show ?case using edit_unmap.IH edit_unmap.prems by simp
qed simp

text \<open>The loops are edits of the pages they run over.\<close>

lemma vm_edit_map: "page \<in> P \<Longrightarrow> map_one X fl page s = (okk, s') \<Longrightarrow> vm_edit X P s s'"
  by (rule edit_map[OF edit_refl])

lemma vm_edit_unmap: "page \<in> P \<Longrightarrow> vm_edit X P s (snd (unmap_4k_and_free_bitmap X page s))"
  by (rule edit_unmap[OF edit_refl]) (auto intro: prod.collapse[symmetric])

lemma grow_pages_edit: "set pages \<subseteq> P \<Longrightarrow> vm_edit X P s (snd (grow_pages X fl pages s))"
proof (induction pages arbitrary: s)
  case (Cons page pages)
  obtain okk s' where m: "map_one X fl page s = (okk, s')" by (cases "map_one X fl page s")
  have "vm_edit X P s s'" using vm_edit_map[OF _ m] Cons.prems by simp
  then show ?case using Cons m vm_edit_trans[OF Cons.IH] by auto
qed (simp add: edit_refl)

lemma shrink_pages_edit: "set pages \<subseteq> P \<Longrightarrow> vm_edit X P s (shrink_pages X pages s)"
proof (induction pages arbitrary: s)
  case (Cons page pages)
  have "vm_edit X P s (snd (unmap_4k_and_free_bitmap X page s))" using Cons.prems by (intro vm_edit_unmap) simp
  then show ?case using Cons vm_edit_trans[OF Cons.IH] by auto
qed (simp add: edit_refl)

text \<open>\<open>mmap\<close> and \<open>munmap\<close> run over the pages \<open>start + i * SIZE\<close>; below the mapping limit the
  address checks pass.\<close>

definition nth_page :: "u64 \<Rightarrow> nat \<Rightarrow> u64" where
  "nth_page start i = start + of_nat (i * PAGE_SIZE)"

lemma nth_page_unat:
  "unat start + i * PAGE_SIZE < 2 ^ 64 \<Longrightarrow> unat (nth_page start i) = unat start + i * PAGE_SIZE"
proof -
  assume a: "unat start + i * PAGE_SIZE < 2 ^ 64"
  then have "unat (of_nat (i * PAGE_SIZE) :: u64) = i * PAGE_SIZE" by (intro unat_of_nat_u64) simp
  then show ?thesis unfolding nth_page_def using a
    by (subst unat_add_ok) (simp_all add: add_ok_def del: of_nat_mult)
qed

lemma nth_page_window:
  assumes "page_aligned start" "USER_TEXT_BASE \<le> start" "unat start + n * PAGE_SIZE \<le> 0x480000" "i < n"
  shows "user_window (nth_page start i)" "unat (nth_page start i) = unat start + i * PAGE_SIZE"
proof -
  have "Suc i * PAGE_SIZE \<le> n * PAGE_SIZE" using assms(4) by (intro mult_le_mono1) simp
  then have b: "unat start + i * PAGE_SIZE < 0x480000" using assms(3) page_size_pos by simp
  then show u: "unat (nth_page start i) = unat start + i * PAGE_SIZE" by (intro nth_page_unat) simp
  have "(unat start + i * PAGE_SIZE) mod PAGE_SIZE = 0" using assms(1) by (simp add: page_aligned_def)
  then show "user_window (nth_page start i)"
    using u b assms(2) by (simp add: user_window_def page_aligned_def word_le_nat_alt word_less_nat_alt USER_MMAP_LIMIT_def)
qed

lemma nth_addr_ok:
  assumes "x86_laws X" "user_window (nth_page start i)" "unat start + i * PAGE_SIZE < 2 ^ 64"
  shows "nth_addr X start i = Inr (nth_page start i)" "page_of X (nth_page start i) = nth_page start i"
proof -
  have "unat (nth_page start i) < 0x480000"
    using assms(2) by (simp add: user_window_def word_less_nat_alt USER_MMAP_LIMIT_def)
  then have "virt_new X (nth_page start i)" by (intro x86_virt[OF assms(1)]) simp
  then show "nth_addr X start i = Inr (nth_page start i)"
    using assms(3) by (simp add: nth_addr_def nth_page_def Let_def)
  show "page_of X (nth_page start i) = nth_page start i"
    using page_of_id[OF assms(1)] user_window_aligned[OF assms(2)] by blast
qed

section \<open>What the loops leave behind\<close>

lemma map_one_keeps:
  assumes "x86_laws X" "page_aligned page" "vm_ok X s" "map_one X fl page s = (okk, s')"
    "page_aligned pg" "translate X (fst s) pg = Some f"
  shows "translate X (fst s') pg = Some f"
proof -
  have e: "map_one X fl page (fst s, snd s) = (okk, fst s', snd s')" using assms(4) by simp
  have "falloc_ok (snd s)" using assms(3) by (simp add: vm_ok_def)
  note m = map_one_spec(3,4)[OF assms(1,2) this e]
  show ?thesis using m assms(5,6) by (cases okk) force+
qed

lemma map_one_maps:
  assumes "x86_laws X" "page_aligned page" "vm_ok X s" "map_one X fl page s = (True, s')"
  shows "translate X (fst s) page = None" "translate X (fst s') page \<noteq> None"
    "page_aligned pg \<Longrightarrow> pg \<noteq> page \<Longrightarrow> translate X (fst s') pg = translate X (fst s) pg"
proof -
  have e: "map_one X fl page (fst s, snd s) = (True, fst s', snd s')" using assms(4) by simp
  have "falloc_ok (snd s)" using assms(3) by (simp add: vm_ok_def)
  note m = map_one_spec(4)[OF assms(1,2) this e]
  show "translate X (fst s) page = None" "translate X (fst s') page \<noteq> None"
    "page_aligned pg \<Longrightarrow> pg \<noteq> page \<Longrightarrow> translate X (fst s') pg = translate X (fst s) pg"
    using m assms(2) by auto
qed

lemma map_one_ok: "x86_laws X \<Longrightarrow> page_aligned page \<Longrightarrow> vm_ok X s \<Longrightarrow> map_one X fl page s = (okk, s') \<Longrightarrow> vm_ok X s'"
  using map_one_vm_ok[of X page "fst s" "snd s" fl okk "fst s'" "snd s'"] by simp

lemma grow_pages_spec:
  assumes "x86_laws X" "\<forall>pg \<in> set pages. page_aligned pg" "vm_ok X s" "grow_pages X fl pages s = (okk, s')"
  shows "(\<forall>pg f. page_aligned pg \<longrightarrow> translate X (fst s) pg = Some f \<longrightarrow> translate X (fst s') pg = Some f)
    \<and> (okk \<longrightarrow> (\<forall>pg \<in> set pages. translate X (fst s') pg \<noteq> None))"
  using assms(2-4)
proof (induction pages arbitrary: s)
  case (Cons page pages)
  show ?case
  proof (cases "translate X (fst s) page")
    case None
    obtain o1 s1 where m: "map_one X fl page s = (o1, s1)" by (cases "map_one X fl page s")
    have al: "page_aligned page" using Cons.prems(1) by simp
    note k = map_one_keeps[OF assms(1) al Cons.prems(2) m]
    show ?thesis
    proof (cases o1)
      case False
      then show ?thesis using None m k Cons.prems(3) by auto
    next
      case True
      have "grow_pages X fl pages s1 = (okk, s')" using None m True Cons.prems(3) by simp
      note ih = Cons.IH[OF _ map_one_ok[OF assms(1) al Cons.prems(2) m] this]
      have "map_one X fl page s = (True, s1)" using m True by simp
      then obtain f where "translate X (fst s1) page = Some f"
        using map_one_maps(2)[OF assms(1) al Cons.prems(2)] by blast
      then show ?thesis using ih k al Cons.prems(1) by auto
    qed
  next
    case (Some f)
    then have "grow_pages X fl pages s = (okk, s')" using Cons.prems(3) by simp
    then show ?thesis using Cons.IH[OF _ Cons.prems(2)] Cons.prems(1) Some by auto
  qed
qed simp

lemma unmap_window:
  assumes "x86_laws X" "user_window page" "vm_ok X s"
  shows "page_aligned pg \<Longrightarrow> translate X (fst (snd (unmap_4k_and_free_bitmap X page s))) pg
      = (if pg = page then None else translate X (fst s) pg)"
    and "free_addrs (snd (snd (unmap_4k_and_free_bitmap X page s)))
      = free_addrs (snd s) \<union> set_option (translate X (fst s) page)"
    and "vm_ok X (snd (unmap_4k_and_free_bitmap X page s))"
proof -
  obtain okk pt' fa' where e: "unmap_4k_and_free_bitmap X page (fst s, snd s) = (okk, pt', fa')"
    by (cases "unmap_4k_and_free_bitmap X page (fst s, snd s)")
  have v: "vm_ok X (fst s, snd s)" using assms(3) by simp
  note al = user_window_aligned[OF assms(2)] and vd = vm_okD[OF v]
  show "vm_ok X (snd (unmap_4k_and_free_bitmap X page s))" using unmap_vm_ok[OF assms(1,2) v e] e by simp
  have "(page_aligned pg \<longrightarrow> translate X pt' pg = (if pg = page then None else translate X (fst s) pg))
    \<and> free_addrs fa' = free_addrs (snd s) \<union> set_option (translate X (fst s) page)" for pg
  proof (cases "mapped_4k X (fst s) page")
    case True
    then obtain f where f: "translate X (fst s) page = Some f" using x86_mapped[OF assms(1)] by blast
    note u = unmap_free_mapped[OF assms(1) al True e]
    show ?thesis using u(2,3) f bitmap_frames.dealloc[OF vd(1) vd(3)[OF assms(2) f]] by auto
  next
    case False
    then have "translate X (fst s) page = None" using vd(2)[OF assms(2)] by fastforce
    then show ?thesis using unmap_free_unmapped[OF assms(1) al False e] by simp
  qed
  then show "page_aligned pg \<Longrightarrow> translate X (fst (snd (unmap_4k_and_free_bitmap X page s))) pg
      = (if pg = page then None else translate X (fst s) pg)"
    and "free_addrs (snd (snd (unmap_4k_and_free_bitmap X page s)))
      = free_addrs (snd s) \<union> set_option (translate X (fst s) page)" using e by simp_all
qed

text \<open>The pages that a loop unmaps, and the frames it gives back.\<close>

definition unmapped_set :: "'pt x86 \<Rightarrow> u64 set \<Rightarrow> 'pt \<times> falloc \<Rightarrow> 'pt \<times> falloc \<Rightarrow> bool" where
  "unmapped_set X P s s' \<longleftrightarrow> vm_ok X s'
     \<and> (\<forall>pg. page_aligned pg \<longrightarrow>
          translate X (fst s') pg = (if pg \<in> P then None else translate X (fst s) pg))
     \<and> free_addrs (snd s') = free_addrs (snd s) \<union> {f. \<exists>pg \<in> P. translate X (fst s) pg = Some f}"

lemma unmapped_set_empty: "vm_ok X s \<Longrightarrow> unmapped_set X {} s s"
  by (simp add: unmapped_set_def)

lemma unmapped_set_insert:
  assumes "x86_laws X" "user_window page" "vm_ok X s" "\<forall>pg \<in> P. page_aligned pg"
    "unmapped_set X P (snd (unmap_4k_and_free_bitmap X page s)) s'"
  shows "unmapped_set X (insert page P) s s'"
proof -
  note u = unmap_window[OF assms(1-3)] and a = assms(5)[unfolded unmapped_set_def]
  have "free_addrs (snd s') = free_addrs (snd s) \<union> {f. \<exists>pg \<in> insert page P. translate X (fst s) pg = Some f}"
    using a u(1,2) assms(4) by (auto split: if_splits) (metis option.set_intros option.distinct(1))+
  then show ?thesis unfolding unmapped_set_def using a u(1) by (auto split: if_splits)
qed

lemma shrink_pages_spec:
  assumes "x86_laws X" "\<forall>pg \<in> set pages. user_window pg" "vm_ok X s"
  shows "unmapped_set X (set pages) s (shrink_pages X pages s)"
  using assms(2,3)
proof (induction pages arbitrary: s)
  case Nil
  then show ?case by (simp add: unmapped_set_empty)
next
  case (Cons page pages)
  have al: "\<forall>pg \<in> set pages. page_aligned pg" using Cons.prems(1) user_window_aligned by auto
  show ?case
  proof (cases "translate X (fst s) page = None")
    case True
    then have "shrink_pages X (page # pages) s = shrink_pages X pages s" by simp
    moreover have "unmapped_set X (set pages) s (shrink_pages X pages s)" using Cons by simp
    ultimately show ?thesis using True unfolding unmapped_set_def by auto
  next
    case False
    have "unmapped_set X (set pages) (snd (unmap_4k_and_free_bitmap X page s))
        (shrink_pages X pages (snd (unmap_4k_and_free_bitmap X page s)))"
      using Cons unmap_window(3)[OF assms(1)] by simp
    from unmapped_set_insert[OF assms(1) _ Cons.prems(2) al this] False Cons.prems(1) show ?thesis by auto
  qed
qed

text \<open>The ranges on which \<open>mmap\<close> and \<open>munmap\<close> run.\<close>

definition user_range :: "u64 \<Rightarrow> nat \<Rightarrow> bool" where
  "user_range start n \<longleftrightarrow>
     page_aligned start \<and> USER_TEXT_BASE \<le> start \<and> unat start + n * PAGE_SIZE \<le> 0x480000"

lemma user_rangeD:
  assumes "user_range start n" "i < n" "x86_laws X"
  shows "user_window (nth_page start i)" "unat (nth_page start i) = unat start + i * PAGE_SIZE"
    "nth_addr X start i = Inr (nth_page start i)" "page_of X (nth_page start i) = nth_page start i"
proof -
  have r: "page_aligned start" "USER_TEXT_BASE \<le> start" "unat start + n * PAGE_SIZE \<le> 0x480000"
    using assms(1) by (simp_all add: user_range_def)
  note w = nth_page_window[OF r assms(2)]
  show "user_window (nth_page start i)" "unat (nth_page start i) = unat start + i * PAGE_SIZE" by (rule w)+
  have "i * PAGE_SIZE \<le> n * PAGE_SIZE" using assms(2) by (intro mult_le_mono1) simp
  then have "unat start + i * PAGE_SIZE \<le> 0x480000" using r(3) by linarith
  then have "unat start + i * PAGE_SIZE < 2 ^ 64" by (rule le_less_trans) simp
  from nth_addr_ok[OF assms(3) w(1) this]
  show "nth_addr X start i = Inr (nth_page start i)" "page_of X (nth_page start i) = nth_page start i" .
qed

lemma unmap_loop_spec:
  assumes "x86_laws X" "user_range start n" "set is \<subseteq> {..<n}" "vm_ok X s"
  shows "\<exists>s'. unmap_loop X start is s = Inr s' \<and> unmapped_set X (nth_page start ` set is) s s'"
  using assms(3,4)
proof (induction "is" arbitrary: s)
  case Nil
  then show ?case by (simp add: unmapped_set_empty)
next
  case (Cons i "is")
  have i: "i < n" using Cons.prems(1) by simp
  note r = user_rangeD[OF assms(2) i assms(1)]
  have al: "\<forall>pg \<in> nth_page start ` set is. page_aligned pg"
    using user_rangeD(1)[OF assms(2) _ assms(1)] Cons.prems(1) user_window_aligned by auto
  let ?s = "snd (unmap_4k_and_free_bitmap X (nth_page start i) s)"
  obtain s' where s': "unmap_loop X start is ?s = Inr s'" "unmapped_set X (nth_page start ` set is) ?s s'"
    using Cons.IH[OF _ unmap_window(3)[OF assms(1) r(1) Cons.prems(2)]] Cons.prems(1) by auto
  from unmapped_set_insert[OF assms(1) r(1) Cons.prems(2) al s'(2)] s'(1) r(3) show ?case by simp
qed

lemma map_anon_loop_spec:
  assumes "x86_laws X" "user_range start n" "set is \<subseteq> {..<n}" "vm_ok X s"
  shows "\<exists>okk s'. map_anon_loop X start fl is s = Inr (okk, s')
    \<and> vm_edit X (nth_page start ` set is) s s'
    \<and> (\<forall>pg f. page_aligned pg \<longrightarrow> translate X (fst s) pg = Some f \<longrightarrow> translate X (fst s') pg = Some f)
    \<and> (okk \<longrightarrow> (\<forall>i \<in> set is. translate X (fst s) (nth_page start i) = None
          \<and> translate X (fst s') (nth_page start i) \<noteq> None))"
  using assms(3,4)
proof (induction "is" arbitrary: s)
  case Nil
  show ?case by (intro exI[of _ True] exI[of _ s]) (simp add: edit_refl)
next
  case (Cons i "is")
  have i: "i < n" using Cons.prems(1) by simp
  note r = user_rangeD[OF assms(2) i assms(1)] and al = user_window_aligned[OF user_rangeD(1)[OF assms(2) i assms(1)]]
  obtain o1 s1 where m: "map_one X fl (nth_page start i) s = (o1, s1)" by (cases "map_one X fl (nth_page start i) s")
  note k = map_one_keeps[OF assms(1) al Cons.prems(2) m] and v1 = map_one_ok[OF assms(1) al Cons.prems(2) m]
  have e1: "vm_edit X (nth_page start ` set (i # is)) s s1" by (rule vm_edit_map[OF _ m]) simp
  show ?case
  proof (cases o1)
    case False
    then show ?thesis using r(3,4) m e1 k by auto
  next
    case True
    note mm = map_one_maps[OF assms(1) al Cons.prems(2) m[unfolded eqTrueI[OF True]]]
    obtain okk s' where s': "map_anon_loop X start fl is s1 = Inr (okk, s')"
      "vm_edit X (nth_page start ` set is) s1 s'"
      "\<forall>pg f. page_aligned pg \<longrightarrow> translate X (fst s1) pg = Some f \<longrightarrow> translate X (fst s') pg = Some f"
      "okk \<longrightarrow> (\<forall>i \<in> set is. translate X (fst s1) (nth_page start i) = None
          \<and> translate X (fst s') (nth_page start i) \<noteq> None)"
      using Cons.IH[OF _ v1] Cons.prems(1) by auto
    have "vm_edit X (nth_page start ` set (i # is)) s s'"
      using vm_edit_trans[OF vm_edit_mono[OF s'(2)] e1] by auto
    moreover have "translate X (fst s) (nth_page start j) = None" if "j \<in> set is" "okk" for j
    proof -
      have "page_aligned (nth_page start j)"
        using user_rangeD(1)[OF assms(2) _ assms(1)] user_window_aligned that(1) Cons.prems(1) by auto
      then show ?thesis using s'(4) that mm(1) mm(3)[of "nth_page start j"] k by (metis option.exhaust option.distinct(1))
    qed
    moreover have "translate X (fst s') (nth_page start i) \<noteq> None" using mm(2) s'(3) al by auto
    ultimately show ?thesis using s' r(3,4) m True k mm(1) by auto
  qed
qed

end
