(* ===== verification/Rock_Vm_Calls.thy ===== *)
theory Rock_Vm_Calls
  imports Rock_Vm
begin

text \<open>
  What \<open>brk\<close>, \<open>mmap\<close> and \<open>munmap\<close> guarantee: they return (no panic), keep every frame owned
  by at most one page and never free a mapped one, and change exactly the mappings they announce.
\<close>

section \<open>Page table and allocator of the kernel\<close>

definition kvm :: "'pt kernel \<Rightarrow> 'pt \<times> falloc" where
  "kvm k = (page_table k, the (lock_allocator (mem k)))"

definition set_kvm :: "'pt \<times> falloc \<Rightarrow> 'pt kernel \<Rightarrow> 'pt kernel" where
  "set_kvm s k = k\<lparr>page_table := fst s, mem := unlock_allocator (snd s) (mem k)\<rparr>"

definition kvm_ok :: "'pt x86 \<Rightarrow> 'pt kernel \<Rightarrow> bool" where
  "kvm_ok X k \<longleftrightarrow> lock_allocator (mem k) \<noteq> None \<and> vm_ok X (kvm k)"

abbreviation tr :: "'pt x86 \<Rightarrow> 'pt kernel \<Rightarrow> u64 \<Rightarrow> u64 option" where
  "tr X k pg \<equiv> translate X (page_table k) pg"

lemma lock_unlock [simp]: "lock_allocator (unlock_allocator fa m) = Some fa"
  by (simp add: lock_allocator_def unlock_allocator_def)

lemma kvm_set [simp]: "kvm (set_kvm s k) = s" "page_table (set_kvm s k) = fst s"
  by (simp_all add: kvm_def set_kvm_def)

lemma kvm_ok_set: "kvm_ok X (set_kvm s k) \<longleftrightarrow> vm_ok X s"
  by (simp add: kvm_ok_def) (simp add: set_kvm_def)

lemma fst_kvm [simp]: "fst (kvm k) = page_table k"
  by (simp add: kvm_def)

lemma current_proc_set_kvm [simp]: "current_proc (set_kvm s k) t p = current_proc k t p"
  by (simp add: current_proc_def set_kvm_def)

lemma CURRENT_SLOT_set_kvm [simp]: "CURRENT_SLOT (set_kvm s k) = CURRENT_SLOT k"
  "TABLE (set_kvm s k) = TABLE k" "VM_AREA_NEXT_ID (set_kvm s k) = VM_AREA_NEXT_ID k"
  by (simp_all add: set_kvm_def)

lemma update_slot_fields [simp]:
  "page_table (update_slot i f k) = page_table k" "mem (update_slot i f k) = mem k"
  "CURRENT_SLOT (update_slot i f k) = CURRENT_SLOT k"
  by (simp_all add: update_slot_def split: option.splits)

lemma kvm_ok_cong: "mem k' = mem k \<Longrightarrow> page_table k' = page_table k \<Longrightarrow> kvm_ok X k' = kvm_ok X k"
  by (simp add: kvm_ok_def kvm_def)

lemma with_mapper_kvm:
  "lock_allocator (mem k) \<noteq> None \<Longrightarrow>
    with_mapper f k = obind (f (kvm k)) (\<lambda>(okk, s'). Inr (okk, set_kvm s' k))"
  by (auto simp: with_mapper_def kvm_def set_kvm_def obind_def split: sum.splits)

lemma set_kvm_kvm: "lock_allocator (mem k) \<noteq> None \<Longrightarrow> set_kvm (kvm k) k = k"
  by (auto simp: set_kvm_def kvm_def lock_allocator_def unlock_allocator_def split: option.splits)

lemma le_pred_iff: "(b :: u64) \<noteq> 0 \<Longrightarrow> a \<le> b - 1 \<longleftrightarrow> a < b"
proof -
  assume b: "b \<noteq> 0"
  then have "0 < unat b" by (simp add: unat_gt_0)
  then show ?thesis using b by (auto simp: word_le_nat_alt word_less_nat_alt unat_minus_one)
qed

section \<open>The heap\<close>

lemma proc_brk_bounds:
  "current_proc k t p \<Longrightarrow> USER_BRK_BASE \<le> brk_end p \<and> brk_end p \<le> USER_BRK_LIMIT"
  using current_procD(6) by (auto simp: proc_ok_def)

lemma brk_end_update:
  assumes "current_proc k t p" "USER_BRK_BASE \<le> b" "b \<le> USER_BRK_LIMIT"
  shows "current_proc (update_slot (CURRENT_SLOT k) (\<lambda>p. p\<lparr>brk_end := b\<rparr>) k)
    (t[CURRENT_SLOT k := Some (p\<lparr>brk_end := b\<rparr>)]) (p\<lparr>brk_end := b\<rparr>)"
  using assms current_procD(6)[OF assms(1)]
  by (intro current_proc_update[OF assms(1)]) (simp_all add: proc_ok_def)

lemma brk_page_containing:
  "x86_laws X \<Longrightarrow> unat v \<le> 0x410000 \<Longrightarrow> page_containing X v = Inr (page_floor v)"
proof -
  assume a: "x86_laws X" "unat v \<le> 0x410000"
  then have "virt_new X v" by (intro x86_virt) simp_all
  then show ?thesis using a by (simp add: page_containing_def x86_page_of)
qed

text \<open>The pages \<open>brk\<close> touches lie in the user window.\<close>

lemma brk_pages_window:
  assumes "page_aligned pg" "page_floor a \<le> pg" "pg < b" "USER_BRK_BASE \<le> a" "b \<le> USER_BRK_LIMIT"
  shows "user_window pg"
proof -
  have "page_aligned USER_BRK_BASE" by (simp add: page_aligned_def rock_consts)
  then have "USER_BRK_BASE \<le> page_floor a" using assms(4) by (simp add: aligned_le_floor)
  then have "USER_BRK_BASE \<le> pg" using assms(2) by (rule order_trans)
  then show ?thesis using assms(1,3,5)
    by (simp add: user_window_def rock_consts word_le_nat_alt word_less_nat_alt)
qed

lemma map_brk_grow_spec:
  assumes "x86_laws X" "kvm_ok X k" "USER_BRK_BASE \<le> old" "old < new" "new \<le> USER_BRK_LIMIT"
  shows "\<exists>okk s'. map_brk_grow X old new fl k = Inr (okk, set_kvm s' k) \<and> vm_ok X s'
    \<and> (\<forall>pg f. page_aligned pg \<longrightarrow> tr X k pg = Some f \<longrightarrow> translate X (fst s') pg = Some f)
    \<and> (\<forall>pg. page_aligned pg \<longrightarrow> \<not> (page_floor old \<le> pg \<and> pg < new) \<longrightarrow> translate X (fst s') pg = tr X k pg)
    \<and> (okk \<longrightarrow> (\<forall>pg. page_aligned pg \<longrightarrow> page_floor old \<le> pg \<longrightarrow> pg < new \<longrightarrow> translate X (fst s') pg \<noteq> None))"
proof -
  let ?P = "{pg. page_aligned pg \<and> page_floor old \<le> pg \<and> pg < new}"
  let ?pages = "page_range X (page_floor old) (page_floor (new - 1))"
  have n: "unat new \<le> 0x410000" "unat old \<le> 0x410000" "new \<noteq> 0"
    using assms(4,5) by (auto simp: word_le_nat_alt word_less_nat_alt rock_consts)
  then have n1: "unat (new - 1) \<le> 0x410000" by (simp add: unat_minus_one)
  have set: "set ?pages = ?P"
    using aligned_le_floor[of _ "new - 1"] le_pred_iff[OF n(3)] by (auto simp: set_page_range[OF assms(1)])
  have win: "?P \<subseteq> {pg. user_window pg}" using brk_pages_window assms(3,5) by blast
  obtain okk s' where g: "grow_pages X fl ?pages (kvm k) = (okk, s')" by (cases "grow_pages X fl ?pages (kvm k)")
  have v: "vm_ok X (kvm k)" "lock_allocator (mem k) \<noteq> None" using assms(2) by (simp_all add: kvm_ok_def)
  have ed: "vm_edit X ?P (kvm k) s'" using grow_pages_edit[of ?pages ?P X "kvm k" fl] g set by simp
  have e: "map_brk_grow X old new fl k = Inr (okk, set_kvm s' k)"
    using n n1 g by (simp add: map_brk_grow_def brk_page_containing[OF assms(1)] with_mapper_kvm[OF v(2)])
  have al: "\<forall>pg \<in> set ?pages. page_aligned pg" using set by simp
  note sp = grow_pages_spec[OF assms(1) al v(1) g]
  have fr: "translate X (fst s') pg = tr X k pg" if "page_aligned pg" "\<not> (page_floor old \<le> pg \<and> pg < new)" for pg
    using vm_edit_frame[OF ed assms(1) win v(1) that(1)] that(2) by simp
  show ?thesis
    using e vm_edit_ok[OF ed assms(1) win v(1)] sp fr unfolding set
    by (intro exI[of _ okk] exI[of _ s']) simp
qed

lemma map_brk_shrink_spec:
  assumes "x86_laws X" "kvm_ok X k" "USER_BRK_BASE \<le> new" "new < old" "old \<le> USER_BRK_LIMIT"
  shows "\<exists>u. map_brk_shrink X new old k = Inr (True, set_kvm u k)
    \<and> unmapped_set X {pg. page_aligned pg \<and> new \<le> pg \<and> pg < old} (kvm k) u"
proof -
  let ?P = "{pg. page_aligned pg \<and> new \<le> pg \<and> pg < old}"
  have n: "unat new \<le> 0x410000" "unat old \<le> 0x410000" "saturating_sub old 1 = old - 1" "old \<noteq> 0"
    using assms(4,5) by (auto simp: word_le_nat_alt word_less_nat_alt rock_consts saturating_sub_def)
  then have n1: "unat (old - 1) \<le> 0x410000" by (simp add: unat_minus_one)
  obtain lo where lo: "align_up new 0x1000 = Inr lo" "page_aligned lo" "unat lo \<le> 0x410000"
    "\<And>pg. page_aligned pg \<Longrightarrow> lo \<le> pg \<longleftrightarrow> new \<le> pg" using align_up_page[OF n(1)] by blast
  have v: "vm_ok X (kvm k)" "lock_allocator (mem k) \<noteq> None" using assms(2) by (simp_all add: kvm_ok_def)
  have nc: "\<not> (old \<le> new \<or> new < USER_BRK_BASE)" using assms(3,4) by (simp add: not_le not_less)
  have "page_floor new \<le> new" using aligned_le_floor[of "page_floor new" new] by simp
  then have win: "\<forall>pg \<in> ?P. user_window pg"
    using brk_pages_window[OF _ _ _ assms(3,5)] order_trans[of "page_floor new" new] by blast
  show ?thesis
  proof (cases "old \<le> lo")
    case True
    have "?P = {}"
    proof (rule equals0I)
      fix pg assume "pg \<in> ?P"
      then have "lo \<le> pg" "pg < old" using lo(4) by simp_all
      then show False using True by (meson leD order_trans)
    qed
    then have "unmapped_set X ?P (kvm k) (kvm k)" using v(1) by (simp only: unmapped_set_empty)
    moreover have "map_brk_shrink X new old k = Inr (True, k)"
      using True nc lo(1) by (simp add: map_brk_shrink_def)
    ultimately show ?thesis using set_kvm_kvm[OF v(2)] by (intro exI[of _ "kvm k"]) simp
  next
    case False
    let ?pages = "page_range X lo (page_floor (old - 1))"
    have set: "set ?pages = ?P"
      using aligned_le_floor[of _ "old - 1"] le_pred_iff[OF n(4)] lo(4)
      by (auto simp: set_page_range[OF assms(1) lo(2)])
    have "unmapped_set X ?P (kvm k) (shrink_pages X ?pages (kvm k))"
      using shrink_pages_spec[OF assms(1) _ v(1), of ?pages] win unfolding set by blast
    moreover have "map_brk_shrink X new old k = Inr (True, set_kvm (shrink_pages X ?pages (kvm k)) k)"
      using False nc lo n n1
      by (simp add: map_brk_shrink_def brk_page_containing[OF assms(1)] with_mapper_kvm[OF v(2)] page_floor_id)
    ultimately show ?thesis by blast
  qed
qed

text \<open>
  (C7) Growing the heap either fails with \<open>-ENOMEM\<close> and leaves the break, or moves the break to the
  requested address with every page from the old break up to it mapped; in both cases it returns,
  existing mappings keep their frames, pages outside the new part of the heap are untouched, and no
  frame is shared or both mapped and free.
\<close>

theorem brk_grow_sound:
  assumes "x86_laws X" "kvm_ok X k" "current_proc k t p" "brk_end p < addr" "addr \<le> USER_BRK_LIMIT"
  shows "\<exists>r k' t' p'. sys_brk X addr k = Inr (r, k') \<and> kvm_ok X k' \<and> current_proc k' t' p'
    \<and> (r = errno 12 \<and> p' = p
       \<or> r = addr \<and> p' = p\<lparr>brk_end := addr\<rparr>
         \<and> (\<forall>pg. page_aligned pg \<longrightarrow> page_floor (brk_end p) \<le> pg \<longrightarrow> pg < addr \<longrightarrow> tr X k' pg \<noteq> None))
    \<and> (\<forall>pg f. page_aligned pg \<longrightarrow> tr X k pg = Some f \<longrightarrow> tr X k' pg = Some f)
    \<and> (\<forall>pg. page_aligned pg \<longrightarrow> \<not> (page_floor (brk_end p) \<le> pg \<and> pg < addr) \<longrightarrow> tr X k' pg = tr X k pg)"
proof -
  note b = proc_brk_bounds[OF assms(3)] and c = current_procD[OF assms(3)]
  obtain okk s' where g: "map_brk_grow X (brk_end p) addr user_data_flags k = Inr (okk, set_kvm s' k)"
    "vm_ok X s'"
    "\<forall>pg f. page_aligned pg \<longrightarrow> tr X k pg = Some f \<longrightarrow> translate X (fst s') pg = Some f"
    "\<forall>pg. page_aligned pg \<longrightarrow> \<not> (page_floor (brk_end p) \<le> pg \<and> pg < addr) \<longrightarrow> translate X (fst s') pg = tr X k pg"
    "okk \<longrightarrow> (\<forall>pg. page_aligned pg \<longrightarrow> page_floor (brk_end p) \<le> pg \<longrightarrow> pg < addr \<longrightarrow> translate X (fst s') pg \<noteq> None)"
    using map_brk_grow_spec[OF assms(1,2) _ assms(4,5)] b by blast
  have base: "USER_BRK_BASE \<le> addr" "addr \<noteq> 0" "\<not> addr < brk_end p" "addr \<noteq> brk_end p" "\<not> USER_BRK_LIMIT < addr"
    "\<not> addr < USER_BRK_BASE"
    using b assms(4,5) by (auto simp: word_le_nat_alt word_less_nat_alt rock_consts)
  have e: "sys_brk X addr k = (if okk then Inr (addr, update_slot (CURRENT_SLOT k) (\<lambda>p. p\<lparr>brk_end := addr\<rparr>) (set_kvm s' k))
      else Inr (errno 12, set_kvm s' k))"
    using c(1,3,4) base g(1) by (simp add: sys_brk_def slot_at_def Let_def)
  show ?thesis
  proof (cases okk)
    case True
    let ?k = "update_slot (CURRENT_SLOT k) (\<lambda>p. p\<lparr>brk_end := addr\<rparr>) (set_kvm s' k)"
    have "current_proc (set_kvm s' k) t p" using assms(3) by simp
    from brk_end_update[OF this base(1) assms(5)] have cp: "\<exists>t'. current_proc ?k t' (p\<lparr>brk_end := addr\<rparr>)" by auto
    have "kvm_ok X ?k" using g(2) kvm_ok_cong[of ?k "set_kvm s' k" X] by (simp add: kvm_ok_set)
    then show ?thesis using e True cp g(3-5) by auto
  next
    case False
    then show ?thesis using e g(2-4) assms(3)
      by (intro exI[of _ "errno 12"] exI[of _ "set_kvm s' k"] exI[of _ t] exI[of _ p]) (simp add: kvm_ok_set)
  qed
qed

text \<open>A kernel with three free frames, an empty page table and the finite-map page table operations.\<close>

definition vm_demo :: "(u64 \<Rightarrow> u64 option) kernel" where
  "vm_demo = (demo_kernel None)\<lparr>mem := memory_init 0 demo_map memory_static\<rparr>"

lemma vm_demo_ok: "kvm_ok map_x86 vm_demo"
proof -
  have "lock_allocator (mem vm_demo) = Some (boot_falloc demo_map)"
    by (simp add: vm_demo_def memory_init_def lock_allocator_def boot_falloc_def split: prod.splits)
  then show ?thesis using boot_falloc_ok[of demo_map]
    by (simp add: kvm_ok_def vm_ok_def kvm_def) (simp add: map_x86_def vm_demo_def demo_kernel_def kernel_static_def)
qed

lemma vm_demo_current: "current_proc vm_demo (demo_table None) demo_init"
  using demo_current[of None] by (simp add: current_proc_def vm_demo_def)

theorem brk_grow_sound_witness:
  "\<exists>r k'. sys_brk map_x86 0x405000 vm_demo = Inr (r, k') \<and> kvm_ok map_x86 k' \<and> (r = errno 12 \<or> r = 0x405000)"
  using brk_grow_sound[OF map_x86_laws vm_demo_ok vm_demo_current, of "0x405000"]
  by (auto simp: demo_fields USER_BRK_LIMIT_def)

text \<open>
  (C8) Shrinking the heap always succeeds: it moves the break, unmaps exactly the pages that lie
  wholly above the new break, gives exactly their frames back to the allocator, and touches no other
  page.
\<close>

theorem brk_shrink_exact:
  assumes "x86_laws X" "kvm_ok X k" "current_proc k t p" "USER_BRK_BASE \<le> addr" "addr < brk_end p"
  shows "\<exists>k' t'. sys_brk X addr k = Inr (addr, k') \<and> kvm_ok X k'
    \<and> current_proc k' t' (p\<lparr>brk_end := addr\<rparr>)
    \<and> (\<forall>pg. page_aligned pg \<longrightarrow> tr X k' pg = (if addr \<le> pg \<and> pg < brk_end p then None else tr X k pg))
    \<and> free_addrs (snd (kvm k')) = free_addrs (snd (kvm k))
        \<union> {f. \<exists>pg. page_aligned pg \<and> addr \<le> pg \<and> pg < brk_end p \<and> tr X k pg = Some f}"
proof -
  note b = proc_brk_bounds[OF assms(3)] and c = current_procD[OF assms(3)]
  obtain u where u: "map_brk_shrink X addr (brk_end p) k = Inr (True, set_kvm u k)"
    "unmapped_set X {pg. page_aligned pg \<and> addr \<le> pg \<and> pg < brk_end p} (kvm k) u"
    using map_brk_shrink_spec[OF assms(1,2,4,5)] b by blast
  have lim: "addr \<le> USER_BRK_LIMIT" using assms(5) b by (meson order_less_imp_le order_trans)
  then have base: "addr \<noteq> 0" "\<not> USER_BRK_LIMIT < addr" "\<not> addr < USER_BRK_BASE"
    using assms(4) by (auto simp: rock_consts)
  let ?k = "update_slot (CURRENT_SLOT k) (\<lambda>p. p\<lparr>brk_end := addr\<rparr>) (set_kvm u k)"
  have e: "sys_brk X addr k = Inr (addr, ?k)"
    using c(1,3,4) base assms(5) u(1) by (simp add: sys_brk_def slot_at_def Let_def)
  have "current_proc (set_kvm u k) t p" using assms(3) by simp
  from brk_end_update[OF this assms(4) lim] have cp: "\<exists>t'. current_proc ?k t' (p\<lparr>brk_end := addr\<rparr>)" by auto
  have kv: "kvm ?k = u" using kvm_set(1)[of u k] by (simp add: kvm_def)
  have "kvm_ok X ?k" using u(2) kvm_ok_cong[of ?k "set_kvm u k" X] by (simp add: kvm_ok_set unmapped_set_def)
  then show ?thesis using e cp u(2) kv by (auto simp: unmapped_set_def)
qed

text \<open>The break moved up and down again: the witness shrinks from a break at 0x405000.\<close>

definition vm_demo_grown :: "(u64 \<Rightarrow> u64 option) kernel" where
  "vm_demo_grown = update_slot 0 (\<lambda>p. p\<lparr>brk_end := 0x405000\<rparr>) vm_demo"

theorem brk_shrink_exact_witness:
  "\<exists>k'. sys_brk map_x86 0x404000 vm_demo_grown = Inr (0x404000, k') \<and> kvm_ok map_x86 k'"
proof -
  have s: "CURRENT_SLOT vm_demo = 0" by (simp add: vm_demo_def demo_kernel_def kernel_static_def)
  have c: "current_proc vm_demo_grown ((demo_table None)[0 := Some (demo_init\<lparr>brk_end := 0x405000\<rparr>)])
      (demo_init\<lparr>brk_end := 0x405000\<rparr>)"
    using brk_end_update[OF vm_demo_current, of "0x405000"] s by (simp add: vm_demo_grown_def rock_consts)
  have ok: "kvm_ok map_x86 vm_demo_grown"
    using vm_demo_ok kvm_ok_cong[of vm_demo_grown vm_demo map_x86] by (simp add: vm_demo_grown_def)
  show ?thesis using brk_shrink_exact[OF map_x86_laws ok c, of "0x404000"] by (auto simp: USER_BRK_BASE_def)
qed

lemma brk_query:
  assumes "current_proc k t p"
  shows "sys_brk X 0 k = Inr (brk_end p, k)"
    and "addr \<noteq> 0 \<Longrightarrow> addr < USER_BRK_BASE \<or> USER_BRK_LIMIT < addr \<Longrightarrow> sys_brk X addr k = Inr (errno 12, k)"
  using current_procD[OF assms] by (auto simp: sys_brk_def slot_at_def)

section \<open>Anonymous mappings\<close>

text \<open>
  The cursor for mappings without an address: aligned and not below the start of the region. It only
  ever moves up, by whole pages, until it wraps around the 64-bit address space.
\<close>

definition mmap_ready :: "'pt kernel \<Rightarrow> bool" where
  "mmap_ready k \<longleftrightarrow> page_aligned (NEXT_MMAP k) \<and> USER_MMAP_BASE \<le> NEXT_MMAP k"

definition pages_for :: "u64 \<Rightarrow> nat" where
  "pages_for len = (unat len + 4095) div 4096"

lemma pages_for_bounds:
  assumes "len \<noteq> 0" "unat len \<le> 0x70000"
  shows "0 < pages_for len" "pages_for len * 4096 \<le> 0x70000" "unat len \<le> pages_for len * 4096"
proof -
  have "0 < unat len" using assms(1) by (simp add: unat_gt_0)
  then show "0 < pages_for len" by (simp add: pages_for_def div_greater_zero_iff)
  show "pages_for len * 4096 \<le> 0x70000"
    using round_up_le_iff[of "unat len" "0x70"] assms(2) unfolding pages_for_def by simp
  show "unat len \<le> pages_for len * 4096"
    using round_up_le_iff[of "unat len" "pages_for len"] by (simp add: pages_for_def)
qed

lemma mmap_addr_spec:
  assumes "mmap_ready k" "len \<noteq> 0" "unat len \<le> 0x70000" "mmap_addr addr len (pages_for len) k = (r, k')"
  shows "(\<exists>x. k' = k\<lparr>NEXT_MMAP := x\<rparr>) \<and> (\<forall>e. r = Inl e \<longrightarrow> e \<in> {errno 12, errno 22})
    \<and> (\<forall>a. r = Inr a \<longrightarrow> USER_MMAP_BASE \<le> a \<and> user_range a (pages_for len) \<and> (addr \<noteq> 0 \<longrightarrow> a = addr))"
proof -
  note n = pages_for_bounds[OF assms(2,3)]
  let ?b = "of_nat (pages_for len) * 0x1000 :: u64"
  have "?b = of_nat (pages_for len * 4096)" by simp
  then have b: "unat ?b = pages_for len * 4096" using n(2) unat_of_nat_u64[of "pages_for len * 4096"] by simp
  have kk: "\<exists>x. k = k\<lparr>NEXT_MMAP := x\<rparr>" by (intro exI[of _ "NEXT_MMAP k"]) simp
  have tb: "USER_TEXT_BASE \<le> a" if "USER_MMAP_BASE \<le> a" for a
    using that by (simp add: rock_consts word_le_nat_alt)
  show ?thesis
  proof (cases "addr = 0")
    case True
    have "unat (NEXT_MMAP k) + pages_for len * 4096 \<le> 0x480000" if "\<not> saturating_add (NEXT_MMAP k) ?b > USER_MMAP_LIMIT"
      using that b by (simp add: word_less_nat_alt unat_saturating_add USER_MMAP_LIMIT_def not_less min_def split: if_splits)
    then show ?thesis using assms(1,4) True tb
      by (auto simp: mmap_addr_def Let_def mmap_ready_def user_range_def PAGE_SIZE_def split: if_splits)
  next
    case False
    have "unat addr + pages_for len * 4096 \<le> 0x480000"
      if a: "unat addr mod PAGE_SIZE = 0" "\<not> saturating_add addr len > USER_MMAP_LIMIT"
    proof -
      have le: "unat addr + unat len \<le> 0x480000" using a(2)
        by (simp add: word_less_nat_alt unat_saturating_add USER_MMAP_LIMIT_def not_less min_def split: if_splits)
      obtain q where q: "unat addr = q * 4096" using a(1) by (metis PAGE_SIZE_def mod_0_imp_dvd dvd_div_mult_self)
      have "unat len \<le> (0x480 - q) * 4096" using le q by (simp add: diff_mult_distrib)
      then have "pages_for len * 4096 \<le> (0x480 - q) * 4096"
        using round_up_le_iff[of "unat len" "0x480 - q"] by (simp add: pages_for_def)
      then show ?thesis using q le by (simp add: diff_mult_distrib)
    qed
    then show ?thesis using assms(4) False tb kk
      by (auto simp: mmap_addr_def Let_def user_range_def page_aligned_def PAGE_SIZE_def not_less split: if_splits)
  qed
qed

lemma NEXT_MMAP_irrelevant [simp]:
  "kvm (k\<lparr>NEXT_MMAP := x\<rparr>) = kvm k" "kvm_ok X (k\<lparr>NEXT_MMAP := x\<rparr>) = kvm_ok X k"
  "current_proc (k\<lparr>NEXT_MMAP := x\<rparr>) t p = current_proc k t p"
  "kvm (k\<lparr>VM_AREA_NEXT_ID := x\<rparr>) = kvm k" "kvm_ok X (k\<lparr>VM_AREA_NEXT_ID := x\<rparr>) = kvm_ok X k"
  "current_proc (k\<lparr>VM_AREA_NEXT_ID := x\<rparr>) t p = current_proc k t p"
  by (simp_all add: kvm_def kvm_ok_def current_proc_def)

lemma map_user_anon_pages_spec:
  assumes "x86_laws X" "kvm_ok X k" "user_range start n"
  shows "\<exists>okk s'. map_user_anon_pages X start n fl k = Inr (okk, set_kvm s' k) \<and> vm_ok X s'
    \<and> (\<forall>pg f. page_aligned pg \<longrightarrow> tr X k pg = Some f \<longrightarrow> translate X (fst s') pg = Some f)
    \<and> (\<forall>pg. page_aligned pg \<longrightarrow> (\<forall>i < n. pg \<noteq> nth_page start i) \<longrightarrow> translate X (fst s') pg = tr X k pg)
    \<and> (okk \<longrightarrow> (\<forall>i < n. tr X k (nth_page start i) = None \<and> translate X (fst s') (nth_page start i) \<noteq> None))"
proof -
  have v: "vm_ok X (kvm k)" "lock_allocator (mem k) \<noteq> None" using assms(2) by (simp_all add: kvm_ok_def)
  have sub: "set [0..<n] \<subseteq> {..<n}" by auto
  obtain okk s' where m: "map_anon_loop X start fl [0..<n] (kvm k) = Inr (okk, s')"
    "vm_edit X (nth_page start ` set [0..<n]) (kvm k) s'"
    "\<forall>pg f. page_aligned pg \<longrightarrow> translate X (fst (kvm k)) pg = Some f \<longrightarrow> translate X (fst s') pg = Some f"
    "okk \<longrightarrow> (\<forall>i \<in> set [0..<n]. translate X (fst (kvm k)) (nth_page start i) = None
          \<and> translate X (fst s') (nth_page start i) \<noteq> None)"
    using map_anon_loop_spec[OF assms(1,3) sub v(1)] by blast
  have win: "nth_page start ` set [0..<n] \<subseteq> {pg. user_window pg}"
    using user_rangeD(1)[OF assms(3) _ assms(1)] by auto
  have e: "map_user_anon_pages X start n fl k = Inr (okk, set_kvm s' k)"
    using m(1) by (simp add: map_user_anon_pages_def with_mapper_kvm[OF v(2)])
  have fr: "translate X (fst s') pg = tr X k pg" if "page_aligned pg" "\<forall>i < n. pg \<noteq> nth_page start i" for pg
  proof -
    have "pg \<notin> nth_page start ` set [0..<n]" using that(2) by auto
    from vm_edit_frame[OF m(2) assms(1) win v(1) that(1) this] show ?thesis by simp
  qed
  show ?thesis using e vm_edit_ok[OF m(2) assms(1) win v(1)] m(3,4) fr
    by (intro exI[of _ okk] exI[of _ s']) auto
qed

lemma vm_areas_update:
  assumes "current_proc k t p" "list_all area_ok (f p)"
  shows "\<exists>t'. current_proc (update_slot (CURRENT_SLOT k) (\<lambda>p. p\<lparr>vm_areas := f p\<rparr>) k) t' (p\<lparr>vm_areas := f p\<rparr>)"
  using assms(2) current_procD(6)[OF assms(1)]
  by (intro exI[of _ "t[CURRENT_SLOT k := Some (p\<lparr>vm_areas := f p\<rparr>)]"]
      current_proc_update[OF assms(1), of "\<lambda>p. p\<lparr>vm_areas := f p\<rparr>"]) (simp_all add: proc_ok_def)

text \<open>The outcome of a mapping at \<open>a\<close>: the new area, and what happens to the pages.\<close>

definition mmap_result :: "'pt x86 \<Rightarrow> 'pt kernel \<Rightarrow> process \<Rightarrow> u64 \<Rightarrow> nat \<Rightarrow> u64 \<Rightarrow> u64 \<times> 'pt kernel \<Rightarrow> bool" where
  "mmap_result X k p a n prot res \<longleftrightarrow>
     (case res of (r, k') \<Rightarrow> kvm_ok X k'
      \<and> (\<forall>pg f. page_aligned pg \<longrightarrow> tr X k pg = Some f \<longrightarrow> tr X k' pg = Some f)
      \<and> (\<forall>pg. page_aligned pg \<longrightarrow> (\<forall>i < n. pg \<noteq> nth_page a i) \<longrightarrow> tr X k' pg = tr X k pg)
      \<and> (r = errno 12 \<and> (\<exists>t'. current_proc k' t' p)
         \<or> r = a \<and> (\<exists>t' ar. current_proc k' t' (p\<lparr>vm_areas := vm_areas p @ [ar]\<rparr>)
              \<and> virt_start ar = a \<and> va_pages ar = n \<and> va_writable ar = (prot AND PROT_WRITE \<noteq> 0) \<and> area_ok ar)
           \<and> (\<forall>i < n. tr X k (nth_page a i) = None \<and> tr X k' (nth_page a i) \<noteq> None)))"

lemma mmap_install_spec:
  assumes "x86_laws X" "kvm_ok X k" "current_proc k t p" "USER_MMAP_BASE \<le> a" "user_range a n" "0 < n"
  shows "\<exists>res. mmap_install X a n prot k = Inr res \<and> mmap_result X k p a n prot res"
proof -
  have vn: "virt_new X a" using assms(5) by (intro x86_virt[OF assms(1)]) (auto simp: user_range_def)
  obtain okk s' where m: "map_user_anon_pages X a n (mmap_flags prot) k = Inr (okk, set_kvm s' k)" "vm_ok X s'"
    "\<forall>pg f. page_aligned pg \<longrightarrow> tr X k pg = Some f \<longrightarrow> translate X (fst s') pg = Some f"
    "\<forall>pg. page_aligned pg \<longrightarrow> (\<forall>i < n. pg \<noteq> nth_page a i) \<longrightarrow> translate X (fst s') pg = tr X k pg"
    "okk \<longrightarrow> (\<forall>i < n. tr X k (nth_page a i) = None \<and> translate X (fst s') (nth_page a i) \<noteq> None)"
    using map_user_anon_pages_spec[OF assms(1,2,5)] by blast
  show ?thesis
  proof (cases okk)
    case False
    then have "mmap_install X a n prot k = Inr (errno 12, set_kvm s' k)" using vn m(1) by (simp add: mmap_install_def)
    moreover have "mmap_result X k p a n prot (errno 12, set_kvm s' k)"
      unfolding mmap_result_def using m(2-4) assms(3) by (auto simp: kvm_ok_set)
    ultimately show ?thesis by blast
  next
    case True
    let ?ar = "\<lparr>va_id = VM_AREA_NEXT_ID k, virt_start = a, va_pages = n,
        va_writable = (prot AND PROT_WRITE \<noteq> 0), va_executable = (prot AND PROT_EXEC \<noteq> 0)\<rparr>"
    let ?k1 = "(set_kvm s' k)\<lparr>VM_AREA_NEXT_ID := VM_AREA_NEXT_ID k + 1\<rparr>"
    let ?k2 = "update_slot (CURRENT_SLOT k) (\<lambda>p. p\<lparr>vm_areas := vm_areas p @ [?ar]\<rparr>) ?k1"
    have ao: "area_ok ?ar" using assms(4-6) by (auto simp: area_ok_def user_range_def USER_MMAP_LIMIT_def)
    have c1: "current_proc ?k1 t p" using assms(3) by simp
    have "list_all area_ok (vm_areas p @ [?ar])" using ao current_procD(6)[OF c1] by (simp add: proc_ok_def)
    from vm_areas_update[OF c1, of "\<lambda>p. vm_areas p @ [?ar]", OF this]
    obtain t' where t': "current_proc ?k2 t' (p\<lparr>vm_areas := vm_areas p @ [?ar]\<rparr>)" by auto
    have e: "mmap_install X a n prot k = Inr (a, ?k2)"
      using vn m(1) True current_procD[OF assms(3)] by (simp add: mmap_install_def Let_def slot_at_def)
    have "kvm_ok X ?k2" using m(2) kvm_ok_cong[of ?k2 ?k1 X] by (simp add: kvm_ok_set)
    moreover have "\<exists>t' ar. current_proc ?k2 t' (p\<lparr>vm_areas := vm_areas p @ [ar]\<rparr>) \<and> virt_start ar = a
        \<and> va_pages ar = n \<and> va_writable ar = (prot AND PROT_WRITE \<noteq> 0) \<and> area_ok ar"
      using t' ao by (intro exI[of _ t'] exI[of _ ?ar]) simp
    ultimately have "mmap_result X k p a n prot (a, ?k2)"
      unfolding mmap_result_def using m(3-5) True by simp
    then show ?thesis using e by blast
  qed
qed

text \<open>
  (C5) \<open>mmap\<close> returns either \<open>-EINVAL\<close> or \<open>-ENOMEM\<close> with the process as it was, or the address
  of a new area: page aligned, inside the mapping region, at the requested address if one was given,
  long enough for the request, with pages that were not mapped before and are mapped now. In every
  case existing mappings keep their frames and no frame is shared or both mapped and free.
\<close>

theorem mmap_sound:
  assumes "x86_laws X" "kvm_ok X k" "current_proc k t p" "mmap_ready k"
  shows "\<exists>r k' t' p'. sys_mmap X addr len prot k = Inr (r, k') \<and> kvm_ok X k' \<and> current_proc k' t' p'
    \<and> (\<forall>pg f. page_aligned pg \<longrightarrow> tr X k pg = Some f \<longrightarrow> tr X k' pg = Some f)
    \<and> (r \<in> {errno 12, errno 22} \<and> p' = p
       \<or> (\<exists>a. p' = p\<lparr>vm_areas := vm_areas p @ [a]\<rparr> \<and> virt_start a = r \<and> area_ok a
            \<and> (addr \<noteq> 0 \<longrightarrow> r = addr) \<and> unat len \<le> va_pages a * 4096
            \<and> va_writable a = (prot AND PROT_WRITE \<noteq> 0)
            \<and> (\<forall>i < va_pages a. tr X k (nth_page r i) = None \<and> tr X k' (nth_page r i) \<noteq> None)))"
proof (cases "len = 0 \<or> len > USER_MMAP_LIMIT - USER_MMAP_BASE")
  case True
  then show ?thesis using assms(2,3) by (auto simp: sys_mmap_def)
next
  case False
  then have len: "len \<noteq> 0" "unat len \<le> 0x70000" by (auto simp: rock_consts word_less_nat_alt not_less)
  note n = pages_for_bounds[OF len]
  obtain r0 k0 where ma: "mmap_addr addr len (pages_for len) k = (r0, k0)" by (cases "mmap_addr addr len (pages_for len) k")
  note ms = mmap_addr_spec[OF assms(4) len ma]
  have e: "sys_mmap X addr len prot k =
      (case r0 of Inl e \<Rightarrow> Inr (e, k0) | Inr a \<Rightarrow> mmap_install X a (pages_for len) prot k0)"
    using False ma by (cases r0) (simp_all add: sys_mmap_def pages_for_def PAGE_SIZE_def Let_def add.commute)
  obtain x where k0: "k0 = k\<lparr>NEXT_MMAP := x\<rparr>" using ms by blast
  have ok0: "kvm_ok X k0" "current_proc k0 t p" "page_table k0 = page_table k" using assms(2,3) k0 by simp_all
  show ?thesis
  proof (cases r0)
    case (Inl er)
    then have "er \<in> {errno 12, errno 22}" using ms by blast
    then show ?thesis using e Inl ok0 by auto
  next
    case (Inr a)
    then have a: "USER_MMAP_BASE \<le> a" "user_range a (pages_for len)" "addr \<noteq> 0 \<longrightarrow> a = addr" using ms by auto
    obtain r k' where m: "mmap_install X a (pages_for len) prot k0 = Inr (r, k')"
      "mmap_result X k0 p a (pages_for len) prot (r, k')"
      using mmap_install_spec[OF assms(1) ok0(1,2) a(1,2) n(1)] by (metis surj_pair)
    have s: "sys_mmap X addr len prot k = Inr (r, k')" using e Inr m(1) by simp
    from m(2) have b: "kvm_ok X k'" "\<forall>pg f. page_aligned pg \<longrightarrow> tr X k pg = Some f \<longrightarrow> tr X k' pg = Some f"
      by (simp_all add: mmap_result_def ok0(3))
    from m(2) consider (fail) t' where "r = errno 12" "current_proc k' t' p"
      | (good) t' ar where "r = a" "current_proc k' t' (p\<lparr>vm_areas := vm_areas p @ [ar]\<rparr>)" "virt_start ar = a"
          "va_pages ar = pages_for len" "va_writable ar = (prot AND PROT_WRITE \<noteq> 0)" "area_ok ar"
          "\<forall>i < pages_for len. tr X k (nth_page a i) = None \<and> tr X k' (nth_page a i) \<noteq> None"
      unfolding mmap_result_def ok0(3) by auto
    then show ?thesis
    proof cases
      case fail
      then show ?thesis using s b by (intro exI[of _ r] exI[of _ k'] exI[of _ t'] exI[of _ p]) simp
    next
      case good
      then show ?thesis using s b a(3) n(3)
        by (intro exI[of _ r] exI[of _ k'] exI[of _ t'] exI[of _ "p\<lparr>vm_areas := vm_areas p @ [ar]\<rparr>"])
          (auto intro!: exI[of _ ar])
    qed
  qed
qed

theorem mmap_sound_witness:
  "\<exists>r k'. sys_mmap map_x86 0 5000 3 vm_demo = Inr (r, k') \<and> kvm_ok map_x86 k'"
proof -
  have "mmap_ready vm_demo"
    by (simp add: mmap_ready_def vm_demo_def demo_kernel_def kernel_static_def page_aligned_def PAGE_SIZE_def
        USER_MMAP_BASE_def)
  from mmap_sound[OF map_x86_laws vm_demo_ok vm_demo_current this, of 0 5000 3] show ?thesis by blast
qed

section \<open>Unmapping\<close>

text \<open>An area is exactly the given range.\<close>

definition is_range :: "u64 \<Rightarrow> u64 \<Rightarrow> vm_area \<Rightarrow> bool" where
  "is_range addr len a \<longleftrightarrow> virt_start a = addr \<and> va_pages a * 4096 = unat len"

lemma retain_areas_eq:
  assumes "list_all area_ok as" "end' = saturating_add addr len"
  shows "retain_areas addr end' as = Inr (\<exists>a \<in> set as. is_range addr len a, filter (\<lambda>a. \<not> is_range addr len a) as)"
  using assms(1)
proof (induction as)
  case (Cons a as)
  then have a: "area_ok a" and as: "list_all area_ok as" by auto
  note e = area_end_ok[OF a] and b = area_okD(1)[OF a]
  have ue: "unat end' = min (unat addr + unat len) (2 ^ 64 - 1)" unfolding assms(2) by (rule unat_saturating_add)
  have "virt_start a + of_nat (va_pages a * PAGE_SIZE) = end' \<longleftrightarrow>
      unat (virt_start a) + va_pages a * PAGE_SIZE = unat end'"
    unfolding e(2)[symmetric] by (rule word_unat_eq_iff)
  then have "virt_start a + of_nat (va_pages a * PAGE_SIZE) = end' \<longleftrightarrow> va_pages a * 4096 = unat len"
    if "virt_start a = addr"
    unfolding ue using that b u64_bound[of len] by (auto simp: PAGE_SIZE_def min_def simp del: of_nat_mult)
  then have m: "virt_start a = addr \<and> virt_start a + of_nat (va_pages a * PAGE_SIZE) = end' \<longleftrightarrow> is_range addr len a"
    by (auto simp: is_range_def)
  show ?case using Cons.IH[OF as] m by (auto simp: e(1))
qed simp

lemma unmap_user_range_spec:
  assumes "x86_laws X" "kvm_ok X k" "user_range start n"
  shows "\<exists>u. unmap_user_range X start n k = Inr (True, set_kvm u k)
    \<and> unmapped_set X (nth_page start ` {..<n}) (kvm k) u"
proof -
  have v: "vm_ok X (kvm k)" "lock_allocator (mem k) \<noteq> None" using assms(2) by (simp_all add: kvm_ok_def)
  have "set [0..<n] \<subseteq> {..<n}" by auto
  from unmap_loop_spec[OF assms(1,3) this v(1)] obtain u where
    u: "unmap_loop X start [0..<n] (kvm k) = Inr u" "unmapped_set X (nth_page start ` set [0..<n]) (kvm k) u" by blast
  have "set [0..<n] = {..<n}" by auto
  then show ?thesis using u
    by (intro exI[of _ u]) (simp add: unmap_user_range_def with_mapper_kvm[OF v(2)])
qed

lemma update_slot_id:
  "current_proc k t p \<Longrightarrow> f p = p \<Longrightarrow> update_slot (CURRENT_SLOT k) f k = k"
proof -
  assume c: "current_proc k t p" "f p = p"
  note d = current_procD[OF c(1)]
  have "t[CURRENT_SLOT k := Some p] = t" using d(4) by (metis list_update_id)
  then show ?thesis using d(1,5) c(2) by (simp add: update_slot_def)
qed

text \<open>
  (C6) \<open>munmap\<close> of exactly a mapped area removes the area, unmaps exactly its pages and gives exactly
  their frames back; any other range, also one inside or across areas, is refused with \<open>-EINVAL\<close>
  and changes nothing.
\<close>

theorem munmap_exact:
  assumes "x86_laws X" "kvm_ok X k" "current_proc k t p" "unat addr mod 4096 = 0" "len \<noteq> 0"
  shows "if \<exists>a \<in> set (vm_areas p). is_range addr len a
    then \<exists>k' t'. sys_munmap X addr len k = Inr (0, k') \<and> kvm_ok X k'
      \<and> current_proc k' t' (p\<lparr>vm_areas := filter (\<lambda>a. \<not> is_range addr len a) (vm_areas p)\<rparr>)
      \<and> (\<forall>pg. page_aligned pg \<longrightarrow>
           tr X k' pg = (if \<exists>i < unat len div 4096. pg = nth_page addr i then None else tr X k pg))
      \<and> free_addrs (snd (kvm k')) = free_addrs (snd (kvm k))
           \<union> {f. \<exists>i < unat len div 4096. tr X k (nth_page addr i) = Some f}
    else sys_munmap X addr len k = Inr (errno 22, k)"
proof -
  note c = current_procD[OF assms(3)]
  let ?rest = "filter (\<lambda>a. \<not> is_range addr len a) (vm_areas p)"
  let ?k = "update_slot (CURRENT_SLOT k) (\<lambda>p. p\<lparr>vm_areas := ?rest\<rparr>) k"
  have la: "list_all area_ok (vm_areas p)" using c(6) by (simp add: proc_ok_def)
  note ra = retain_areas_eq[OF la refl, of addr len]
  show ?thesis
  proof (cases "\<exists>a \<in> set (vm_areas p). is_range addr len a")
    case True
    then obtain a where a: "a \<in> set (vm_areas p)" "virt_start a = addr" "va_pages a * 4096 = unat len"
      by (auto simp: is_range_def)
    then have "area_ok a" using la by (simp add: list_all_iff)
    then have ur: "user_range addr (unat len div 4096)"
      using a area_okD[of a] by (auto simp: user_range_def PAGE_SIZE_def word_le_nat_alt USER_TEXT_BASE_def)
    have "list_all area_ok ?rest" using la by (auto simp: list_all_iff)
    from vm_areas_update[OF assms(3), of "\<lambda>_. ?rest", OF this]
    obtain t' where t': "current_proc ?k t' (p\<lparr>vm_areas := ?rest\<rparr>)" by blast
    have kk: "kvm ?k = kvm k" by (simp add: kvm_def)
    have "kvm_ok X ?k" using assms(2) kvm_ok_cong[of ?k k X] by simp
    from unmap_user_range_spec[OF assms(1) this ur] obtain u where
      u: "unmap_user_range X addr (unat len div 4096) ?k = Inr (True, set_kvm u ?k)"
        "unmapped_set X (nth_page addr ` {..<unat len div 4096}) (kvm k) u" unfolding kk by blast
    have e: "sys_munmap X addr len k = Inr (0, set_kvm u ?k)"
      using assms(4,5) c(1,3,4) ra True u(1) by (simp add: sys_munmap_def slot_at_def Let_def PAGE_SIZE_def)
    have "\<exists>k' t'. sys_munmap X addr len k = Inr (0, k') \<and> kvm_ok X k'
      \<and> current_proc k' t' (p\<lparr>vm_areas := ?rest\<rparr>)
      \<and> (\<forall>pg. page_aligned pg \<longrightarrow>
           tr X k' pg = (if \<exists>i < unat len div 4096. pg = nth_page addr i then None else tr X k pg))
      \<and> free_addrs (snd (kvm k')) = free_addrs (snd (kvm k))
           \<union> {f. \<exists>i < unat len div 4096. tr X k (nth_page addr i) = Some f}"
      using e t' u(2) by (intro exI[of _ "set_kvm u ?k"] exI[of _ t']) (auto simp: unmapped_set_def kvm_ok_set)
    then show ?thesis using True by simp
  next
    case False
    then have "?rest = vm_areas p" by (auto simp: filter_id_conv)
    then have "?k = k" using update_slot_id[OF assms(3), of "\<lambda>p. p\<lparr>vm_areas := ?rest\<rparr>"] by simp
    then show ?thesis
      using assms(4,5) c(1,3,4) ra False by (simp add: sys_munmap_def slot_at_def Let_def PAGE_SIZE_def)
  qed
qed

definition demo_area :: vm_area where
  "demo_area = \<lparr>va_id = 1, virt_start = 0x410000, va_pages = 2, va_writable = True, va_executable = False\<rparr>"

definition vm_demo_area :: "(u64 \<Rightarrow> u64 option) kernel" where
  "vm_demo_area = update_slot (CURRENT_SLOT vm_demo) (\<lambda>p. p\<lparr>vm_areas := [demo_area]\<rparr>) vm_demo"

theorem munmap_exact_witness:
  "(\<exists>k'. sys_munmap map_x86 0x410000 0x2000 vm_demo_area = Inr (0, k'))
   \<and> sys_munmap map_x86 0x410000 0x1000 vm_demo_area = Inr (errno 22, vm_demo_area)"
proof -
  have "area_ok demo_area" by (simp add: area_ok_def demo_area_def page_aligned_def rock_consts)
  then have "list_all area_ok [demo_area]" by simp
  from vm_areas_update[OF vm_demo_current, of "\<lambda>_. [demo_area]", OF this]
  obtain t' where c: "current_proc vm_demo_area t' (demo_init\<lparr>vm_areas := [demo_area]\<rparr>)"
    unfolding vm_demo_area_def by blast
  have ok: "kvm_ok map_x86 vm_demo_area"
    using vm_demo_ok kvm_ok_cong[of vm_demo_area vm_demo map_x86] by (simp add: vm_demo_area_def)
  have "is_range 0x410000 0x2000 demo_area" "\<not> is_range 0x410000 0x1000 demo_area"
    by (simp_all add: is_range_def demo_area_def)
  then show ?thesis
    using munmap_exact[OF map_x86_laws ok c, of "0x410000" "0x2000"]
      munmap_exact[OF map_x86_laws ok c, of "0x410000" "0x1000"] by auto
qed

section \<open>User addresses do not alias\<close>

lemma valid_frame_aligned:
  assumes "valid_frame f" "o1 < PAGE_SIZE"
  shows "page_aligned f" "unat (f + of_nat o1) = unat f + o1" "unat f + o1 < 2 ^ 64"
proof -
  obtain i where i: "f = frame_addr i" "i < FRAME_BITMAP_BITS" using assms(1) by (auto simp: valid_frame_def)
  have u: "unat f = i * PAGE_SIZE" unfolding i(1) by (rule unat_frame_addr[OF i(2)])
  show a: "page_aligned f" by (simp add: page_aligned_def u)
  have "i * PAGE_SIZE < FRAME_BITMAP_BITS * PAGE_SIZE" using i(2) page_size_pos by simp
  then show b: "unat f + o1 < 2 ^ 64" using assms(2) u by (simp add: rock_consts)
  show "unat (f + of_nat o1) = unat f + o1" by (rule page_floor_offset(1)[OF a assms(2) b])
qed

lemma translate_offset:
  assumes "x86_laws X" "vm_ok X s" "user_window (page_floor v)" "translate X (fst s) v = Some p"
  shows "\<exists>f. translate X (fst s) (page_floor v) = Some f \<and> valid_frame f
    \<and> unat p = unat f + unat v mod PAGE_SIZE \<and> page_floor p = f"
proof -
  obtain f where f: "translate X (fst s) (page_floor v) = Some f" "p = f + of_nat (unat v mod PAGE_SIZE)"
    using x86_translate[OF assms(1), of "fst s" v] assms(4)
    by (cases "translate X (fst s) (page_floor v)") auto
  have s: "vm_ok X (fst s, snd s)" using assms(2) by simp
  have vf: "valid_frame f" by (rule vm_okD(3)[OF s assms(3) f(1)])
  have o: "unat v mod PAGE_SIZE < PAGE_SIZE" using page_size_pos by simp
  note a = valid_frame_aligned[OF vf o]
  show ?thesis using f vf a(2) page_floor_offset(2)[OF a(1) o a(3)] by simp
qed

lemma user_addr_inj:
  assumes "x86_laws X" "vm_ok X s" "user_window (page_floor v)" "user_window (page_floor w)"
    "translate X (fst s) v = Some p" "translate X (fst s) w = Some p"
  shows "v = w"
proof -
  obtain f where f: "translate X (fst s) (page_floor v) = Some f" "unat p = unat f + unat v mod PAGE_SIZE" "page_floor p = f"
    using translate_offset[OF assms(1,2,3,5)] by blast
  obtain g where g: "translate X (fst s) (page_floor w) = Some g" "unat p = unat g + unat w mod PAGE_SIZE" "page_floor p = g"
    using translate_offset[OF assms(1,2,4,6)] by blast
  have "vm_ok X (fst s, snd s)" using assms(2) by simp
  from vm_okD(5)[OF this assms(3,4)] f(1,3) g(1,3) have "page_floor v = page_floor w" by simp
  then have "unat v div PAGE_SIZE * PAGE_SIZE = unat w div PAGE_SIZE * PAGE_SIZE" by (metis page_floor_unat)
  moreover have "unat v mod PAGE_SIZE = unat w mod PAGE_SIZE" using f g by simp
  ultimately show ?thesis by (metis div_mult_mod_eq word_unat_eq_iff)
qed

section \<open>The offset window\<close>

text \<open>The boot loader's window reaches every byte of every frame the allocator can hand out.\<close>

definition window_ok :: "'pt x86 \<Rightarrow> 'pt kernel \<Rightarrow> bool" where
  "window_ok X k \<longleftrightarrow> (\<forall>f. valid_frame f \<longrightarrow> (\<forall>o' < PAGE_SIZE. window_addr X k (f + of_nat o') = Inr (f + of_nat o')))"

lemma window_ok_cong:
  "PHYSICAL_MEMORY_OFFSET (mem k1) = PHYSICAL_MEMORY_OFFSET (mem k) \<Longrightarrow> window_ok X k1 = window_ok X k"
  unfolding window_ok_def window_addr_def phys_to_virt_def by simp

lemma window_ok_zero:
  assumes "PHYSICAL_MEMORY_OFFSET (mem k) = 0"
  shows "window_ok map_x86 k"
proof -
  have "unat (f + of_nat j) < 2 ^ 47" if vf: "valid_frame f" "j < PAGE_SIZE" for f j
  proof -
    obtain i where i: "f = frame_addr i" "i < FRAME_BITMAP_BITS" using vf(1) unfolding valid_frame_def by fastforce
    have "unat f < 0x10000000" using i(2) unfolding i(1) unat_frame_addr[OF i(2)] by (simp add: rock_consts)
    then show ?thesis using valid_frame_aligned(2)[OF vf] vf(2) by (simp add: PAGE_SIZE_def)
  qed
  moreover have "window_addr map_x86 k p = Inr p" if "unat p < 2 ^ 47" for p
    using assms that by (simp add: window_addr_def phys_to_virt_def add_ok_def map_x86_def)
  ultimately show ?thesis by (simp add: window_ok_def)
qed

lemma window_virt:
  assumes "x86_laws X" "user_window (page_floor w)"
  shows "virt_new X w"
proof (rule x86_virt[OF assms(1)])
  have "page_floor w < 0x480000" using assms(2) by (simp add: user_window_def USER_MMAP_LIMIT_def)
  then have "unat w div PAGE_SIZE * PAGE_SIZE < 0x480000" by (simp add: word_less_nat_alt page_floor_unat)
  moreover have "unat w < unat w div PAGE_SIZE * PAGE_SIZE + PAGE_SIZE"
    using page_size_pos by (metis add.commute add_less_cancel_left div_mult_mod_eq mod_less_divisor)
  ultimately show "unat w < 2 ^ 47" by (simp add: PAGE_SIZE_def)
qed

lemma window_translate:
  assumes "x86_laws X" "kvm_ok X k" "window_ok X k" "user_window (page_floor x)" "tr X k x = Some p"
  shows "window_addr X k p = Inr p"
proof -
  have v: "vm_ok X (kvm k)" using assms(2) by (simp add: kvm_ok_def)
  have "translate X (fst (kvm k)) x = Some p" using assms(5) by simp
  from translate_offset[OF assms(1) v assms(4) this] obtain f where f: "valid_frame f" "unat p = unat f + unat x mod PAGE_SIZE"
    by blast
  have o: "unat x mod PAGE_SIZE < PAGE_SIZE" using page_size_pos by simp
  have "p = f + of_nat (unat x mod PAGE_SIZE)" using f(2) valid_frame_aligned(2)[OF f(1) o] by (simp add: word_unat_eq_iff)
  then show ?thesis using assms(3) f(1) o unfolding window_ok_def by simp
qed

lemma page_bytes:
  assumes "page_aligned pg" "user_window pg" "translate X (page_table k) pg \<noteq> None" "x86_laws X" "j < 4096"
    "unat pg < 0x480000"
  shows "user_window (page_floor (pg + of_nat j))" "tr X k (pg + of_nat j) \<noteq> None"
    "unat (pg + of_nat j) = unat pg + j"
proof -
  note o = page_floor_offset[OF assms(1), of j]
  show u: "unat (pg + of_nat j) = unat pg + j" using assms(5,6) by (intro o(1)) (simp_all add: PAGE_SIZE_def)
  have f: "page_floor (pg + of_nat j) = pg" using assms(5,6) by (intro o(2)) (simp_all add: PAGE_SIZE_def)
  then show "user_window (page_floor (pg + of_nat j))" using assms(2) by simp
  show "tr X k (pg + of_nat j) \<noteq> None" using x86_translate[OF assms(4), of "page_table k" "pg + of_nat j"] f assms(3) by simp
qed

lemma stack_page_facts:
  "page_aligned 0x401000" "page_aligned 0x402000" "user_window 0x401000" "user_window 0x402000"
  by (simp_all add: user_window_def page_aligned_def rock_consts)

section \<open>A kernel with mapped stacks\<close>

text \<open>Both stack pages are mapped, every other frame is taken, and every kernel stack word is \<open>0x401ff8\<close>.\<close>

definition stack_demo :: "(u64 \<Rightarrow> u64 option) kernel" where
  "stack_demo = (demo_kernel None)\<lparr>mem := memory_init 0 [] memory_static,
     page_table := (\<lambda>pg. if pg = 0x401000 then Some 0x10000 else if pg = 0x402000 then Some 0x11000 else None),
     cpu := demo_machine\<lparr>kmem := (\<lambda>_. 0x401ff8)\<rparr>\<rparr>"

lemma demo_frames: "valid_frame 0x10000" "valid_frame 0x11000"
proof -
  have "frame_addr 16 = 0x10000" "frame_addr 17 = 0x11000" by (simp_all add: frame_addr_def PAGE_SIZE_def)
  moreover have "16 \<in> {1..<FRAME_BITMAP_BITS}" "17 \<in> {1..<FRAME_BITMAP_BITS}" by (simp_all add: rock_consts)
  ultimately show "valid_frame 0x10000" "valid_frame 0x11000" unfolding valid_frame_def by (metis image_eqI)+
qed

lemma stack_demo_ok: "kvm_ok map_x86 stack_demo"
proof -
  have l: "lock_allocator (mem stack_demo) = Some (boot_falloc [])"
    by (simp add: stack_demo_def memory_init_def lock_allocator_def boot_falloc_def split: prod.splits)
  have f: "free_addrs (boot_falloc []) = {}"
    using boot_falloc_ok[of "[]"] by (simp add: free_addrs_def boot_frames_def)
  have v: "translate map_x86 (page_table stack_demo) pg
      = (if pg = 0x401000 then Some 0x10000 else if pg = 0x402000 then Some 0x11000 else None)"
    if "user_window pg" for pg
    using page_floor_id[of pg] that
    by (simp add: map_x86_def stack_demo_def user_window_def page_aligned_def)
  have m: "mapped_4k map_x86 (page_table stack_demo) 0x401000" "mapped_4k map_x86 (page_table stack_demo) 0x402000"
    using page_floor_id[of "0x401000"] page_floor_id[of "0x402000"]
    by (simp_all add: map_x86_def stack_demo_def page_aligned_def PAGE_SIZE_def)
  show ?thesis using l boot_falloc_ok[of "[]"] demo_frames m
    by (auto simp: kvm_ok_def vm_ok_def kvm_def f v split: if_splits)
qed

lemma stack_demo_window: "window_ok map_x86 stack_demo"
  by (rule window_ok_zero) (simp add: stack_demo_def memory_init_def memory_static_def split: prod.splits)

lemma stack_demo_current: "current_proc stack_demo (demo_table None) demo_init"
  using demo_current[of None] by (simp add: current_proc_def stack_demo_def)

lemma stack_demo_mapped: "translate map_x86 (page_table stack_demo) 0x401000 \<noteq> None"
  using page_floor_id[OF stack_page_facts(1)] by (simp add: map_x86_def stack_demo_def)

end
