(* ===== verification/Rock_Elf.thy ===== *)
theory Rock_Elf
  imports Rock_Vm_Calls
begin

text \<open>
  The ELF loader and the initial stack of a program (\<open>src/elf.rs\<close>). An error message is a string;
  a loader function returns the message, if any, and the state it leaves, since the frames and
  mappings made before an error stay.
\<close>

section \<open>Headers\<close>

definition ELFMAG :: "u8 list" where
  "ELFMAG = [0x7F, 0x45, 0x4C, 0x46]"

text \<open>The little-endian field of \<open>n\<close> bytes at an offset.\<close>

definition field :: "u8 list \<Rightarrow> nat \<Rightarrow> nat \<Rightarrow> nat" where
  "field bs off n = from_le_bytes (take n (drop off bs))"

record phdr =
  p_type :: u32
  p_flags :: u32
  p_offset :: u64
  p_vaddr :: u64
  p_filesz :: u64
  p_memsz :: u64
  p_align :: u64

definition parse_phdr :: "u8 list \<Rightarrow> phdr" where
  "parse_phdr hdr =
     \<lparr>p_type = of_nat (field hdr 0 4), p_flags = of_nat (field hdr 4 4), p_offset = of_nat (field hdr 8 8),
      p_vaddr = of_nat (field hdr 16 8), p_filesz = of_nat (field hdr 32 8), p_memsz = of_nat (field hdr 40 8),
      p_align = of_nat (field hdr 48 8)\<rparr>"

record elf_loaded_meta =
  meta_entry :: u64
  meta_phdr :: u64
  meta_phnum :: u64
  meta_phent :: u64
  meta_image_end :: u64
  meta_rw_min :: u64

section \<open>Loading the segments\<close>

text \<open>
  The state of the loading closure: the mapper and the allocator it locks, the memory behind the
  window, and its three mutable variables.
\<close>

record 'pt loader =
  ld_pt :: 'pt
  ld_fa :: falloc
  ld_ram :: "u64 \<Rightarrow> u8"
  image_end :: u64
  rw_min :: "u64 option"
  phdr_va :: "u64 option"

type_synonym 'pt load_result = "(string option \<times> 'pt loader) outcome"

definition and_then :: "'pt load_result \<Rightarrow> ('pt loader \<Rightarrow> 'pt load_result) \<Rightarrow> 'pt load_result" where
  "and_then r f = obind r (\<lambda>(e, l). case e of Some msg \<Rightarrow> Inr (Some msg, l) | None \<Rightarrow> f l)"

definition zero_page :: "u64 \<Rightarrow> (u64 \<Rightarrow> u8) \<Rightarrow> u64 \<Rightarrow> u8" where
  "zero_page p m = (\<lambda>q. if unat (q - p) < PAGE_SIZE then 0 else m q)"

text \<open>\<open>w\<close> is \<open>window_addr\<close> of the running kernel.\<close>

definition load_page ::
  "'pt x86 \<Rightarrow> (u64 \<Rightarrow> u64 outcome) \<Rightarrow> page_flags \<Rightarrow> u64 \<Rightarrow> 'pt loader \<Rightarrow> 'pt load_result" where
  "load_page X w flags page l =
     (case allocate_frame_inner (ld_fa l) of
        (None, fa') \<Rightarrow> Inr (Some ''frame OOM'', l\<lparr>ld_fa := fa'\<rparr>)
      | (Some frame, fa') \<Rightarrow>
          obind (w frame) (\<lambda>p.
            case map_to X (ld_pt l) page frame flags fa' of (e, pt', fa'') \<Rightarrow>
              Inr (if e = None then None else Some ''map_to'',
                l\<lparr>ld_pt := pt', ld_fa := fa'', ld_ram := zero_page p (ld_ram l)\<rparr>)))"

fun load_pages ::
  "'pt x86 \<Rightarrow> (u64 \<Rightarrow> u64 outcome) \<Rightarrow> page_flags \<Rightarrow> u64 list \<Rightarrow> 'pt loader \<Rightarrow> 'pt load_result" where
  "load_pages X w flags [] l = Inr (None, l)"
| "load_pages X w flags (page # pages) l =
     and_then (load_page X w flags page l) (load_pages X w flags pages)"

fun copy_segment ::
  "'pt x86 \<Rightarrow> (u64 \<Rightarrow> u64 outcome) \<Rightarrow> u8 list \<Rightarrow> nat \<Rightarrow> u64 \<Rightarrow> nat list \<Rightarrow> 'pt loader \<Rightarrow> 'pt load_result" where
  "copy_segment X w img off0 seg [] l = Inr (None, l)"
| "copy_segment X w img off0 seg (j # js) l =
     (if off0 + j \<ge> 2 ^ 64 then Inl Overflow
      else if off0 + j \<ge> length img then Inr (Some ''segment file oob'', l)
      else if \<not> add_ok seg (of_nat j) then Inl Overflow
      else if \<not> virt_new X (seg + of_nat j) then Inl BadVirtAddr
      else case translate X (ld_pt l) (seg + of_nat j) of
          None \<Rightarrow> Inr (Some ''translate'', l)
        | Some phys \<Rightarrow> obind (w phys) (\<lambda>p.
            copy_segment X w img off0 seg js (l\<lparr>ld_ram := (ld_ram l)(p := img ! (off0 + j))\<rparr>)))"

definition seg_flags :: "phdr \<Rightarrow> page_flags" where
  "seg_flags h = \<lparr>PRESENT = True, WRITABLE = (p_flags h AND 2 \<noteq> 0), USER_ACCESSIBLE = True,
     NO_EXECUTE = (p_flags h AND 1 = 0)\<rparr>"

text \<open>The address of the program headers, when this segment holds them.\<close>

definition note_phdr :: "u64 \<Rightarrow> u64 \<Rightarrow> phdr \<Rightarrow> 'pt loader \<Rightarrow> 'pt loader outcome" where
  "note_phdr e_phoff seg h l =
     (if e_phoff \<ge> p_offset h \<and> e_phoff < saturating_add (p_offset h) (p_filesz h) then
        if add_ok seg (e_phoff - p_offset h)
        then Inr (l\<lparr>phdr_va := Some (seg + (e_phoff - p_offset h))\<rparr>) else Inl Overflow
      else Inr l)"

definition note_rw :: "u64 \<Rightarrow> phdr \<Rightarrow> 'pt loader \<Rightarrow> 'pt loader" where
  "note_rw seg h l =
     (if p_flags h AND 2 \<noteq> 0
      then l\<lparr>rw_min := Some (case rw_min l of None \<Rightarrow> seg | Some m \<Rightarrow> min m seg)\<rparr> else l)"

definition load_segment ::
  "'pt x86 \<Rightarrow> (u64 \<Rightarrow> u64 outcome) \<Rightarrow> u8 list \<Rightarrow> u64 \<Rightarrow> u64 \<Rightarrow> phdr \<Rightarrow> 'pt loader \<Rightarrow> 'pt load_result" where
  "load_segment X w img e_phoff bias h l =
     (if p_type h \<noteq> 1 then Inr (None, l)
      else if p_align h \<noteq> 0 \<and> p_align h \<noteq> 4096 then Inr (Some ''unsupported align'', l)
      else if p_memsz h = 0 then Inr (None, l)
      else let seg = p_vaddr h + bias in
        obind (note_phdr e_phoff seg h l) (\<lambda>l.
          if \<not> virt_new X seg then Inl BadVirtAddr
          else if \<not> add_ok seg (p_memsz h) then Inl Overflow
          else if \<not> virt_new X (seg + p_memsz h) then Inl BadVirtAddr
          else obind (page_containing X (seg + p_memsz h - 1)) (\<lambda>last.
            and_then (load_pages X w (seg_flags h) (page_range X (page_of X seg) last) (note_rw seg h l)) (\<lambda>l.
              and_then (copy_segment X w img (unat (p_offset h)) seg [0..<unat (p_filesz h)] l) (\<lambda>l.
                Inr (None, l\<lparr>image_end := max (image_end l) (seg + p_memsz h)\<rparr>))))))"

fun load_phdrs ::
  "'pt x86 \<Rightarrow> (u64 \<Rightarrow> u64 outcome) \<Rightarrow> u8 list \<Rightarrow> u64 \<Rightarrow> u64 \<Rightarrow> nat list \<Rightarrow> 'pt loader \<Rightarrow> 'pt load_result" where
  "load_phdrs X w img e_phoff bias [] l = Inr (None, l)"
| "load_phdrs X w img e_phoff bias (i # is) l =
     (let off = unat e_phoff + i * 56 in
      if off + 56 \<ge> 2 ^ 64 then Inl Overflow
      else if off + 56 > length img then Inr (Some ''phdr oob'', l)
      else and_then (load_segment X w img e_phoff bias (parse_phdr (take 56 (drop off img))) l)
             (load_phdrs X w img e_phoff bias is))"

section \<open>Loading a file\<close>

definition check_header :: "u8 list \<Rightarrow> string option" where
  "check_header img =
     (if length img < 64 then Some ''truncated''
      else if take 4 img \<noteq> ELFMAG \<or> img ! 4 \<noteq> 2 \<or> img ! 5 \<noteq> 1 then Some ''bad elf''
      else if field img 16 2 \<noteq> 2 \<and> field img 16 2 \<noteq> 3 then Some ''not ET_EXEC/ET_DYN''
      else if field img 18 2 \<noteq> 0x3E then Some ''not x86-64''
      else if field img 54 2 \<noteq> 56 then Some ''unexpected phdr size''
      else None)"

definition e_entry :: "u8 list \<Rightarrow> u64" where "e_entry img = of_nat (field img 24 8)"
definition e_phoff :: "u8 list \<Rightarrow> u64" where "e_phoff img = of_nat (field img 32 8)"
definition e_phnum :: "u8 list \<Rightarrow> nat" where "e_phnum img = field img 56 2"

definition loaded_meta :: "u8 list \<Rightarrow> u64 \<Rightarrow> u64 \<Rightarrow> 'pt loader \<Rightarrow> elf_loaded_meta" where
  "loaded_meta img bias phdr l =
     \<lparr>meta_entry = e_entry img + bias, meta_phdr = phdr, meta_phnum = of_nat (e_phnum img), meta_phent = 56,
      meta_image_end = image_end l,
      meta_rw_min = (case rw_min l of None \<Rightarrow> USER_TEXT_BASE + 0x1000 | Some m \<Rightarrow> m)\<rparr>"

definition load_elf_mapped ::
  "'pt x86 \<Rightarrow> u8 list \<Rightarrow> u64 \<Rightarrow> 'pt kernel \<Rightarrow> ((string + u64 \<times> elf_loaded_meta) \<times> 'pt kernel) outcome" where
  "load_elf_mapped X img bias k =
     (case check_header img of Some msg \<Rightarrow> Inr (Inl msg, k)
      | None \<Rightarrow> (case lock_allocator (mem k) of None \<Rightarrow> Inr (Inl ''allocator'', k)
          | Some fa \<Rightarrow>
              obind (load_phdrs X (window_addr X k) img (e_phoff img) bias [0..<e_phnum img]
                  \<lparr>ld_pt = page_table k, ld_fa = fa, ld_ram = ram k, image_end = 0, rw_min = None, phdr_va = None\<rparr>)
                (\<lambda>(e, l).
                  let k' = k\<lparr>page_table := ld_pt l, mem := unlock_allocator (ld_fa l) (mem k), ram := ld_ram l\<rparr> in
                  case e of Some msg \<Rightarrow> Inr (Inl msg, k')
                  | None \<Rightarrow> (case phdr_va l of None \<Rightarrow> Inr (Inl ''no phdr in LOAD'', k')
                      | Some phdr \<Rightarrow> Inr (Inr (e_entry img + bias, loaded_meta img bias phdr l), k')))))"

definition apply_user_meta :: "elf_loaded_meta \<Rightarrow> 'pt kernel \<Rightarrow> 'pt kernel" where
  "apply_user_meta meta k =
     set_user_rw_image_start (meta_rw_min meta)
       (set_user_image_end (max (meta_image_end meta) (USER_TEXT_BASE + 0x1000)) k)"

definition load_elf :: "'pt x86 \<Rightarrow> u8 list \<Rightarrow> u64 \<Rightarrow> 'pt kernel \<Rightarrow> ((string + u64) \<times> 'pt kernel) outcome" where
  "load_elf X img bias k =
     obind (load_elf_mapped X img bias k) (\<lambda>(r, k). case r of Inl msg \<Rightarrow> Inr (Inl msg, k)
       | Inr (e, meta) \<Rightarrow> Inr (Inr e, apply_user_meta meta k))"

section \<open>Replacing the old image\<close>

function unmap_image :: "'pt x86 \<Rightarrow> u64 \<Rightarrow> u64 \<Rightarrow> 'pt \<times> falloc \<Rightarrow> ('pt \<times> falloc) outcome" where
  "unmap_image X hi va s =
     (if va < hi then
        if \<not> virt_new X va then Inl BadVirtAddr
        else let s' = (if translate X (fst s) va \<noteq> None then snd (unmap_4k_and_free_bitmap X va s) else s) in
          if add_ok va 0x1000 then unmap_image X hi (va + 0x1000) s' else Inl Overflow
      else Inr s)"
  by pat_completeness auto
termination
  by (relation "measure (\<lambda>(X, hi, va, s). unat hi - unat va)")
    (auto simp: word_less_nat_alt unat_add_ok)

declare unmap_image.simps [simp del]

definition unmap_old_image_best_effort :: "'pt x86 \<Rightarrow> 'pt kernel \<Rightarrow> 'pt kernel outcome" where
  "unmap_old_image_best_effort X k =
     obind (with_mapper (\<lambda>s. obind (unmap_image X (USER_IMAGE_END k) USER_TEXT_BASE s) (\<lambda>s. Inr (True, s))) k)
       (\<lambda>(_, k). Inr k)"

section \<open>The initial stack\<close>

text \<open>\<open>while v.len() % m != 0 { v.push(0) }\<close>\<close>

function pad_to :: "nat \<Rightarrow> u8 list \<Rightarrow> u8 list" where
  "pad_to m v = (if m = 0 \<or> length v mod m = 0 then v else pad_to m (v @ [0]))"
  by pat_completeness auto
termination
proof (relation "measure (\<lambda>(m, v). (m - length v mod m) mod m)")
  fix m :: nat and v :: "u8 list"
  assume a: "\<not> (m = 0 \<or> length v mod m = 0)"
  then have l: "length v mod m < m" "0 < length v mod m" by simp_all
  have "(Suc (length v)) mod m = Suc (length v mod m) mod m" by (simp add: mod_Suc_eq)
  then show "((m, v @ [0]), m, v) \<in> measure (\<lambda>(m, v). (m - length v mod m) mod m)"
    using l by (cases "Suc (length v mod m) = m") auto
qed simp

declare pad_to.simps [simp del]

definition patch :: "nat \<Rightarrow> u8 list \<Rightarrow> u8 list \<Rightarrow> u8 list" where
  "patch o' bs v = take o' v @ bs @ drop (o' + length bs) v"

definition stack_lo :: u64 where "stack_lo = USER_STACK_TOP - 0x1000"

text \<open>The strings, each with its terminator and padding; the addresses are collected.\<close>

fun push_strings :: "u8 list list \<Rightarrow> u64 list \<times> u8 list \<Rightarrow> u64 list \<times> u8 list" where
  "push_strings [] (offs, v) = (offs, v)"
| "push_strings (s # ss) (offs, v) =
     push_strings ss (offs @ [stack_lo + of_nat (length v)], pad_to 8 (v @ s @ [0]))"

fun patch_words :: "nat \<Rightarrow> u64 list \<Rightarrow> u8 list \<Rightarrow> u8 list" where
  "patch_words o' [] v = v"
| "patch_words o' (x # xs) v = patch_words (o' + 8) xs (patch o' (to_le_bytes 8 (unat x)) v)"

definition auxv :: "elf_loaded_meta \<Rightarrow> (u64 \<times> u64) list" where
  "auxv meta = [(3, meta_phdr meta), (4, meta_phent meta), (5, meta_phnum meta), (6, 0x1000), (9, meta_entry meta), (0, 0)]"

fun patch_aux :: "nat \<Rightarrow> (u64 \<times> u64) list \<Rightarrow> u8 list \<Rightarrow> string + u8 list" where
  "patch_aux ao [] v = Inr v"
| "patch_aux ao ((tag, val) # aux) v =
     (if ao + 16 > length v then Inl ''aux ovf''
      else patch_aux (ao + 16) aux
        (patch ao (to_le_bytes 8 (unat tag) @ to_le_bytes 8 (unat val)) v))"

text \<open>
  The tables, filled with zeros, up to where the strings start. The length is a multiple of 16 after
  the padding, so the source's second loop, up to \<open>align_up(v.len(), 16)\<close>, adds nothing.
\<close>

definition exec_stack_tables :: "u8 list list \<Rightarrow> u8 list list \<Rightarrow> u8 list" where
  "exec_stack_tables argv envp =
     (let v = to_le_bytes 8 (length argv);
          v = v @ concat (replicate (length argv) (to_le_bytes 8 0));
          v = v @ to_le_bytes 8 0;
          v = v @ concat (replicate (length envp) (to_le_bytes 8 0));
          v = v @ to_le_bytes 8 0;
          v = v @ concat (replicate 6 (to_le_bytes 8 0 @ to_le_bytes 8 0))
      in pad_to 16 v)"

definition exec_stack_bytes ::
  "elf_loaded_meta \<Rightarrow> u8 list list \<Rightarrow> u8 list list \<Rightarrow> string + u8 list" where
  "exec_stack_bytes meta argv envp =
     (let v = exec_stack_tables argv envp;
          argv_tab = 8;
          env_tab = 8 + 8 * length argv + 8;
          (str_off, v) = push_strings argv (push_strings envp ([], v));
          env_n = length envp
      in if unat stack_lo + length v > unat USER_STACK_TOP then Inl ''stack ovf''
         else let v = patch_words env_tab (take env_n str_off) v;
                  v = patch_words argv_tab (drop env_n str_off) v
              in patch_aux (env_tab + (env_n + 1) * 8) (auxv meta) v)"

definition write_user_byte :: "'pt x86 \<Rightarrow> u64 \<Rightarrow> u8 \<Rightarrow> 'pt kernel \<Rightarrow> (string option \<times> 'pt kernel) outcome" where
  "write_user_byte X va b k =
     (if \<not> virt_new X va then Inl BadVirtAddr
      else case translate X (page_table k) va of None \<Rightarrow> Inr (Some ''no map'', k)
        | Some phys \<Rightarrow> obind (window_addr X k phys) (\<lambda>p. Inr (None, k\<lparr>ram := (ram k)(p := b)\<rparr>)))"

fun write_stack :: "'pt x86 \<Rightarrow> u64 \<Rightarrow> u8 list \<Rightarrow> 'pt kernel \<Rightarrow> (string option \<times> 'pt kernel) outcome" where
  "write_stack X va [] k = Inr (None, k)"
| "write_stack X va (b # bs) k =
     obind (write_user_byte X va b k) (\<lambda>(e, k). case e of Some msg \<Rightarrow> Inr (Some msg, k)
       | None \<Rightarrow> write_stack X (va + 1) bs k)"

definition build_exec_stack ::
  "'pt x86 \<Rightarrow> elf_loaded_meta \<Rightarrow> u8 list list \<Rightarrow> u8 list list \<Rightarrow> 'pt kernel \<Rightarrow> ((string + u64) \<times> 'pt kernel) outcome" where
  "build_exec_stack X meta argv envp k =
     (case exec_stack_bytes meta argv envp of Inl msg \<Rightarrow> Inr (Inl msg, k)
      | Inr v \<Rightarrow> obind (write_stack X stack_lo v k) (\<lambda>(e, k).
          case e of Some msg \<Rightarrow> Inr (Inl msg, k) | None \<Rightarrow> Inr (Inr stack_lo, k)))"

definition load_elf_exec ::
  "'pt x86 \<Rightarrow> u8 list \<Rightarrow> u64 \<Rightarrow> u8 list list \<Rightarrow> u8 list list \<Rightarrow> 'pt kernel
     \<Rightarrow> ((string + u64 \<times> u64) \<times> 'pt kernel) outcome" where
  "load_elf_exec X img bias argv envp k =
     obind (unmap_old_image_best_effort X k) (\<lambda>k.
       obind (load_elf_mapped X img bias k) (\<lambda>(r, k). case r of Inl msg \<Rightarrow> Inr (Inl msg, k)
         | Inr (entry, meta) \<Rightarrow>
             obind (build_exec_stack X meta argv envp (apply_user_meta meta k)) (\<lambda>(r, k).
               case r of Inl msg \<Rightarrow> Inr (Inl msg, k) | Inr sp \<Rightarrow> Inr (Inr (entry, sp), k))))"

end
