(* ===== verification/Rock_Elf_Load.thy ===== *)
theory Rock_Elf_Load
  imports Rock_Elf
begin

text \<open>
  What a successful load leaves in memory. The loader owns a growing set of pages, each mapped to a
  frame of its own that is not free; \<open>byte_at\<close> is the memory seen through the page table, and every
  loop of the loader is described by its effect on the bytes of the owned pages.
\<close>

section \<open>Owned pages\<close>

definition owned :: "'pt x86 \<Rightarrow> u64 set \<Rightarrow> 'pt \<times> falloc \<Rightarrow> bool" where
  "owned X Q s \<longleftrightarrow> falloc_ok (snd s)
     \<and> (\<forall>pg \<in> Q. page_aligned pg
          \<and> (\<exists>f. translate X (fst s) pg = Some f \<and> valid_frame f \<and> f \<notin> free_addrs (snd s)))
     \<and> (\<forall>pg \<in> Q. \<forall>pg' \<in> Q. translate X (fst s) pg = translate X (fst s) pg' \<longrightarrow> pg = pg')"

lemma ownedD:
  assumes "owned X Q s"
  shows "falloc_ok (snd s)" and "pg \<in> Q \<Longrightarrow> page_aligned pg"
    and "pg \<in> Q \<Longrightarrow> \<exists>f. translate X (fst s) pg = Some f \<and> valid_frame f \<and> f \<notin> free_addrs (snd s)"
    and "pg \<in> Q \<Longrightarrow> pg' \<in> Q \<Longrightarrow> translate X (fst s) pg = translate X (fst s) pg' \<Longrightarrow> pg = pg'"
  using assms unfolding owned_def by blast+

lemma vm_ok_owned:
  assumes "vm_ok X s"
  shows "owned X {pg. user_window pg \<and> translate X (fst s) pg \<noteq> None} s"
proof -
  have v: "vm_ok X (fst s, snd s)" using assms by simp
  show ?thesis unfolding owned_def using vm_okD[OF v] by (auto simp: user_window_aligned)
qed

lemma owned_map_one:
  assumes "x86_laws X" "page_aligned page" "owned X Q (pt, fa)" "map_one X fl page (pt, fa) = (okk, pt', fa')"
  shows "owned X Q (pt', fa')" "pg \<in> Q \<Longrightarrow> translate X pt' pg = translate X pt pg"
    "okk \<Longrightarrow> page \<notin> Q \<and> owned X (insert page Q) (pt', fa')"
proof -
  note o = ownedD[OF assms(3), simplified]
  note m = map_one_spec[OF assms(1,2) o(1) assms(4)]
  have keep: "translate X pt' pg = translate X pt pg" if "pg \<in> Q" for pg
    using m(3,4) o(2,3)[OF that] by (cases okk) (auto split: if_splits)
  show "pg \<in> Q \<Longrightarrow> translate X pt' pg = translate X pt pg" by (rule keep)
  show q: "owned X Q (pt', fa')"
    unfolding owned_def using m(1,2) o keep by (simp add: subset_eq) blast
  assume okk
  with m(4) obtain f where f: "f \<in> free_addrs fa" "f \<notin> free_addrs fa'" "translate X pt page = None"
    "translate X pt' page = Some f" using assms(2) by auto
  have n: "page \<notin> Q" using o(3)[of page] f(3) by auto
  have vf: "valid_frame f" by (rule free_addrs_valid[OF o(1) f(1)])
  have d: "translate X pt' pg \<noteq> Some f" if "pg \<in> Q" for pg using o(3)[OF that] keep[OF that] f(1) by auto
  have "translate X pt' pg \<noteq> translate X pt' page" if "pg \<in> Q" for pg using d[OF that] f(4) by simp
  then show "page \<notin> Q \<and> owned X (insert page Q) (pt', fa')"
    using n q f(2,4) vf assms(2) unfolding owned_def by (simp add: ball_simps) metis
qed

section \<open>Bytes of owned pages\<close>

lemma owned_addr:
  assumes "x86_laws X" "owned X Q s" "page_floor v \<in> Q"
  obtains f where "translate X (fst s) (page_floor v) = Some f" "valid_frame f" "f \<notin> free_addrs (snd s)"
    "translate X (fst s) v = Some (f + of_nat (unat v mod PAGE_SIZE))"
  using ownedD(3)[OF assms(2,3)] x86_translate[OF assms(1), of "fst s" v] that by auto

lemma frame_byte:
  assumes "valid_frame f" "o1 < PAGE_SIZE" "valid_frame g" "o2 < PAGE_SIZE"
  shows "f + of_nat o1 = g + of_nat o2 \<longleftrightarrow> f = g \<and> o1 = o2"
proof
  note a = valid_frame_aligned[OF assms(1,2)] and b = valid_frame_aligned[OF assms(3,4)]
  assume e: "f + of_nat o1 = g + of_nat o2"
  have "page_floor (f + of_nat o1) = f" by (rule page_floor_offset(2)[OF a(1) assms(2) a(3)])
  moreover have "page_floor (g + of_nat o2) = g" by (rule page_floor_offset(2)[OF b(1) assms(4) b(3)])
  ultimately have fg: "f = g" using e by simp
  from arg_cong[OF e, of unat] have "unat f + o1 = unat g + o2" unfolding a(2) b(2) .
  then show "f = g \<and> o1 = o2" using fg by simp
qed simp

lemma zero_page_byte:
  assumes "valid_frame f" "valid_frame g" "o2 < PAGE_SIZE"
  shows "zero_page f m (g + of_nat o2) = (if g = f then 0 else m (g + of_nat o2))"
proof -
  have ob: "o2 < 2 ^ 64" using assms(3) by (simp add: PAGE_SIZE_def)
  have "unat (g + of_nat o2 - f) < PAGE_SIZE \<longleftrightarrow> g = f"
  proof
    assume l: "unat (g + of_nat o2 - f) < PAGE_SIZE"
    have "f + of_nat (unat (g + of_nat o2 - f)) = g + of_nat o2" by simp
    then show "g = f" using frame_byte[OF assms(1) l assms(2,3)] by simp
  next
    assume "g = f"
    then show "unat (g + of_nat o2 - f) < PAGE_SIZE" using assms(3) ob by (simp add: unat_of_nat)
  qed
  then show ?thesis by (simp add: zero_page_def)
qed

lemma owned_addr_inj:
  assumes "x86_laws X" "owned X Q s" "page_floor v \<in> Q" "page_floor u \<in> Q"
    "translate X (fst s) v = translate X (fst s) u"
  shows "v = u"
proof -
  obtain f where f: "translate X (fst s) (page_floor v) = Some f" "valid_frame f"
    "translate X (fst s) v = Some (f + of_nat (unat v mod PAGE_SIZE))"
    by (rule owned_addr[OF assms(1,2,3)])
  obtain g where g: "translate X (fst s) (page_floor u) = Some g" "valid_frame g"
    "translate X (fst s) u = Some (g + of_nat (unat u mod PAGE_SIZE))"
    by (rule owned_addr[OF assms(1,2,4)])
  have o: "unat v mod PAGE_SIZE < PAGE_SIZE" "unat u mod PAGE_SIZE < PAGE_SIZE" using page_size_pos by simp_all
  have "f + of_nat (unat v mod PAGE_SIZE) = g + of_nat (unat u mod PAGE_SIZE)" using f(3) g(3) assms(5) by simp
  then have e: "f = g" "unat v mod PAGE_SIZE = unat u mod PAGE_SIZE"
    unfolding frame_byte[OF f(2) o(1) g(2) o(2)] by blast+
  then have "page_floor v = page_floor u" using ownedD(4)[OF assms(2,3,4)] f(1) g(1) by simp
  then have "unat v div PAGE_SIZE * PAGE_SIZE = unat u div PAGE_SIZE * PAGE_SIZE" by (metis page_floor_unat)
  then show ?thesis using e(2) by (metis div_mult_mod_eq word_unat_eq_iff)
qed

definition byte_at :: "'pt x86 \<Rightarrow> 'pt loader \<Rightarrow> u64 \<Rightarrow> u8 option" where
  "byte_at X l v = map_option (ld_ram l) (translate X (ld_pt l) v)"

definition owns :: "'pt x86 \<Rightarrow> u64 set \<Rightarrow> 'pt loader \<Rightarrow> bool" where
  "owns X Q l \<longleftrightarrow> owned X Q (ld_pt l, ld_fa l)"

definition window_fun :: "(u64 \<Rightarrow> u64 outcome) \<Rightarrow> bool" where
  "window_fun w \<longleftrightarrow> (\<forall>f. valid_frame f \<longrightarrow> (\<forall>o' < PAGE_SIZE. w (f + of_nat o') = Inr (f + of_nat o')))"

lemma window_fun_frame: "window_fun w \<Longrightarrow> valid_frame f \<Longrightarrow> w f = Inr f"
proof -
  assume "window_fun w" "valid_frame f"
  then have "w (f + of_nat 0) = Inr (f + of_nat 0)"
    unfolding window_fun_def using page_size_pos by blast
  then show ?thesis by simp
qed

section \<open>The loops of the loader\<close>

definition same_notes :: "'pt loader \<Rightarrow> 'pt loader \<Rightarrow> bool" where
  "same_notes l l' \<longleftrightarrow> image_end l' = image_end l \<and> rw_min l' = rw_min l \<and> phdr_va l' = phdr_va l"

lemma load_page_owns:
  assumes "x86_laws X" "page_aligned page" "window_fun w" "owns X Q l"
  shows "\<exists>e l'. load_page X w fl page l = Inr (e, l') \<and> same_notes l l'
    \<and> map_one X fl page (ld_pt l, ld_fa l) = (e = None, ld_pt l', ld_fa l')
    \<and> owns X Q l' \<and> (\<forall>v. page_floor v \<in> Q \<longrightarrow> byte_at X l' v = byte_at X l v)
    \<and> (e = None \<longrightarrow> page \<notin> Q \<and> owns X (insert page Q) l'
         \<and> (\<forall>v. page_floor v = page \<longrightarrow> byte_at X l' v = Some 0))"
proof -
  obtain r fa1 where al: "allocate_frame_inner (ld_fa l) = (r, fa1)" by (cases "allocate_frame_inner (ld_fa l)")
  have ok: "falloc_ok (ld_fa l)" using ownedD(1)[OF assms(4)[unfolded owns_def]] by simp
  show ?thesis
  proof (cases r)
    case None
    then have "fa1 = ld_fa l" using allocate_frame_inner_None[OF ok] al by blast
    then show ?thesis using al None assms(4)
      by (simp add: load_page_def map_one_def same_notes_def owns_def byte_at_def)
  next
    case (Some f)
    have f: "f \<in> free_addrs (ld_fa l)" using allocate_frame_inner_Some[OF ok] al Some by blast
    have vf: "valid_frame f" by (rule free_addrs_valid[OF ok f])
    obtain e pt' fa' where mt: "map_to X (ld_pt l) page f fl fa1 = (e, pt', fa')" by (metis prod_cases3)
    let ?l = "l\<lparr>ld_pt := pt', ld_fa := fa', ld_ram := zero_page f (ld_ram l)\<rparr>"
    have lp: "load_page X w fl page l = Inr (if e = None then None else Some ''map_to'', ?l)"
      using al Some mt window_fun_frame[OF assms(3) vf] by (simp add: load_page_def)
    have mo: "map_one X fl page (ld_pt l, ld_fa l) = (e = None, pt', fa')"
      using al Some mt by (simp add: map_one_def)
    note om = owned_map_one[OF assms(1,2) assms(4)[unfolded owns_def] mo]
    have b: "byte_at X ?l v = byte_at X l v" if q: "page_floor v \<in> Q" for v
    proof -
      obtain g where g: "translate X (ld_pt l) (page_floor v) = Some g" "valid_frame g" "g \<notin> free_addrs (ld_fa l)"
        "translate X (ld_pt l) v = Some (g + of_nat (unat v mod PAGE_SIZE))"
        using owned_addr[OF assms(1) assms(4)[unfolded owns_def] q] by auto
      have "translate X pt' v = translate X (ld_pt l) v"
        using x86_translate[OF assms(1), of pt' v] x86_translate[OF assms(1), of "ld_pt l" v] om(2)[OF q] by simp
      moreover have "g \<noteq> f" using f g(3) by blast
      ultimately show ?thesis
        using g(4) zero_page_byte[OF vf g(2)] page_size_pos by (simp add: byte_at_def)
    qed
    have z: "byte_at X ?l v = Some 0" if "e = None" "page_floor v = page" for v
    proof -
      have "translate X pt' page = Some f" using x86_map_to(5)[OF assms(1,2) mt that(1) assms(2)] by simp
      then have "translate X pt' v = Some (f + of_nat (unat v mod PAGE_SIZE))"
        using x86_translate[OF assms(1), of pt' v] that(2) by simp
      then show ?thesis using zero_page_byte[OF vf vf] page_size_pos by (simp add: byte_at_def)
    qed
    show ?thesis
      by (intro exI[of _ "if e = None then None else Some ''map_to''"] exI[of _ ?l] conjI)
        (use lp mo om b z in \<open>auto simp: same_notes_def owns_def\<close>)
  qed
qed

lemma load_pages_owns:
  assumes "x86_laws X" "\<forall>pg \<in> set pages. page_aligned pg" "window_fun w" "owns X Q l"
  shows "\<exists>e l'. load_pages X w fl pages l = Inr (e, l') \<and> same_notes l l'
    \<and> (vm_ok X (ld_pt l, ld_fa l) \<longrightarrow> vm_ok X (ld_pt l', ld_fa l'))
    \<and> owns X Q l' \<and> (\<forall>v. page_floor v \<in> Q \<longrightarrow> byte_at X l' v = byte_at X l v)
    \<and> (e = None \<longrightarrow> set pages \<inter> Q = {} \<and> owns X (set pages \<union> Q) l'
         \<and> (\<forall>v. page_floor v \<in> set pages \<longrightarrow> byte_at X l' v = Some 0))"
  using assms(2,4)
proof (induction pages arbitrary: Q l)
  case Nil
  then show ?case by (simp add: same_notes_def)
next
  case (Cons page pages)
  from Cons.prems have pa: "page_aligned page" "\<forall>pg \<in> set pages. page_aligned pg" by simp_all
  obtain e l1 where s: "load_page X w fl page l = Inr (e, l1)" "same_notes l l1"
    "map_one X fl page (ld_pt l, ld_fa l) = (e = None, ld_pt l1, ld_fa l1)" "owns X Q l1"
    "\<forall>v. page_floor v \<in> Q \<longrightarrow> byte_at X l1 v = byte_at X l v"
    "e = None \<longrightarrow> page \<notin> Q \<and> owns X (insert page Q) l1 \<and> (\<forall>v. page_floor v = page \<longrightarrow> byte_at X l1 v = Some 0)"
    using load_page_owns[OF assms(1) pa(1) assms(3) Cons.prems(2)] by blast
  have vm: "vm_ok X (ld_pt l, ld_fa l) \<longrightarrow> vm_ok X (ld_pt l1, ld_fa l1)"
    using map_one_vm_ok[OF assms(1) pa(1) _ s(3)] by blast
  show ?case
  proof (cases e)
    case (Some msg)
    then show ?thesis using s vm by (intro exI[of _ e] exI[of _ l1]) (simp add: and_then_def)
  next
    case None
    then obtain e' l' where r: "load_pages X w fl pages l1 = Inr (e', l')" "same_notes l1 l'"
      "vm_ok X (ld_pt l1, ld_fa l1) \<longrightarrow> vm_ok X (ld_pt l', ld_fa l')"
      "owns X (insert page Q) l'" "\<forall>v. page_floor v \<in> insert page Q \<longrightarrow> byte_at X l' v = byte_at X l1 v"
      "e' = None \<longrightarrow> set pages \<inter> insert page Q = {} \<and> owns X (set pages \<union> insert page Q) l'
         \<and> (\<forall>v. page_floor v \<in> set pages \<longrightarrow> byte_at X l' v = Some 0)"
      using Cons.IH[OF pa(2), of "insert page Q" l1] s(6) by blast
    have "owns X Q l'" using r(4) unfolding owns_def owned_def by simp
    moreover have "same_notes l l'" using s(2) r(2) by (simp add: same_notes_def)
    moreover have "load_pages X w fl (page # pages) l = Inr (e', l')" using s(1) None r(1) by (simp add: and_then_def)
    moreover have "set (page # pages) \<union> Q = set pages \<union> insert page Q" by auto
    ultimately show ?thesis using r s(5,6) None vm
      by (intro exI[of _ e'] exI[of _ l'] conjI impI allI) (auto simp del: load_pages.simps)
  qed
qed

lemma copy_segment_ram:
  "copy_segment X w img off0 seg js l = Inr (e, l') \<Longrightarrow> \<exists>m. l' = l\<lparr>ld_ram := m\<rparr>"
proof (induction js arbitrary: l)
  case Nil
  then show ?case by (intro exI[of _ "ld_ram l"]) simp
next
  case (Cons j js)
  have "\<exists>m. l = l\<lparr>ld_ram := m\<rparr>" by (intro exI[of _ "ld_ram l"]) simp
  then show ?case using Cons by (fastforce split: if_splits option.splits dest!: obind_eq_InrD)
qed

lemma store_byte:
  assumes "x86_laws X" "window_fun w" "owns X Q l" "page_floor va \<in> Q" "translate X (ld_pt l) va = Some phys"
  shows "w phys = Inr phys" "byte_at X (l\<lparr>ld_ram := (ld_ram l)(phys := b)\<rparr>) va = Some b"
    "page_floor v \<in> Q \<Longrightarrow> v \<noteq> va \<Longrightarrow> byte_at X (l\<lparr>ld_ram := (ld_ram l)(phys := b)\<rparr>) v = byte_at X l v"
proof -
  note o = assms(3)[unfolded owns_def]
  obtain f where f: "valid_frame f" "translate X (ld_pt l) va = Some (f + of_nat (unat va mod PAGE_SIZE))"
    using owned_addr[OF assms(1) o assms(4)] by auto
  have "w (f + of_nat (unat va mod PAGE_SIZE)) = Inr (f + of_nat (unat va mod PAGE_SIZE))"
    using assms(2) f(1) page_size_pos unfolding window_fun_def by (metis mod_less_divisor)
  then show "w phys = Inr phys" using f(2) assms(5) by simp
  show "byte_at X (l\<lparr>ld_ram := (ld_ram l)(phys := b)\<rparr>) va = Some b" using assms(5) by (simp add: byte_at_def)
  assume v: "page_floor v \<in> Q" "v \<noteq> va"
  have "translate X (ld_pt l) v \<noteq> Some phys"
    using owned_addr_inj[OF assms(1) o v(1) assms(4)] v(2) assms(5) by auto
  then show "byte_at X (l\<lparr>ld_ram := (ld_ram l)(phys := b)\<rparr>) v = byte_at X l v"
    by (cases "translate X (ld_pt l) v") (auto simp: byte_at_def)
qed

lemma copy_segment_Cons_None:
  assumes "copy_segment X w img off0 seg (j # js) l = Inr (None, l')"
  obtains phys p where "off0 + j < length img" "add_ok seg (of_nat j)"
    "translate X (ld_pt l) (seg + of_nat j) = Some phys" "w phys = Inr p"
    "copy_segment X w img off0 seg js (l\<lparr>ld_ram := (ld_ram l)(p := img ! (off0 + j))\<rparr>) = Inr (None, l')"
  using assms by (auto split: if_splits option.splits dest!: obind_eq_InrD)

lemma copy_segment_owns:
  assumes "x86_laws X" "window_fun w" "owns X Q l" "distinct js"
    "\<forall>j \<in> set js. page_floor (seg + of_nat j) \<in> Q \<and> unat seg + j < 2 ^ 64"
    "copy_segment X w img off0 seg js l = Inr (None, l')"
  shows "(\<forall>j \<in> set js. off0 + j < length img \<and> byte_at X l' (seg + of_nat j) = Some (img ! (off0 + j)))
    \<and> (\<forall>v. page_floor v \<in> Q \<longrightarrow> (\<forall>j \<in> set js. v \<noteq> seg + of_nat j) \<longrightarrow> byte_at X l' v = byte_at X l v)"
  using assms(3-6)
proof (induction js arbitrary: l)
  case Nil
  then show ?case by simp
next
  case (Cons j js)
  obtain phys p where c: "off0 + j < length img" "translate X (ld_pt l) (seg + of_nat j) = Some phys" "w phys = Inr p"
    "copy_segment X w img off0 seg js (l\<lparr>ld_ram := (ld_ram l)(p := img ! (off0 + j))\<rparr>) = Inr (None, l')"
    using copy_segment_Cons_None[OF Cons.prems(4)] by blast
  let ?l = "l\<lparr>ld_ram := (ld_ram l)(phys := img ! (off0 + j))\<rparr>"
  have q: "page_floor (seg + of_nat j) \<in> Q" "unat seg + j < 2 ^ 64" using Cons.prems(3) by simp_all
  note sb = store_byte[OF assms(1,2) Cons.prems(1) q(1) c(2)]
  have "p = phys" using sb(1) c(3) by simp
  have o: "owns X Q ?l" using Cons.prems(1) by (simp add: owns_def)
  have IH: "(\<forall>i \<in> set js. off0 + i < length img \<and> byte_at X l' (seg + of_nat i) = Some (img ! (off0 + i)))
    \<and> (\<forall>v. page_floor v \<in> Q \<longrightarrow> (\<forall>i \<in> set js. v \<noteq> seg + of_nat i) \<longrightarrow> byte_at X l' v = byte_at X ?l v)"
    using Cons.IH[OF o] Cons.prems(2,3) c(4) \<open>p = phys\<close> by simp
  have ne: "seg + of_nat j \<noteq> seg + of_nat i" if "i \<in> set js" for i
  proof -
    have i: "unat seg + i < 2 ^ 64" "i \<noteq> j" using that Cons.prems(2,3) by auto
    have "(of_nat i :: u64) \<noteq> of_nat j"
      using i q(2) unat_of_nat_u64[of i] unat_of_nat_u64[of j] by (metis add_leE le_less_trans le_add2)
    then show ?thesis by simp
  qed
  then have "byte_at X l' (seg + of_nat j) = Some (img ! (off0 + j))" using IH q(1) sb(2) by simp
  moreover have "byte_at X l' v = byte_at X l v"
    if "page_floor v \<in> Q" "\<forall>i \<in> set (j # js). v \<noteq> seg + of_nat i" for v
    using IH sb(3)[OF that(1)] that by simp
  ultimately show ?case using IH c(1) by simp
qed

section \<open>Segments\<close>

definition loads :: "phdr \<Rightarrow> bool" where
  "loads h \<longleftrightarrow> p_type h = 1 \<and> p_memsz h \<noteq> 0"

definition seg_pages :: "u64 \<Rightarrow> phdr \<Rightarrow> u64 set" where
  "seg_pages bias h = {pg. page_aligned pg \<and> page_floor (p_vaddr h + bias) \<le> pg
     \<and> pg \<le> page_floor (p_vaddr h + bias + p_memsz h - 1)}"

text \<open>Byte \<open>j\<close> of the segment: of the file up to its size in the file, zero beyond.\<close>

definition seg_byte :: "u8 list \<Rightarrow> phdr \<Rightarrow> nat \<Rightarrow> u8" where
  "seg_byte img h j = (if j < unat (p_filesz h) then img ! (unat (p_offset h) + j) else 0)"

lemma page_floor_le: "page_floor v \<le> v"
  using aligned_le_floor[of "page_floor v" v] by simp

lemma page_floor_mono: "a \<le> b \<Longrightarrow> page_floor a \<le> page_floor b"
  using aligned_le_floor[of "page_floor a" b] page_floor_le[of a] by simp

lemma seg_byte_addr:
  assumes "add_ok seg m" "j < unat m"
  shows "unat (seg + of_nat j) = unat seg + j" "seg \<le> seg + of_nat j" "seg + of_nat j \<le> seg + m - 1"
proof -
  have b: "unat seg + unat m < 2 ^ 64" using assms(1) by (simp add: add_ok_def)
  have j: "unat (of_nat j :: u64) = j" using assms(2) b by (intro unat_of_nat_u64) simp
  show u: "unat (seg + of_nat j) = unat seg + j"
    using assms(2) b j by (subst unat_add_ok) (simp_all add: add_ok_def)
  have "unat (seg + m) = unat seg + unat m" by (rule unat_add_ok[OF assms(1)])
  moreover have "seg + m \<noteq> 0" using calculation assms(2) by (metis add_is_0 not_less0 unsigned_0)
  ultimately have "unat (seg + m - 1) = unat seg + unat m - 1" by (simp add: unat_minus_one)
  then show "seg \<le> seg + of_nat j" "seg + of_nat j \<le> seg + m - 1"
    using u assms(2) by (simp_all add: word_le_nat_alt)
qed

lemma seg_byte_page:
  assumes "add_ok (p_vaddr h + bias) (p_memsz h)" "j < unat (p_memsz h)"
  shows "page_floor (p_vaddr h + bias + of_nat j) \<in> seg_pages bias h"
  using seg_byte_addr[OF assms] by (simp add: seg_pages_def page_floor_mono)

definition same_memory :: "'pt loader \<Rightarrow> 'pt loader \<Rightarrow> bool" where
  "same_memory l l' \<longleftrightarrow> ld_pt l' = ld_pt l \<and> ld_fa l' = ld_fa l \<and> ld_ram l' = ld_ram l"

lemma same_memory_view:
  "same_memory l l' \<Longrightarrow> byte_at X l' = byte_at X l \<and> owns X Q l' = owns X Q l"
  by (auto simp: same_memory_def byte_at_def owns_def)

lemma note_phdr_memory: "note_phdr pho seg h l = Inr l' \<Longrightarrow> same_memory l l' \<and> image_end l' = image_end l"
  by (auto simp: note_phdr_def same_memory_def split: if_splits)

lemma note_rw_memory: "same_memory l (note_rw seg h l) \<and> image_end (note_rw seg h l) = image_end l"
  by (simp add: note_rw_def same_memory_def)

text \<open>The three ways a segment can end without a panic.\<close>

lemma load_segment_cases:
  assumes "load_segment X w img pho bias h l = Inr (e, l')"
  obtains (skip) "l' = l" "loads h \<Longrightarrow> e \<noteq> None"
  | (pages) l1 where "loads h" "same_memory l l1" "image_end l1 = image_end l" "e \<noteq> None"
      "load_pages X w (seg_flags h) (page_range X (page_of X (p_vaddr h + bias)) (page_of X (p_vaddr h + bias + p_memsz h - 1))) l1
        = Inr (e, l')"
  | (bytes) l1 l2 l3 where "loads h" "add_ok (p_vaddr h + bias) (p_memsz h)" "same_memory l l1" "image_end l1 = image_end l"
      "load_pages X w (seg_flags h) (page_range X (page_of X (p_vaddr h + bias)) (page_of X (p_vaddr h + bias + p_memsz h - 1))) l1
        = Inr (None, l2)"
      "copy_segment X w img (unat (p_offset h)) (p_vaddr h + bias) [0..<unat (p_filesz h)] l2 = Inr (e, l3)"
      "same_memory l3 l'" "image_end l' = (if e = None then max (image_end l3) (p_vaddr h + bias + p_memsz h) else image_end l3)"
proof (cases "loads h \<and> (p_align h = 0 \<or> p_align h = 4096)")
  case False
  then have "l' = l" "loads h \<Longrightarrow> e \<noteq> None" using assms by (auto simp: load_segment_def loads_def split: if_splits)
  then show ?thesis by (rule skip)
next
  case True
  let ?seg = "p_vaddr h + bias"
  let ?pages = "page_range X (page_of X ?seg) (page_of X (?seg + p_memsz h - 1))"
  obtain l0 where l0: "note_phdr pho ?seg h l = Inr l0"
    using assms True by (auto simp: load_segment_def loads_def Let_def dest!: obind_eq_InrD)
  let ?l1 = "note_rw ?seg h l0"
  have m: "same_memory l ?l1" "image_end ?l1 = image_end l"
    using note_phdr_memory[OF l0] note_rw_memory[of l0 ?seg h] by (auto simp: same_memory_def)
  have g: "add_ok ?seg (p_memsz h)"
    and r: "and_then (load_pages X w (seg_flags h) ?pages ?l1) (\<lambda>l.
      and_then (copy_segment X w img (unat (p_offset h)) ?seg [0..<unat (p_filesz h)] l) (\<lambda>l.
        Inr (None, l\<lparr>image_end := max (image_end l) (?seg + p_memsz h)\<rparr>))) = Inr (e, l')"
    using assms True l0 by (auto simp: load_segment_def loads_def Let_def page_containing_def split: if_splits)
  obtain e2 l2 where l2: "load_pages X w (seg_flags h) ?pages ?l1 = Inr (e2, l2)"
    using r by (auto simp: and_then_def dest!: obind_eq_InrD)
  show ?thesis
  proof (cases e2)
    case (Some msg)
    then have "e = Some msg" "l' = l2" using r l2 by (auto simp: and_then_def)
    then show ?thesis using l2 Some True m by (intro pages) auto
  next
    case None
    then obtain e3 l3 where l3: "copy_segment X w img (unat (p_offset h)) ?seg [0..<unat (p_filesz h)] l2 = Inr (e3, l3)"
      using r l2 by (auto simp: and_then_def dest!: obind_eq_InrD)
    have "e = e3" "same_memory l3 l'"
      "image_end l' = (if e = None then max (image_end l3) (?seg + p_memsz h) else image_end l3)"
      using r l2 l3 None by (cases e3; auto simp: and_then_def same_memory_def)+
    then show ?thesis using True g m l2 l3 None by (intro bytes) auto
  qed
qed

lemma seg_page_list:
  assumes "x86_laws X"
  shows "set (page_range X (page_of X (p_vaddr h + bias)) (page_of X (p_vaddr h + bias + p_memsz h - 1))) = seg_pages bias h"
  unfolding x86_page_of[OF assms] seg_pages_def by (rule set_page_range[OF assms]) simp_all

lemma load_segment_vm_ok:
  assumes "x86_laws X" "window_fun w" "vm_ok X (ld_pt l, ld_fa l)" "load_segment X w img pho bias h l = Inr (e, l')"
  shows "vm_ok X (ld_pt l', ld_fa l')"
proof -
  let ?pages = "page_range X (page_of X (p_vaddr h + bias)) (page_of X (p_vaddr h + bias + p_memsz h - 1))"
  have al: "\<forall>pg \<in> set ?pages. page_aligned pg" unfolding seg_page_list[OF assms(1)] by (simp add: seg_pages_def)
  have step: "vm_ok X (ld_pt l2, ld_fa l2)"
    if "same_memory l l1" "load_pages X w fl ?pages l1 = Inr (e2, l2)" for fl l1 e2 l2
  proof -
    have v: "vm_ok X (ld_pt l1, ld_fa l1)" using that(1) assms(3) by (simp add: same_memory_def)
    have "owns X {} l1" using vm_okD(1)[OF v] by (simp add: owns_def owned_def)
    from load_pages_owns[OF assms(1) al assms(2) this, of fl] that(2) v show ?thesis by auto
  qed
  from assms(4) show ?thesis
  proof (cases rule: load_segment_cases)
    case (bytes l1 l2 l3)
    then show ?thesis using step[OF bytes(3,5)] copy_segment_ram[OF bytes(6)] by (auto simp: same_memory_def)
  qed (use assms(3) step in auto)
qed

lemma load_segment_owns:
  assumes "x86_laws X" "window_fun w" "owns X Q l" "loads h" "p_filesz h \<le> p_memsz h"
    "load_segment X w img pho bias h l = Inr (None, l')"
  shows "seg_pages bias h \<inter> Q = {} \<and> owns X (seg_pages bias h \<union> Q) l'
    \<and> add_ok (p_vaddr h + bias) (p_memsz h)
    \<and> (\<forall>j < unat (p_memsz h). byte_at X l' (p_vaddr h + bias + of_nat j) = Some (seg_byte img h j))
    \<and> (\<forall>v. page_floor v \<in> Q \<longrightarrow> byte_at X l' v = byte_at X l v)"
  using assms(6)
proof (cases rule: load_segment_cases)
  case (bytes l1 l2 l3)
  let ?seg = "p_vaddr h + bias" and ?P = "seg_pages bias h"
  let ?pages = "page_range X (page_of X ?seg) (page_of X (?seg + p_memsz h - 1))"
  have al: "\<forall>pg \<in> set ?pages. page_aligned pg" unfolding seg_page_list[OF assms(1)] by (simp add: seg_pages_def)
  have m1: "byte_at X l1 = byte_at X l" "owns X Q l1" using same_memory_view[OF bytes(3)] assms(3) by blast+
  obtain e2 l2' where lp: "load_pages X w (seg_flags h) ?pages l1 = Inr (e2, l2')"
    "\<forall>v. page_floor v \<in> Q \<longrightarrow> byte_at X l2' v = byte_at X l1 v"
    "e2 = None \<longrightarrow> set ?pages \<inter> Q = {} \<and> owns X (set ?pages \<union> Q) l2'
         \<and> (\<forall>v. page_floor v \<in> set ?pages \<longrightarrow> byte_at X l2' v = Some 0)"
    using load_pages_owns[OF assms(1) al assms(2) m1(2), of "seg_flags h"] by blast
  then have d: "?P \<inter> Q = {}" "owns X (?P \<union> Q) l2" "\<forall>v. page_floor v \<in> ?P \<longrightarrow> byte_at X l2 v = Some 0"
    "\<forall>v. page_floor v \<in> Q \<longrightarrow> byte_at X l2 v = byte_at X l v"
    using bytes(5) m1 by (auto simp: seg_page_list[OF assms(1)])
  have js: "j < unat (p_memsz h)" if "j < unat (p_filesz h)" for j
    using that assms(5) by (simp add: word_le_nat_alt)
  note pg = seg_byte_page[OF bytes(2)] and ad = seg_byte_addr[OF bytes(2)]
  have sb: "unat ?seg + j < 2 ^ 64" if "j < unat (p_memsz h)" for j
    using that bytes(2) by (simp add: add_ok_def)
  have jq: "\<forall>j \<in> set [0..<unat (p_filesz h)]. page_floor (?seg + of_nat j) \<in> ?P \<union> Q \<and> unat ?seg + j < 2 ^ 64"
    using pg js sb by simp
  from copy_segment_owns[OF assms(1,2) d(2) distinct_upt jq bytes(6)]
  have c: "\<And>j. j < unat (p_filesz h) \<Longrightarrow> byte_at X l3 (?seg + of_nat j) = Some (img ! (unat (p_offset h) + j))"
    "\<And>v. page_floor v \<in> ?P \<union> Q \<Longrightarrow> (\<And>j. j < unat (p_filesz h) \<Longrightarrow> v \<noteq> ?seg + of_nat j) \<Longrightarrow> byte_at X l3 v = byte_at X l2 v"
    by auto
  have l': "byte_at X l' = byte_at X l3" "owns X (?P \<union> Q) l' = owns X (?P \<union> Q) l3"
    using same_memory_view[OF bytes(7)] by blast+
  have "owns X (?P \<union> Q) l3" using d(2) copy_segment_ram[OF bytes(6)] by (auto simp: owns_def)
  moreover have "byte_at X l3 (?seg + of_nat j) = Some (seg_byte img h j)" if j: "j < unat (p_memsz h)" for j
  proof (cases "j < unat (p_filesz h)")
    case False
    have "?seg + of_nat j \<noteq> ?seg + of_nat i" if i: "i < unat (p_filesz h)" for i
    proof
      assume "?seg + of_nat j = ?seg + of_nat i"
      from arg_cong[OF this, of unat] have "unat ?seg + j = unat ?seg + i"
        unfolding ad(1)[OF j] ad(1)[OF js[OF i]] .
      then show False using i False by simp
    qed
    then show ?thesis using c(2)[of "?seg + of_nat j"] pg[OF j] d(3) False by (simp add: seg_byte_def)
  qed (simp add: c(1) seg_byte_def)
  moreover have "byte_at X l3 v = byte_at X l v" if "page_floor v \<in> Q" for v
  proof -
    have "v \<noteq> ?seg + of_nat j" if "j < unat (p_filesz h)" for j using pg[OF js[OF that]] d(1) \<open>page_floor v \<in> Q\<close> by auto
    then show ?thesis using c(2)[of v] d(4) that by simp
  qed
  ultimately show ?thesis using d(1) bytes(2) l' by simp
qed (use assms(4) in auto)

section \<open>The whole file\<close>

definition phdr_at :: "u8 list \<Rightarrow> u64 \<Rightarrow> nat \<Rightarrow> phdr" where
  "phdr_at img pho i = parse_phdr (take 56 (drop (unat pho + i * 56) img))"

definition seg_end :: "u64 \<Rightarrow> phdr \<Rightarrow> u64" where
  "seg_end bias h = p_vaddr h + bias + p_memsz h"

lemma load_phdrs_Cons:
  assumes "load_phdrs X w img pho bias (i # is) l = Inr (e, l')"
  obtains (oob) "e = Some ''phdr oob''" "l' = l"
  | (err) "e \<noteq> None" "load_segment X w img pho bias (phdr_at img pho i) l = Inr (e, l')"
  | (go_on) l1 where "load_segment X w img pho bias (phdr_at img pho i) l = Inr (None, l1)"
      "load_phdrs X w img pho bias is l1 = Inr (e, l')"
proof -
  let ?r = "and_then (load_segment X w img pho bias (phdr_at img pho i) l) (load_phdrs X w img pho bias is)"
  have "load_phdrs X w img pho bias (i # is) l \<in> {Inl Overflow, Inr (Some ''phdr oob'', l), ?r}"
    unfolding load_phdrs.simps Let_def phdr_at_def by simp
  with assms consider "e = Some ''phdr oob'' \<and> l' = l" | "?r = Inr (e, l')"
    unfolding insert_iff empty_iff by (metis Inl_Inr_False prod.inject sum.inject(2))
  then show ?thesis
  proof cases
    case 1
    then show ?thesis using oob by blast
  next
    case 2
    then obtain e1 l1 where s: "load_segment X w img pho bias (phdr_at img pho i) l = Inr (e1, l1)"
      by (auto simp: and_then_def dest!: obind_eq_InrD)
    show ?thesis
    proof (cases e1)
      case None
      then show ?thesis using 2 s go_on by (simp add: and_then_def)
    next
      case (Some m)
      then have "e = Some m" "l' = l1" using 2 s by (simp_all add: and_then_def)
      then show ?thesis using s Some by (intro err) simp_all
    qed
  qed
qed

lemma load_phdrs_vm_ok:
  assumes "x86_laws X" "window_fun w" "vm_ok X (ld_pt l, ld_fa l)" "load_phdrs X w img pho bias is l = Inr (e, l')"
  shows "vm_ok X (ld_pt l', ld_fa l')"
  using assms(3,4)
proof (induction "is" arbitrary: l)
  case Nil
  then show ?case by simp
next
  case (Cons i "is")
  from Cons.prems(2) show ?case
  proof (cases rule: load_phdrs_Cons)
    case oob
    then show ?thesis using Cons.prems(1) by simp
  next
    case err
    then show ?thesis using load_segment_vm_ok[OF assms(1,2) Cons.prems(1)] by blast
  next
    case (go_on l1)
    then show ?thesis using load_segment_vm_ok[OF assms(1,2) Cons.prems(1)] Cons.IH by blast
  qed
qed

lemma load_segment_image_end:
  assumes "x86_laws X" "window_fun w" "vm_ok X (ld_pt l, ld_fa l)" "load_segment X w img pho bias h l = Inr (None, l')"
  shows "image_end l' = (if loads h then max (image_end l) (seg_end bias h) else image_end l)"
  using assms(4)
proof (cases rule: load_segment_cases)
  case (bytes l1 l2 l3)
  let ?pages = "page_range X (page_of X (p_vaddr h + bias)) (page_of X (p_vaddr h + bias + p_memsz h - 1))"
  have al: "\<forall>pg \<in> set ?pages. page_aligned pg" unfolding seg_page_list[OF assms(1)] by (simp add: seg_pages_def)
  have "owns X {} l1" using vm_okD(1)[OF assms(3)] bytes(3) by (simp add: owns_def owned_def same_memory_def)
  from load_pages_owns[OF assms(1) al assms(2) this, of "seg_flags h"] bytes(5)
  have "image_end l2 = image_end l1" by (auto simp: same_notes_def)
  moreover have "image_end l3 = image_end l2" using copy_segment_ram[OF bytes(6)] by auto
  ultimately show ?thesis using bytes by (simp add: seg_end_def)
qed auto

lemma load_phdrs_image_end:
  assumes "x86_laws X" "window_fun w" "vm_ok X (ld_pt l, ld_fa l)" "load_phdrs X w img pho bias is l = Inr (None, l')"
  shows "image_end l \<le> image_end l' \<and> (\<forall>i \<in> set is. loads (phdr_at img pho i) \<longrightarrow> seg_end bias (phdr_at img pho i) \<le> image_end l')
    \<and> (image_end l' = image_end l \<or> (\<exists>i \<in> set is. loads (phdr_at img pho i) \<and> image_end l' = seg_end bias (phdr_at img pho i)))"
  using assms(3,4)
proof (induction "is" arbitrary: l)
  case Nil
  then show ?case by simp
next
  case (Cons i "is")
  from Cons.prems(2) show ?case
  proof (cases rule: load_phdrs_Cons)
    case (go_on l1)
    have v: "vm_ok X (ld_pt l1, ld_fa l1)" using load_segment_vm_ok[OF assms(1,2) Cons.prems(1) go_on(1)] .
    note e = load_segment_image_end[OF assms(1,2) Cons.prems(1) go_on(1)] and IH = Cons.IH[OF v go_on(2)]
    show ?thesis
    proof (cases "loads (phdr_at img pho i)")
      case True
      then have "image_end l1 = max (image_end l) (seg_end bias (phdr_at img pho i))" using e by simp
      then show ?thesis using IH True by (auto simp: max_def split: if_splits)
    next
      case False
      then show ?thesis using IH e by auto
    qed
  qed auto
qed

lemma load_phdrs_owns:
  assumes "x86_laws X" "window_fun w" "owns X Q l"
    "\<forall>i \<in> set is. loads (phdr_at img pho i) \<longrightarrow> p_filesz (phdr_at img pho i) \<le> p_memsz (phdr_at img pho i)"
    "load_phdrs X w img pho bias is l = Inr (None, l')"
  shows "\<exists>Q'. Q \<subseteq> Q' \<and> owns X Q' l' \<and> (\<forall>v. page_floor v \<in> Q \<longrightarrow> byte_at X l' v = byte_at X l v)
    \<and> (\<forall>i \<in> set is. loads (phdr_at img pho i) \<longrightarrow> (\<forall>j < unat (p_memsz (phdr_at img pho i)).
         byte_at X l' (p_vaddr (phdr_at img pho i) + bias + of_nat j) = Some (seg_byte img (phdr_at img pho i) j)))"
  using assms(3-5)
proof (induction "is" arbitrary: l Q)
  case Nil
  then show ?case by auto
next
  case (Cons i "is")
  let ?h = "phdr_at img pho i"
  from Cons.prems(3) show ?case
  proof (cases rule: load_phdrs_Cons)
    case (go_on l1)
    show ?thesis
    proof (cases "loads ?h")
      case True
      note s = load_segment_owns[OF assms(1,2) Cons.prems(1) True _ go_on(1)]
      have f: "p_filesz ?h \<le> p_memsz ?h" using Cons.prems(2) True by simp
      have o: "owns X (seg_pages bias ?h \<union> Q) l1" using s[OF f] by blast
      have fs: "\<forall>i \<in> set is. loads (phdr_at img pho i) \<longrightarrow> p_filesz (phdr_at img pho i) \<le> p_memsz (phdr_at img pho i)"
        using Cons.prems(2) by simp
      obtain Q' where q: "seg_pages bias ?h \<union> Q \<subseteq> Q'" "owns X Q' l'"
        "\<forall>v. page_floor v \<in> seg_pages bias ?h \<union> Q \<longrightarrow> byte_at X l' v = byte_at X l1 v"
        "\<forall>i \<in> set is. loads (phdr_at img pho i) \<longrightarrow> (\<forall>j < unat (p_memsz (phdr_at img pho i)).
         byte_at X l' (p_vaddr (phdr_at img pho i) + bias + of_nat j) = Some (seg_byte img (phdr_at img pho i) j))"
        using Cons.IH[OF o fs go_on(2)] by blast
      have "byte_at X l' (p_vaddr ?h + bias + of_nat j) = Some (seg_byte img ?h j)" if "j < unat (p_memsz ?h)" for j
        using q(3) seg_byte_page[of ?h bias j] s[OF f] that by simp
      moreover have "byte_at X l' v = byte_at X l v" if "page_floor v \<in> Q" for v using q(3) s[OF f] that by simp
      ultimately show ?thesis using q(1,2,4) by (intro exI[of _ Q']) auto
    next
      case False
      from go_on(1) have "l1 = l" by (cases rule: load_segment_cases) (use False in auto)
      then show ?thesis using Cons.IH[OF Cons.prems(1) _] go_on(2) Cons.prems(2) False by auto
    qed
  qed auto
qed

lemma window_fun_window_addr: "window_fun (window_addr X k) \<longleftrightarrow> window_ok X k"
  unfolding window_fun_def window_ok_def ..

lemma load_elf_mapped_OkD:
  assumes "load_elf_mapped X img bias k = Inr (Inr (entry, meta), k')"
  obtains fa l phdr where "check_header img = None" "lock_allocator (mem k) = Some fa"
    "load_phdrs X (window_addr X k) img (e_phoff img) bias [0..<e_phnum img]
       \<lparr>ld_pt = page_table k, ld_fa = fa, ld_ram = ram k, image_end = 0, rw_min = None, phdr_va = None\<rparr> = Inr (None, l)"
    "phdr_va l = Some phdr" "entry = e_entry img + bias" "meta = loaded_meta img bias phdr l"
    "k' = k\<lparr>page_table := ld_pt l, mem := unlock_allocator (ld_fa l) (mem k), ram := ld_ram l\<rparr>"
  using assms by (auto simp: load_elf_mapped_def Let_def split: option.splits dest!: obind_eq_InrD)

text \<open>
  (C12) Loading an ELF file. When the loader accepts a file whose segments are not longer in the file
  than in memory, every loadable segment is in memory afterwards: byte \<open>j\<close> of the segment is at its
  virtual address, taken from the file up to the file size and zero beyond. The entry point is the
  header's, the image end covers every segment, the memory invariant holds, and every byte that was
  mapped in the user window before keeps its place and its value.
\<close>

theorem elf_load_correct:
  assumes "x86_laws X" "kvm_ok X k" "window_ok X k"
    "load_elf_mapped X img bias k = Inr (Inr (entry, meta), k')"
    "\<forall>i < e_phnum img. let h = phdr_at img (e_phoff img) i in loads h \<longrightarrow> p_filesz h \<le> p_memsz h"
  shows "entry = e_entry img + bias \<and> kvm_ok X k'
    \<and> (\<forall>i < e_phnum img. let h = phdr_at img (e_phoff img) i in loads h \<longrightarrow>
         seg_end bias h \<le> meta_image_end meta
         \<and> (\<forall>j < unat (p_memsz h). load8 X k' (p_vaddr h + bias + of_nat j) = Inr (seg_byte img h j)))
    \<and> (\<forall>v. user_window (page_floor v) \<longrightarrow> tr X k v \<noteq> None \<longrightarrow> load8 X k' v = load8 X k v)"
proof -
  obtain fa l phdr where o: "lock_allocator (mem k) = Some fa"
    "load_phdrs X (window_addr X k) img (e_phoff img) bias [0..<e_phnum img]
       \<lparr>ld_pt = page_table k, ld_fa = fa, ld_ram = ram k, image_end = 0, rw_min = None, phdr_va = None\<rparr> = Inr (None, l)"
    "entry = e_entry img + bias" "meta = loaded_meta img bias phdr l"
    "k' = k\<lparr>page_table := ld_pt l, mem := unlock_allocator (ld_fa l) (mem k), ram := ld_ram l\<rparr>"
    by (rule load_elf_mapped_OkD[OF assms(4)])
  let ?l = "\<lparr>ld_pt = page_table k, ld_fa = fa, ld_ram = ram k, image_end = 0, rw_min = None, phdr_va = None\<rparr>"
  let ?Q = "{pg. user_window pg \<and> translate X (page_table k) pg \<noteq> None}"
  have w: "window_fun (window_addr X k)" using assms(3) by (simp add: window_fun_window_addr)
  have v: "vm_ok X (ld_pt ?l, ld_fa ?l)" using assms(2) o(1) by (simp add: kvm_ok_def kvm_def)
  have Q: "owns X ?Q ?l" using vm_ok_owned[OF v] by (simp add: owns_def)
  have fs: "\<forall>i \<in> set [0..<e_phnum img]. loads (phdr_at img (e_phoff img) i) \<longrightarrow>
      p_filesz (phdr_at img (e_phoff img) i) \<le> p_memsz (phdr_at img (e_phoff img) i)"
    using assms(5) by (simp add: Let_def)
  have v': "vm_ok X (ld_pt l, ld_fa l)" by (rule load_phdrs_vm_ok[OF assms(1) w v o(2)])
  have ko: "kvm_ok X k'" using v' by (simp add: o(5) kvm_ok_def kvm_def)
  note ie = load_phdrs_image_end[OF assms(1) w v o(2)]
  obtain Q' where q: "owns X Q' l" "\<forall>v. page_floor v \<in> ?Q \<longrightarrow> byte_at X l v = byte_at X ?l v"
    "\<forall>i \<in> set [0..<e_phnum img]. loads (phdr_at img (e_phoff img) i) \<longrightarrow> (\<forall>j < unat (p_memsz (phdr_at img (e_phoff img) i)).
         byte_at X l (p_vaddr (phdr_at img (e_phoff img) i) + bias + of_nat j)
           = Some (seg_byte img (phdr_at img (e_phoff img) i) j))"
    using load_phdrs_owns[OF assms(1) w Q fs o(2)] by blast
  have ld: "byte_at X l v = Some b \<longleftrightarrow> load8 X k' v = Inr b" for v b
    by (auto simp: byte_at_def load8_def o(5) split: option.splits)
  have ld0: "byte_at X ?l v = Some b \<longleftrightarrow> load8 X k v = Inr b" for v b
    by (auto simp: byte_at_def load8_def split: option.splits)
  have "load8 X k' v = load8 X k v" if u: "user_window (page_floor v)" "tr X k v \<noteq> None" for v
  proof -
    have "page_floor v \<in> ?Q" using u x86_translate[OF assms(1), of "page_table k" v] by auto
    then have "byte_at X l v = byte_at X ?l v" using q(2) by blast
    moreover obtain b where "byte_at X ?l v = Some b" using u(2) by (auto simp: byte_at_def)
    ultimately show ?thesis using ld[of v b] ld0[of v b] by simp
  qed
  then show ?thesis using o(3) ko q(3) ie ld by (simp add: Let_def o(4) loaded_meta_def)
qed

section \<open>A file of one segment\<close>

text \<open>Four bytes of code after the two headers, at \<open>0x400000\<close>; the segment is longer in memory.\<close>

definition demo_elf :: "u8 list" where
  "demo_elf =
     [127, 69, 76, 70, 2, 1, 1, 0, 0, 0, 0, 0, 0, 0, 0, 0, 2, 0, 62, 0, 1, 0, 0, 0, 120, 0, 64, 0,
      0, 0, 0, 0, 64, 0, 0, 0, 0, 0, 0, 0, 0, 0, 0, 0, 0, 0, 0, 0, 0, 0, 0, 0, 64, 0, 56, 0, 1, 0, 0,
      0, 0, 0, 0, 0, 1, 0, 0, 0, 7, 0, 0, 0, 0, 0, 0, 0, 0, 0, 0, 0, 0, 0, 64, 0, 0, 0, 0, 0, 0, 0,
      0, 0, 0, 0, 0, 0, 124, 0, 0, 0, 0, 0, 0, 0, 200, 0, 0, 0, 0, 0, 0, 0, 0, 16, 0, 0, 0, 0, 0, 0,
      184, 60, 0, 0]"

lemma demo_elf_header:
  "check_header demo_elf = None" "e_entry demo_elf = 0x400078" "e_phoff demo_elf = 64" "e_phnum demo_elf = 1"
  "length demo_elf = 124"
  by (simp_all add: demo_elf_def check_header_def e_entry_def e_phoff_def e_phnum_def field_def ELFMAG_def)

lemma demo_elf_phdr:
  "phdr_at demo_elf 64 0 = \<lparr>p_type = 1, p_flags = 7, p_offset = 0, p_vaddr = 0x400000, p_filesz = 124,
     p_memsz = 200, p_align = 4096\<rparr>"
  by (simp add: phdr_at_def parse_phdr_def field_def demo_elf_def)

text \<open>With free frames, unmapped pages and a map for page table, nothing stops the loader.\<close>

lemma load_page_map_x86:
  assumes "falloc_ok (ld_fa l)" "window_fun w" "free_addrs (ld_fa l) \<noteq> {}" "ld_pt l page = None"
  shows "\<exists>l'. load_page map_x86 w fl page l = Inr (None, l')"
proof -
  obtain f fa1 where al: "allocate_frame_inner (ld_fa l) = (Some f, fa1)"
    using allocate_frame_inner_None[OF assms(1)] assms(3) by (metis option.exhaust surj_pair)
  then have "valid_frame f" using allocate_frame_inner_Some[OF assms(1) al] free_addrs_valid[OF assms(1)] by blast
  then have "w f = Inr f" by (rule window_fun_frame[OF assms(2)])
  then show ?thesis using al assms(4) by (simp add: load_page_def map_x86_def)
qed

lemma copy_segment_succeeds:
  assumes "x86_laws X" "window_fun w" "owns X Q l" "length img < 2 ^ 64"
    "\<forall>j \<in> set js. off0 + j < length img \<and> add_ok seg (of_nat j) \<and> virt_new X (seg + of_nat j)
       \<and> page_floor (seg + of_nat j) \<in> Q"
  shows "\<exists>l'. copy_segment X w img off0 seg js l = Inr (None, l')"
  using assms(3,5)
proof (induction js arbitrary: l)
  case Nil
  then show ?case by simp
next
  case (Cons j js)
  from Cons.prems(2) have j: "off0 + j < length img" "add_ok seg (of_nat j)" "virt_new X (seg + of_nat j)"
    "page_floor (seg + of_nat j) \<in> Q" by simp_all
  obtain phys where t: "translate X (ld_pt l) (seg + of_nat j) = Some phys"
    using owned_addr[OF assms(1) Cons.prems(1)[unfolded owns_def] j(4)] by auto
  note sb = store_byte[OF assms(1,2) Cons.prems(1) j(4) t]
  have "owns X Q (l\<lparr>ld_ram := (ld_ram l)(phys := img ! (off0 + j))\<rparr>)" using Cons.prems(1) by (simp add: owns_def)
  from Cons.IH[OF this] Cons.prems(2) obtain l' where
    "copy_segment X w img off0 seg js (l\<lparr>ld_ram := (ld_ram l)(phys := img ! (off0 + j))\<rparr>) = Inr (None, l')" by auto
  then show ?case using j t sb(1) assms(4) by simp
qed

lemma demo_elf_page:
  "i < 4096 \<Longrightarrow> page_floor (0x400000 + of_nat i) = 0x400000" "page_floor 0x4000C7 = 0x400000"
  "page_range map_x86 0x400000 0x400000 = [0x400000]"
proof -
  have al: "page_aligned 0x400000" by (simp add: page_aligned_def PAGE_SIZE_def)
  show f: "i < 4096 \<Longrightarrow> page_floor (0x400000 + of_nat i) = 0x400000" for i
    using page_floor_offset(2)[OF al, of i] by (simp add: PAGE_SIZE_def)
  show "page_floor 0x4000C7 = 0x400000" using f[of "0xC7"] by simp
  have "page_at 1024 = 0x400000" by (simp add: page_at_def PAGE_SIZE_def)
  then show "page_range map_x86 0x400000 0x400000 = [0x400000]"
    by (simp add: map_x86_def PAGE_SIZE_def)
qed

lemma demo_elf_segment:
  assumes "falloc_ok (ld_fa l)" "window_fun w" "free_addrs (ld_fa l) \<noteq> {}" "ld_pt l 0x400000 = None" "phdr_va l = None"
  shows "\<exists>l' a. load_segment map_x86 w demo_elf 64 0 (phdr_at demo_elf 64 0) l = Inr (None, l') \<and> phdr_va l' = Some a"
proof -
  let ?h = "phdr_at demo_elf 64 0" and ?l = "l\<lparr>phdr_va := Some 0x400040, rw_min := Some (case rw_min l of None \<Rightarrow> 0x400000 | Some m \<Rightarrow> min m 0x400000)\<rparr>"
  have al: "page_aligned 0x400000" by (simp add: page_aligned_def PAGE_SIZE_def)
  have ow: "owns map_x86 {} ?l" using assms(1) by (simp add: owns_def owned_def)
  obtain l1 where l1: "load_page map_x86 w (seg_flags ?h) 0x400000 ?l = Inr (None, l1)"
    using load_page_map_x86[of ?l w "0x400000"] assms(1-4) by auto
  have o1: "owns map_x86 {0x400000} l1" "same_notes ?l l1"
    using load_page_owns[OF map_x86_laws al assms(2) ow, of "seg_flags ?h"] l1 by auto
  have vn: "virt_new map_x86 v \<longleftrightarrow> unat v < 2 ^ 47" for v by (simp add: map_x86_def)
  have j: "\<forall>j \<in> set [0..<124]. 0 + j < length demo_elf \<and> add_ok 0x400000 (of_nat j) \<and> virt_new map_x86 (0x400000 + of_nat j)
       \<and> page_floor (0x400000 + of_nat j) \<in> {0x400000}"
  proof
    fix j assume "j \<in> set [0..<124]"
    then have b: "j < 124" unfolding set_upt by simp
    have u: "unat (of_nat j :: u64) = j" using b by (intro unat_of_nat_u64) simp
    have a: "add_ok 0x400000 (of_nat j)" using b by (simp add: add_ok_def u)
    show "0 + j < length demo_elf \<and> add_ok 0x400000 (of_nat j) \<and> virt_new map_x86 (0x400000 + of_nat j)
       \<and> page_floor (0x400000 + of_nat j) \<in> {0x400000}"
      using a b demo_elf_page(1)[of j] unat_add_ok[OF a] by (simp add: demo_elf_header(5) vn u)
  qed
  have "length demo_elf < 2 ^ 64" by (simp add: demo_elf_header(5))
  from copy_segment_succeeds[OF map_x86_laws assms(2) o1(1) this j] obtain l2 where
    l2: "copy_segment map_x86 w demo_elf 0 0x400000 [0..<124] l1 = Inr (None, l2)" by blast
  have n: "phdr_va l2 = Some 0x400040" using copy_segment_ram[OF l2] o1(2) by (auto simp: same_notes_def)
  have pg: "page_of map_x86 0x400000 = 0x400000" "page_of map_x86 0x4000C7 = 0x400000"
    using demo_elf_page(2) page_floor_id[OF al] by (simp_all add: map_x86_def)
  have "load_segment map_x86 w demo_elf 64 0 ?h l = Inr (None, l2\<lparr>image_end := max (image_end l2) 0x4000C8\<rparr>)"
    using l1 l2 unfolding load_segment_def
    by (simp add: demo_elf_phdr note_phdr_def note_rw_def saturating_add_def add_ok_def vn page_containing_def pg
        demo_elf_page(3) and_then_def del: upt_rec_numeral)
  then show ?thesis using n by (intro exI[of _ "l2\<lparr>image_end := max (image_end l2) 0x4000C8\<rparr>"]) simp
qed

lemma demo_elf_loads:
  assumes "lock_allocator (mem k) = Some fa" "falloc_ok fa" "free_addrs fa \<noteq> {}" "window_ok map_x86 k" "page_table k 0x400000 = None"
  shows "\<exists>meta k'. load_elf_mapped map_x86 demo_elf 0 k = Inr (Inr (0x400078, meta), k')"
proof -
  let ?l = "\<lparr>ld_pt = page_table k, ld_fa = fa, ld_ram = ram k, image_end = 0, rw_min = None, phdr_va = None\<rparr>"
  have w: "window_fun (window_addr map_x86 k)" using assms(4) by (simp add: window_fun_window_addr)
  obtain l' a where s: "load_segment map_x86 (window_addr map_x86 k) demo_elf 64 0 (phdr_at demo_elf 64 0) ?l = Inr (None, l')"
      "phdr_va l' = Some a"
    using demo_elf_segment[of ?l "window_addr map_x86 k"] assms(2,3,5) w by auto
  have "load_phdrs map_x86 (window_addr map_x86 k) demo_elf (e_phoff demo_elf) 0 [0..<e_phnum demo_elf] ?l = Inr (None, l')"
    using s(1) by (simp add: demo_elf_header phdr_at_def and_then_def)
  then show ?thesis using s(2) by (simp add: load_elf_mapped_def demo_elf_header assms(1))
qed

lemma demo_falloc: "falloc_ok (boot_falloc demo_map)" "free_addrs (boot_falloc demo_map) \<noteq> {}"
  using boot_falloc_ok[of demo_map] by (simp_all add: free_addrs_def boot_frames_demo)

lemma vm_demo_memory:
  "lock_allocator (mem vm_demo) = Some (boot_falloc demo_map)" "window_ok map_x86 vm_demo" "page_table vm_demo pg = None"
proof -
  show "lock_allocator (mem vm_demo) = Some (boot_falloc demo_map)"
    by (simp add: vm_demo_def memory_init_def lock_allocator_def boot_falloc_def split: prod.splits)
  show "window_ok map_x86 vm_demo"
    by (rule window_ok_zero) (simp add: vm_demo_def memory_init_def memory_static_def split: prod.splits)
  show "page_table vm_demo pg = None" by (simp add: vm_demo_def demo_kernel_def kernel_static_def)
qed

theorem elf_load_correct_witness:
  "\<exists>meta k'. load_elf_mapped map_x86 demo_elf 0 vm_demo = Inr (Inr (0x400078, meta), k')
     \<and> load8 map_x86 k' 0x400079 = Inr 0x3C \<and> load8 map_x86 k' 0x400080 = Inr 0"
proof -
  obtain meta k' where l: "load_elf_mapped map_x86 demo_elf 0 vm_demo = Inr (Inr (0x400078, meta), k')"
    using demo_elf_loads[OF vm_demo_memory(1) demo_falloc vm_demo_memory(2,3)] by blast
  note w = vm_demo_memory(2)
  have h: "\<forall>i < e_phnum demo_elf. let h = phdr_at demo_elf (e_phoff demo_elf) i in loads h \<longrightarrow> p_filesz h \<le> p_memsz h"
    by (simp add: demo_elf_header demo_elf_phdr)
  from elf_load_correct[OF map_x86_laws vm_demo_ok w l h]
  have b: "\<forall>j < 200. load8 map_x86 k' (0x400000 + of_nat j) = Inr (seg_byte demo_elf (phdr_at demo_elf 64 0) j)"
    by (simp add: demo_elf_header demo_elf_phdr loads_def Let_def)
  have "demo_elf ! 121 = 0x3C" by (simp add: demo_elf_def)
  then have "seg_byte demo_elf (phdr_at demo_elf 64 0) 121 = 0x3C" "seg_byte demo_elf (phdr_at demo_elf 64 0) 128 = 0"
    by (simp_all add: seg_byte_def demo_elf_phdr)
  then show ?thesis using l b[rule_format, of 121] b[rule_format, of 128] by auto
qed

end
