(* ===== verification/Rock_Exec_Stack.thy ===== *)
theory Rock_Exec_Stack
  imports Rock_Elf
begin

text \<open>
  The initial stack that \<open>build_exec_stack\<close> makes, read back: the counts, the pointer tables and
  their terminators, the strings they point to, and the auxiliary vector; and the bytes it leaves in
  memory.
\<close>

section \<open>Padding and patching\<close>

definition padding :: "nat \<Rightarrow> nat \<Rightarrow> nat" where
  "padding m len = (m - len mod m) mod m"

lemma padding_Suc:
  assumes "0 < m" "len mod m \<noteq> 0"
  shows "padding m len = Suc (padding m (Suc len))"
proof -
  have l: "len mod m < m" using assms(1) by simp
  have p: "padding m len = m - len mod m" using assms by (simp add: padding_def)
  show ?thesis
  proof (cases "Suc (len mod m) = m")
    case True
    then have "Suc len mod m = 0" by (simp add: mod_Suc)
    then show ?thesis using True p by (simp add: padding_def)
  next
    case False
    then have "Suc len mod m = Suc (len mod m)" by (simp add: mod_Suc)
    then show ?thesis using p l False by (simp add: padding_def)
  qed
qed

lemma pad_to_eq: "0 < m \<Longrightarrow> pad_to m v = v @ replicate (padding m (length v)) 0"
proof (induction m v rule: pad_to.induct)
  case (1 m v)
  show ?case
  proof (cases "length v mod m = 0")
    case True
    then show ?thesis by (subst pad_to.simps) (simp add: padding_def)
  next
    case False
    then have "pad_to m (v @ [0]) = (v @ [0]) @ replicate (padding m (Suc (length v))) 0" using 1 by simp
    then show ?thesis using False 1(2) padding_Suc[OF 1(2) False] by (subst pad_to.simps) simp
  qed
qed

definition slice :: "nat \<Rightarrow> nat \<Rightarrow> u8 list \<Rightarrow> u8 list" where
  "slice o1 n v = take n (drop o1 v)"

lemma slice_nth: "o1 + n \<le> length v \<Longrightarrow> i < n \<Longrightarrow> slice o1 n v ! i = v ! (o1 + i)"
  by (simp add: slice_def)

lemma length_slice: "o1 + n \<le> length v \<Longrightarrow> length (slice o1 n v) = n"
  by (simp add: slice_def)

lemma length_patch: "o1 + length bs \<le> length v \<Longrightarrow> length (patch o1 bs v) = length v"
  by (simp add: patch_def)

lemma patch_nth:
  assumes "o1 + length bs \<le> length v" "i < length v"
  shows "patch o1 bs v ! i = (if o1 \<le> i \<and> i < o1 + length bs then bs ! (i - o1) else v ! i)"
  using assms by (auto simp: patch_def nth_append min_def)

lemma slice_patch_same: "o1 + length bs \<le> length v \<Longrightarrow> slice o1 (length bs) (patch o1 bs v) = bs"
  by (simp add: slice_def patch_def)

lemma slice_eqI:
  assumes "length v = length v'" "o1 + n \<le> length v" "\<And>i. o1 \<le> i \<Longrightarrow> i < o1 + n \<Longrightarrow> v ! i = v' ! i"
  shows "slice o1 n v = slice o1 n v'"
  using assms by (intro nth_equalityI) (simp_all add: length_slice slice_nth)

text \<open>A patch of words at an offset: its words are there, everything outside stays.\<close>

lemma patch_words_spec:
  assumes "o1 + 8 * length xs \<le> length v"
  shows "length (patch_words o1 xs v) = length v
    \<and> (\<forall>i < length xs. slice (o1 + 8 * i) 8 (patch_words o1 xs v) = to_le_bytes 8 (unat (xs ! i)))
    \<and> (\<forall>i < length v. i < o1 \<or> o1 + 8 * length xs \<le> i \<longrightarrow> patch_words o1 xs v ! i = v ! i)"
  using assms
proof (induction xs arbitrary: o1 v)
  case Nil
  then show ?case by simp
next
  case (Cons x xs)
  let ?b = "to_le_bytes 8 (unat x)" and ?v = "patch o1 (to_le_bytes 8 (unat x)) v"
  have o: "o1 + length ?b \<le> length v" using Cons.prems by simp
  have lv: "length ?v = length v" by (rule length_patch[OF o])
  have IH: "length (patch_words (o1 + 8) xs ?v) = length v"
    "\<And>i. i < length xs \<Longrightarrow> slice (o1 + 8 + 8 * i) 8 (patch_words (o1 + 8) xs ?v) = to_le_bytes 8 (unat (xs ! i))"
    "\<And>i. i < length v \<Longrightarrow> i < o1 + 8 \<or> o1 + 8 + 8 * length xs \<le> i \<Longrightarrow> patch_words (o1 + 8) xs ?v ! i = ?v ! i"
    using Cons.IH[of "o1 + 8" ?v] Cons.prems lv by auto
  have first: "slice o1 8 (patch_words (o1 + 8) xs ?v) = ?b"
  proof -
    have "slice o1 8 (patch_words (o1 + 8) xs ?v) = slice o1 8 ?v"
      using IH(1,3) Cons.prems lv by (intro slice_eqI) simp_all
    then show ?thesis using slice_patch_same[OF o] by simp
  qed
  have "slice (o1 + 8 * i) 8 (patch_words o1 (x # xs) v) = to_le_bytes 8 (unat ((x # xs) ! i))"
    if "i < length (x # xs)" for i
    using that first IH(2)[of "i - 1"] by (cases i) (simp_all add: algebra_simps)
  moreover have "patch_words o1 (x # xs) v ! i = v ! i"
    if "i < length v" "i < o1 \<or> o1 + 8 * length (x # xs) \<le> i" for i
  proof -
    have "patch_words (o1 + 8) xs ?v ! i = ?v ! i" using that by (intro IH(3)) auto
    also have "\<dots> = v ! i" using patch_nth[OF o that(1)] that(2) by auto
    finally show ?thesis by simp
  qed
  ultimately show ?case using IH(1) by simp
qed

lemma length_patch_words: "o1 + 8 * length xs \<le> length v \<Longrightarrow> length (patch_words o1 xs v) = length v"
  using patch_words_spec by blast

lemma slice_patch_words:
  "o1 + 8 * length xs \<le> length v \<Longrightarrow> i < length xs \<Longrightarrow>
    slice (o1 + 8 * i) 8 (patch_words o1 xs v) = to_le_bytes 8 (unat (xs ! i))"
  using patch_words_spec by blast

lemma slice_patch_words_other:
  assumes "o1 + 8 * length xs \<le> length v" "o2 + n \<le> length v" "o2 + n \<le> o1 \<or> o1 + 8 * length xs \<le> o2"
  shows "slice o2 n (patch_words o1 xs v) = slice o2 n v"
proof (rule slice_eqI)
  note p = patch_words_spec[OF assms(1)]
  show "length (patch_words o1 xs v) = length v" using p by blast
  then show "o2 + n \<le> length (patch_words o1 xs v)" using assms(2) by simp
  show "patch_words o1 xs v ! i = v ! i" if "o2 \<le> i" "i < o2 + n" for i
  proof -
    have "i < length v" "i < o1 \<or> o1 + 8 * length xs \<le> i" using that assms(2,3) by linarith+
    then show ?thesis using p by blast
  qed
qed

lemma patch_append:
  assumes "o1 + length (a @ b) \<le> length v"
  shows "patch o1 (a @ b) v = patch (o1 + length a) b (patch o1 a v)"
proof (rule nth_equalityI)
  have l: "o1 + length a \<le> length v" "o1 + length a + length b \<le> length (patch o1 a v)"
    using assms by (simp_all add: length_patch)
  show "length (patch o1 (a @ b) v) = length (patch (o1 + length a) b (patch o1 a v))"
    using assms l by (simp add: length_patch)
  fix i assume "i < length (patch o1 (a @ b) v)"
  then have i: "i < length v" "i < length (patch o1 a v)" using assms l by (simp_all add: length_patch)
  show "patch o1 (a @ b) v ! i = patch (o1 + length a) b (patch o1 a v) ! i"
    unfolding patch_nth[OF assms i(1)] patch_nth[OF l(2) i(2)] patch_nth[OF l(1) i(1)]
    by (auto simp: nth_append)
qed

definition aux_words :: "(u64 \<times> u64) list \<Rightarrow> u64 list" where
  "aux_words aux = concat (map (\<lambda>(tag, val). [tag, val]) aux)"

lemma length_aux_words [simp]: "length (aux_words aux) = 2 * length aux"
  by (induction aux) (auto simp: aux_words_def)

lemma patch_aux_eq:
  "ao + 16 * length aux \<le> length v \<Longrightarrow> patch_aux ao aux v = Inr (patch_words ao (aux_words aux) v)"
proof (induction aux arbitrary: ao v)
  case Nil
  then show ?case by (simp add: aux_words_def)
next
  case (Cons x aux)
  obtain tag val where x: "x = (tag, val)" by (cases x)
  let ?a = "to_le_bytes 8 (unat tag)" and ?b = "to_le_bytes 8 (unat val)"
  have l: "ao + length (?a @ ?b) \<le> length v" using Cons.prems by simp
  have "ao + 16 + 16 * length aux \<le> length (patch ao (?a @ ?b) v)" using Cons.prems l by (simp add: length_patch)
  from Cons.IH[OF this] show ?case using Cons.prems patch_append[OF l]
    by (simp add: x aux_words_def add.assoc)
qed

section \<open>The strings\<close>

definition cstring_at :: "u8 list \<Rightarrow> nat \<Rightarrow> u8 list \<Rightarrow> bool" where
  "cstring_at v p s \<longleftrightarrow> p + length s + 1 \<le> length v \<and> slice p (length s + 1) v = s @ [0]"

lemma cstring_at_append: "cstring_at v p s \<Longrightarrow> cstring_at (v @ t) p s"
  by (auto simp: cstring_at_def slice_def)

definition strings_size :: "u8 list list \<Rightarrow> nat" where
  "strings_size ss = sum_list (map (\<lambda>s. length s + 1 + padding 8 (length s + 1)) ss)"

lemma pad_aligned:
  assumes "0 < m"
  shows "(len + padding m len) mod m = 0"
proof (cases "len mod m = 0")
  case False
  have l: "len mod m < m" using assms by simp
  have p: "padding m len = m - len mod m" using False assms by (simp add: padding_def)
  have "len = m * (len div m) + len mod m" by simp
  then have "len + padding m len = m * (len div m) + m" unfolding p using l by linarith
  then show ?thesis by simp
qed (simp add: padding_def)

lemma padding_aligned: "len mod 8 = 0 \<Longrightarrow> padding 8 (len + n) = padding 8 n"
  by (simp add: padding_def mod_add_left_eq[of len 8 n, symmetric])

lemma push_strings_spec:
  assumes "length v mod 8 = 0"
  shows "\<exists>ps t. push_strings ss (offs, v) = (offs @ map (\<lambda>p. stack_lo + of_nat p) ps, v @ t)
    \<and> length ps = length ss \<and> length t = strings_size ss \<and> length (v @ t) mod 8 = 0
    \<and> (\<forall>i < length ss. length v \<le> ps ! i \<and> cstring_at (v @ t) (ps ! i) (ss ! i))"
  using assms
proof (induction ss arbitrary: offs v)
  case Nil
  then show ?case by (simp add: strings_size_def)
next
  case (Cons s ss)
  let ?n = "padding 8 (length s + 1)"
  let ?v = "v @ s @ [0] @ replicate ?n 0"
  have pv: "pad_to 8 (v @ s @ [0]) = ?v"
    using padding_aligned[OF Cons.prems, of "length s + 1"] by (simp add: pad_to_eq)
  have "8 dvd length v" "8 dvd length s + 1 + ?n"
    using Cons.prems pad_aligned[of 8 "length s + 1"] unfolding mod_eq_0_iff_dvd by simp_all
  then have "8 dvd length v + (length s + 1 + ?n)" by (rule dvd_add)
  moreover have "length ?v = length v + (length s + 1 + ?n)" by simp
  ultimately have "length ?v mod 8 = 0" by (metis mod_eq_0_iff_dvd)
  from Cons.IH[OF this, of "offs @ [stack_lo + of_nat (length v)]"] obtain ps t where
    t: "push_strings ss (offs @ [stack_lo + of_nat (length v)], ?v) =
        ((offs @ [stack_lo + of_nat (length v)]) @ map (\<lambda>p. stack_lo + of_nat p) ps, ?v @ t)"
      "length ps = length ss" "length t = strings_size ss" "length (?v @ t) mod 8 = 0"
      "\<forall>i < length ss. length ?v \<le> ps ! i \<and> cstring_at (?v @ t) (ps ! i) (ss ! i)"
    by - (elim exE conjE, rule that)
  let ?ps = "length v # ps" and ?t = "s @ [0] @ replicate ?n 0 @ t"
  have vt: "?v @ t = v @ ?t" by simp
  have c: "cstring_at (v @ ?t) (length v) s" by (simp add: cstring_at_def slice_def)
  have lv: "length v \<le> length ?v" by simp
  have str: "\<forall>i < length (s # ss). length v \<le> ?ps ! i \<and> cstring_at (v @ ?t) (?ps ! i) ((s # ss) ! i)"
  proof (intro allI impI)
    fix i assume i: "i < length (s # ss)"
    show "length v \<le> ?ps ! i \<and> cstring_at (v @ ?t) (?ps ! i) ((s # ss) ! i)"
    proof (cases i)
      case (Suc i')
      then have h: "length ?v \<le> ps ! i'" "cstring_at (v @ ?t) (ps ! i') (ss ! i')" using t(5) i unfolding vt by simp_all
      have "length v \<le> ps ! i'" using lv h(1) by linarith
      then show ?thesis unfolding Suc nth_Cons_Suc using h(2) by blast
    qed (use c in simp)
  qed
  have "push_strings (s # ss) (offs, v) = push_strings ss (offs @ [stack_lo + of_nat (length v)], ?v)"
    unfolding push_strings.simps pv ..
  also have "\<dots> = (offs @ map (\<lambda>p. stack_lo + of_nat p) ?ps, v @ ?t)" unfolding t(1) vt by simp
  finally have ps: "push_strings (s # ss) (offs, v) = (offs @ map (\<lambda>p. stack_lo + of_nat p) ?ps, v @ ?t)" .
  have "length ?t = strings_size (s # ss)" using t(3) by (simp add: strings_size_def)
  then show ?case using ps str t(2,4) unfolding vt by (intro exI[of _ ?ps] exI[of _ ?t] conjI) simp_all
qed

section \<open>The layout\<close>

definition tables_size :: "nat \<Rightarrow> nat \<Rightarrow> nat" where
  "tables_size argc envc = 120 + 8 * argc + 8 * envc + padding 16 (120 + 8 * argc + 8 * envc)"

definition exec_stack_size :: "u8 list list \<Rightarrow> u8 list list \<Rightarrow> nat" where
  "exec_stack_size argv envp = tables_size (length argv) (length envp) + strings_size envp + strings_size argv"

definition word_at :: "u8 list \<Rightarrow> nat \<Rightarrow> nat" where
  "word_at v o1 = from_le_bytes (slice o1 8 v)"

definition stack_layout :: "elf_loaded_meta \<Rightarrow> u8 list list \<Rightarrow> u8 list list \<Rightarrow> u8 list \<Rightarrow> bool" where
  "stack_layout meta argv envp v \<longleftrightarrow>
     (let argc = length argv; envc = length envp; env = 16 + 8 * argc; aux = env + 8 * envc + 8 in
      word_at v 0 = argc
      \<and> (\<forall>i < argc. \<exists>p. word_at v (8 + 8 * i) = unat stack_lo + p \<and> cstring_at v p (argv ! i))
      \<and> word_at v (8 + 8 * argc) = 0
      \<and> (\<forall>i < envc. \<exists>p. word_at v (env + 8 * i) = unat stack_lo + p \<and> cstring_at v p (envp ! i))
      \<and> word_at v (env + 8 * envc) = 0
      \<and> (\<forall>i < 6. word_at v (aux + 16 * i) = unat (fst (auxv meta ! i))
          \<and> word_at v (aux + 16 * i + 8) = unat (snd (auxv meta ! i))))"

lemma zero_words: "concat (replicate n (replicate m x)) = replicate (n * m) x"
  by (induction n) (simp_all add: replicate_add)

lemma tables_eq:
  "exec_stack_tables argv envp = to_le_bytes 8 (length argv) @ replicate (tables_size (length argv) (length envp) - 8) 0"
proof -
  have z: "to_le_bytes n 0 = replicate n 0" for n by (induction n) simp_all
  let ?n = "length argv * 8 + (8 + (length envp * 8 + (8 + 6 * (8 + 8))))"
  have v: "exec_stack_tables argv envp = pad_to 16 (to_le_bytes 8 (length argv) @ replicate ?n 0)"
    unfolding exec_stack_tables_def Let_def z append_assoc zero_words replicate_add[symmetric] ..
  have n: "length (to_le_bytes 8 (length argv) @ replicate ?n 0) = 120 + 8 * length argv + 8 * length envp" by simp
  have "tables_size (length argv) (length envp) - 8 = ?n + padding 16 (120 + 8 * length argv + 8 * length envp)"
    by (simp add: tables_size_def)
  then show ?thesis unfolding v pad_to_eq[of 16, simplified] n append_assoc replicate_add[symmetric] by simp
qed

lemma length_tables: "length (exec_stack_tables argv envp) = tables_size (length argv) (length envp)"
  unfolding tables_eq by (simp add: tables_size_def)

lemma tables_aligned: "length (exec_stack_tables argv envp) mod 8 = 0"
proof -
  have "16 dvd tables_size (length argv) (length envp)"
    using pad_aligned[of 16 "120 + 8 * length argv + 8 * length envp"] unfolding tables_size_def mod_eq_0_iff_dvd by simp
  then have "8 dvd tables_size (length argv) (length envp)" by (rule dvd_trans[rotated]) simp
  then show ?thesis unfolding length_tables mod_eq_0_iff_dvd .
qed

lemma tables_slices:
  "slice 0 8 (exec_stack_tables argv envp) = to_le_bytes 8 (length argv)"
  "8 \<le> o1 \<Longrightarrow> o1 + 8 \<le> tables_size (length argv) (length envp) \<Longrightarrow>
     slice o1 8 (exec_stack_tables argv envp) = replicate 8 0"
  unfolding tables_eq slice_def by (simp_all add: min_def)

lemma from_le_zero: "from_le_bytes (replicate n 0) = 0"
  by (induction n) simp_all

lemma slice_append: "o1 + n \<le> length v \<Longrightarrow> slice o1 n (v @ t) = slice o1 n v"
  by (simp add: slice_def)

lemma word_of_bytes: "x < 2 ^ 64 \<Longrightarrow> from_le_bytes (to_le_bytes 8 x) = x"
  by (simp add: from_to_le_bytes)

lemma word_of_u64: "from_le_bytes (to_le_bytes 8 (unat (w :: u64))) = unat w"
  by (rule word_of_bytes[OF u64_bound])

lemma stack_lo_unat: "unat stack_lo = 0x401000"
  by (simp add: stack_lo_def USER_STACK_TOP_def)

lemma stack_addr: "p < 4096 \<Longrightarrow> unat (stack_lo + of_nat p) = unat stack_lo + p"
proof -
  assume p: "p < 4096"
  have "unat (of_nat p :: u64) = p" using p by (intro unat_of_nat_u64) simp
  then show ?thesis using p by (subst unat_add_ok) (simp_all add: add_ok_def stack_lo_unat)
qed

text \<open>
  The three patches of a vector whose first part holds the tables, in disjoint places: what the
  tables hold afterwards, and that the rest is as before.
\<close>

lemma three_patches:
  fixes argc envc :: nat
  defines "env \<equiv> 16 + 8 * argc" and "aux \<equiv> 24 + 8 * argc + 8 * envc"
  assumes "length es = envc" "length as = argc" "length ws = 12" "aux + 96 \<le> tab" "tab \<le> length v"
  defines "w \<equiv> patch_words aux ws (patch_words 8 as (patch_words env es v))"
  shows "length w = length v"
    and "i < argc \<Longrightarrow> word_at w (8 + 8 * i) = unat (as ! i)"
    and "i < envc \<Longrightarrow> word_at w (env + 8 * i) = unat (es ! i)"
    and "i < 12 \<Longrightarrow> word_at w (aux + 8 * i) = unat (ws ! i)"
    and "word_at w 0 = word_at v 0" "word_at w (8 + 8 * argc) = word_at v (8 + 8 * argc)"
    and "word_at w (env + 8 * envc) = word_at v (env + 8 * envc)"
    and "tab \<le> o1 \<Longrightarrow> o1 + n \<le> length v \<Longrightarrow> slice o1 n w = slice o1 n v"
proof -
  let ?v1 = "patch_words env es v" and ?v2 = "patch_words 8 as (patch_words env es v)"
  have f1: "env + 8 * length es \<le> length v" using assms(3-7) by (simp add: env_def aux_def)
  have l1: "length ?v1 = length v" by (rule length_patch_words[OF f1])
  have f2: "8 + 8 * length as \<le> length ?v1" unfolding l1 using assms(3-7) by (simp add: aux_def)
  have l2: "length ?v2 = length v" using length_patch_words[OF f2] l1 by simp
  have f3: "aux + 8 * length ws \<le> length ?v2" unfolding l2 using assms(5-7) by simp
  show "length w = length v" unfolding w_def using length_patch_words[OF f3] l2 by simp
  note o1 = slice_patch_words_other[OF f1] and o2 = slice_patch_words_other[OF f2, unfolded l1]
    and o3 = slice_patch_words_other[OF f3, unfolded l2]
  have b: "aux + 96 \<le> length v" using assms(6,7) by simp
  show "i < argc \<Longrightarrow> word_at w (8 + 8 * i) = unat (as ! i)"
    using slice_patch_words[OF f2, of i] b assms(4) o3[of "8 + 8 * i" 8]
    by (simp add: word_at_def w_def word_of_u64 aux_def)
  show "i < envc \<Longrightarrow> word_at w (env + 8 * i) = unat (es ! i)"
    using slice_patch_words[OF f1, of i] b assms(3,4) o3[of "env + 8 * i" 8] o2[of "env + 8 * i" 8]
    by (simp add: word_at_def w_def word_of_u64 aux_def env_def)
  show "i < 12 \<Longrightarrow> word_at w (aux + 8 * i) = unat (ws ! i)"
    using slice_patch_words[OF f3, of i] assms(5) by (simp add: word_at_def w_def word_of_u64)
  show "word_at w 0 = word_at v 0"
    using b o1[of 0 8] o2[of 0 8] o3[of 0 8] by (simp add: word_at_def w_def aux_def env_def)
  show "word_at w (8 + 8 * argc) = word_at v (8 + 8 * argc)"
    using b assms(4) o1[of "8 + 8 * argc" 8] o2[of "8 + 8 * argc" 8] o3[of "8 + 8 * argc" 8]
    by (simp add: word_at_def w_def aux_def env_def)
  show "word_at w (env + 8 * envc) = word_at v (env + 8 * envc)"
    using b assms(3,4) o1[of "env + 8 * envc" 8] o2[of "env + 8 * envc" 8] o3[of "env + 8 * envc" 8]
    by (simp add: word_at_def w_def aux_def env_def)
  show "tab \<le> o1 \<Longrightarrow> o1 + n \<le> length v \<Longrightarrow> slice o1 n w = slice o1 n v"
    using assms(3-6) o1[of o1 n] o2[of o1 n] o3[of o1 n] by (simp add: w_def aux_def env_def)
qed

lemma aux_words_auxv:
  assumes "i < 6"
  shows "aux_words (auxv meta) ! (2 * i) = fst (auxv meta ! i)" "aux_words (auxv meta) ! (2 * i + 1) = snd (auxv meta ! i)"
proof -
  have "i \<in> {0, 1, 2, 3, 4, 5}" using assms by auto
  then show "aux_words (auxv meta) ! (2 * i) = fst (auxv meta ! i)" "aux_words (auxv meta) ! (2 * i + 1) = snd (auxv meta ! i)"
    by (auto simp: aux_words_def auxv_def)
qed

lemma exec_stack_bytes_eq:
  obtains pe pa t where "length pe = length envp" "length pa = length argv"
    "length (exec_stack_tables argv envp @ t) = exec_stack_size argv envp"
    "\<forall>i < length envp. tables_size (length argv) (length envp) \<le> pe ! i
       \<and> cstring_at (exec_stack_tables argv envp @ t) (pe ! i) (envp ! i)"
    "\<forall>i < length argv. tables_size (length argv) (length envp) \<le> pa ! i
       \<and> cstring_at (exec_stack_tables argv envp @ t) (pa ! i) (argv ! i)"
    "exec_stack_bytes meta argv envp =
      (if exec_stack_size argv envp \<le> 4096 then
         Inr (patch_words (24 + 8 * length argv + 8 * length envp) (aux_words (auxv meta))
           (patch_words 8 (map (\<lambda>p. stack_lo + of_nat p) pa)
             (patch_words (16 + 8 * length argv) (map (\<lambda>p. stack_lo + of_nat p) pe) (exec_stack_tables argv envp @ t))))
       else Inl ''stack ovf'')"
proof -
  let ?T = "exec_stack_tables argv envp" and ?argc = "length argv" and ?envc = "length envp"
  obtain pe t1 where e: "push_strings envp ([], ?T) = ([] @ map (\<lambda>p. stack_lo + of_nat p) pe, ?T @ t1)"
    "length pe = ?envc" "length t1 = strings_size envp" "length (?T @ t1) mod 8 = 0"
    "\<forall>i < ?envc. length ?T \<le> pe ! i \<and> cstring_at (?T @ t1) (pe ! i) (envp ! i)"
    using push_strings_spec[OF tables_aligned, of envp "[]" argv envp] by - (elim exE conjE, rule that)
  obtain pa t2 where a: "push_strings argv (map (\<lambda>p. stack_lo + of_nat p) pe, ?T @ t1)
        = (map (\<lambda>p. stack_lo + of_nat p) pe @ map (\<lambda>p. stack_lo + of_nat p) pa, (?T @ t1) @ t2)"
    "length pa = ?argc" "length t2 = strings_size argv"
    "\<forall>i < ?argc. length (?T @ t1) \<le> pa ! i \<and> cstring_at ((?T @ t1) @ t2) (pa ! i) (argv ! i)"
    using push_strings_spec[OF e(4), of argv "map (\<lambda>p. stack_lo + of_nat p) pe"] by - (elim exE conjE, rule that)
  let ?t = "t1 @ t2"
  have sz: "length (?T @ ?t) = exec_stack_size argv envp"
    using e(3) a(3) by (simp add: exec_stack_size_def length_tables)
  have se: "\<forall>i < ?envc. tables_size ?argc ?envc \<le> pe ! i \<and> cstring_at (?T @ ?t) (pe ! i) (envp ! i)"
    using e(5) cstring_at_append[of "?T @ t1" _ _ t2] by (simp add: length_tables)
  have sa: "\<forall>i < ?argc. tables_size ?argc ?envc \<le> pa ! i \<and> cstring_at (?T @ ?t) (pa ! i) (argv ! i)"
    using a(4) by (fastforce simp: length_tables)
  let ?v = "patch_words 8 (map (\<lambda>p. stack_lo + of_nat p) pa)
      (patch_words (16 + 8 * ?argc) (map (\<lambda>p. stack_lo + of_nat p) pe) (?T @ ?t))"
  have tl: "120 + 8 * ?argc + 8 * ?envc \<le> length (?T @ ?t)" by (simp add: length_tables tables_size_def)
  have l1: "length (patch_words (16 + 8 * ?argc) (map (\<lambda>p. stack_lo + of_nat p) pe) (?T @ ?t)) = length (?T @ ?t)"
    using tl e(2) by (intro length_patch_words) simp
  have l2: "length ?v = length (?T @ ?t)" using tl a(2) l1 by (subst length_patch_words) simp_all
  have ax: "patch_aux (24 + 8 * ?argc + 8 * ?envc) (auxv meta) ?v
      = Inr (patch_words (24 + 8 * ?argc + 8 * ?envc) (aux_words (auxv meta)) ?v)"
    using tl by (intro patch_aux_eq) (simp add: l2 auxv_def)
  have ao: "8 + 8 * ?argc + 8 + (?envc + 1) * 8 = 24 + 8 * ?argc + 8 * ?envc" "8 + 8 * ?argc + 8 = 16 + 8 * ?argc" by simp_all
  have "exec_stack_bytes meta argv envp =
    (if unat stack_lo + length (?T @ ?t) > unat USER_STACK_TOP then Inl ''stack ovf''
     else patch_aux (8 + 8 * ?argc + 8 + (?envc + 1) * 8) (auxv meta)
       (patch_words 8 (map (\<lambda>p. stack_lo + of_nat p) pa)
         (patch_words (8 + 8 * ?argc + 8) (map (\<lambda>p. stack_lo + of_nat p) pe) (?T @ ?t))))"
    unfolding exec_stack_bytes_def Let_def e(1) append_Nil a(1) prod.case
    using e(2) by (simp del: push_strings.simps)
  then have "exec_stack_bytes meta argv envp =
    (if exec_stack_size argv envp \<le> 4096 then Inr (patch_words (24 + 8 * ?argc + 8 * ?envc) (aux_words (auxv meta)) ?v)
     else Inl ''stack ovf'')"
    unfolding ao(1) unfolding ao(2) ax sz by (simp add: stack_lo_unat USER_STACK_TOP_def)
  with e(2) a(2) sz se sa show ?thesis by (rule that)
qed

lemma exec_stack_layout:
  "if exec_stack_size argv envp \<le> 4096
   then \<exists>v. exec_stack_bytes meta argv envp = Inr v \<and> length v = exec_stack_size argv envp \<and> stack_layout meta argv envp v
   else exec_stack_bytes meta argv envp = Inl ''stack ovf''"
proof (cases "exec_stack_size argv envp \<le> 4096")
  case True
  let ?argc = "length argv" and ?envc = "length envp" and ?T = "exec_stack_tables argv envp"
  let ?tab = "tables_size ?argc ?envc" and ?at = "\<lambda>p. stack_lo + of_nat p"
  obtain pe pa t where o: "length pe = ?envc" "length pa = ?argc" "length (?T @ t) = exec_stack_size argv envp"
    "\<forall>i < ?envc. ?tab \<le> pe ! i \<and> cstring_at (?T @ t) (pe ! i) (envp ! i)"
    "\<forall>i < ?argc. ?tab \<le> pa ! i \<and> cstring_at (?T @ t) (pa ! i) (argv ! i)"
    "exec_stack_bytes meta argv envp = (if exec_stack_size argv envp \<le> 4096 then
       Inr (patch_words (24 + 8 * ?argc + 8 * ?envc) (aux_words (auxv meta))
         (patch_words 8 (map ?at pa) (patch_words (16 + 8 * ?argc) (map ?at pe) (?T @ t)))) else Inl ''stack ovf'')"
    by (rule exec_stack_bytes_eq)
  define w where "w = patch_words (24 + 8 * ?argc + 8 * ?envc) (aux_words (auxv meta))
         (patch_words 8 (map ?at pa) (patch_words (16 + 8 * ?argc) (map ?at pe) (?T @ t)))"
  have tb: "24 + 8 * ?argc + 8 * ?envc + 96 \<le> ?tab" "?tab \<le> length (?T @ t)"
    by (simp_all add: tables_size_def length_tables)
  have le: "length (map ?at pe) = ?envc" "length (map ?at pa) = ?argc" "length (aux_words (auxv meta)) = 12"
    using o(1,2) by (simp_all add: auxv_def)
  note p = three_patches[OF le tb, folded w_def]
  have cs: "unat (?at q) = unat stack_lo + q \<and> cstring_at w q s" if "?tab \<le> q" "cstring_at (?T @ t) q s" for q s
  proof -
    have q: "q + (length s + 1) \<le> length (?T @ t)" using that(2) by (simp add: cstring_at_def)
    then have "q < 4096" using o(3) True by simp
    moreover have "slice q (length s + 1) w = slice q (length s + 1) (?T @ t)" by (rule p(8)[OF that(1) q])
    ultimately show ?thesis using that(2) p(1) by (simp add: stack_addr cstring_at_def)
  qed
  have T: "word_at (?T @ t) 0 = ?argc" "word_at (?T @ t) (8 + 8 * ?argc) = 0" "word_at (?T @ t) (16 + 8 * ?argc + 8 * ?envc) = 0"
    using tables_slices(1)[of argv envp] tables_slices(2)[of "8 + 8 * ?argc" argv envp]
      tables_slices(2)[of "16 + 8 * ?argc + 8 * ?envc" argv envp] tb True o(3)
    by (simp_all add: word_at_def slice_append length_tables word_of_bytes from_le_zero tables_size_def)
  have ax: "word_at w (24 + 8 * ?argc + 8 * ?envc + 16 * i) = unat (fst (auxv meta ! i))
      \<and> word_at w (24 + 8 * ?argc + 8 * ?envc + 16 * i + 8) = unat (snd (auxv meta ! i))" if "i < 6" for i
    using p(4)[of "2 * i"] p(4)[of "2 * i + 1"] aux_words_auxv[OF that, of meta] that by (simp add: algebra_simps)
  have "stack_layout meta argv envp w"
    unfolding stack_layout_def Let_def
    using p(2,3,5-7) T ax cs o(1,2,4,5) by (auto simp: add.assoc)
  then show ?thesis using o(3,6) True p(1) unfolding w_def[symmetric] by simp
next
  case False
  then show ?thesis using exec_stack_bytes_eq[of envp argv meta] by auto
qed

section \<open>The bytes in memory\<close>

lemma write_stack_spec:
  assumes "x86_laws X" "kvm_ok X k" "window_ok X k" "unat va + length bs < 2 ^ 64"
    "\<forall>i < length bs. user_window (page_floor (va + of_nat i)) \<and> tr X k (va + of_nat i) \<noteq> None"
  shows "\<exists>m. write_stack X va bs k = Inr (None, k\<lparr>ram := m\<rparr>)
    \<and> (\<forall>i < length bs. m (the (tr X k (va + of_nat i))) = bs ! i)
    \<and> (\<forall>p. (\<forall>i < length bs. tr X k (va + of_nat i) \<noteq> Some p) \<longrightarrow> m p = ram k p)"
  using assms(2-)
proof (induction bs arbitrary: va k)
  case Nil
  show ?case by (intro exI[of _ "ram k"]) simp
next
  case (Cons b bs)
  have v: "vm_ok X (kvm k)" using Cons.prems(1) by (simp add: kvm_ok_def)
  have P: "user_window (page_floor (va + of_nat i))" "tr X k (va + of_nat i) \<noteq> None" if "i < Suc (length bs)" for i
    using Cons.prems(4) that by simp_all
  obtain p where p: "tr X k va = Some p" using P(2)[of 0] by auto
  have w0: "user_window (page_floor va)" using P(1)[of 0] by simp
  have vw: "virt_new X va" "window_addr X k p = Inr p"
    using window_virt[OF assms(1) w0] window_translate[OF assms(1) Cons.prems(1,2) w0 p] by blast+
  let ?k = "k\<lparr>ram := (ram k)(p := b)\<rparr>"
  have k: "kvm_ok X ?k" "window_ok X ?k"
    using Cons.prems(1,2) kvm_ok_cong[of ?k k X] window_ok_cong[of ?k k X] by simp_all
  have u: "unat (va + 1) = Suc (unat va)"
    using Cons.prems(3) by (subst unat_add_ok) (simp_all add: add_ok_def)
  have s: "va + 1 + of_nat i = va + of_nat (Suc i)" for i by simp
  have pt: "page_table ?k = page_table k" by simp
  have W: "\<forall>i < length bs. user_window (page_floor (va + 1 + of_nat i)) \<and> tr X ?k (va + 1 + of_nat i) \<noteq> None"
    unfolding s pt using P[of "Suc _"] by blast
  have ub: "unat (va + 1) + length bs < 2 ^ 64" using Cons.prems(3) u by simp
  from Cons.IH[OF k ub W] obtain m where m: "write_stack X (va + 1) bs ?k = Inr (None, ?k\<lparr>ram := m\<rparr>)"
    "\<forall>i < length bs. m (the (tr X k (va + of_nat (Suc i)))) = bs ! i"
    "\<forall>q. (\<forall>i < length bs. tr X k (va + of_nat (Suc i)) \<noteq> Some q) \<longrightarrow> m q = ram ?k q"
    unfolding s pt by - (elim exE conjE, rule that)
  have ne: "tr X k (va + of_nat (Suc i)) \<noteq> Some p" if i: "i < length bs" for i
  proof
    assume t: "tr X k (va + of_nat (Suc i)) = Some p"
    have si: "Suc i < Suc (length bs)" using i by simp
    have "va + of_nat (Suc i) = va"
      using user_addr_inj[OF assms(1) v P(1)[OF si] w0, of p] t p by simp
    from arg_cong[OF this, of unat] have "unat (va + of_nat (Suc i)) = unat va" .
    moreover have "unat (of_nat (Suc i) :: u64) = Suc i" using i Cons.prems(3) by (intro unat_of_nat_u64) simp
    then have "unat (va + of_nat (Suc i)) = unat va + Suc i"
      using i Cons.prems(3) by (subst unat_add_ok) (simp_all add: add_ok_def del: of_nat_Suc)
    ultimately show False by simp
  qed
  have mb: "m p = b" using m(3) ne by simp
  have e: "write_stack X va (b # bs) k = Inr (None, k\<lparr>ram := m\<rparr>)"
    using vw p m(1) by (simp add: write_user_byte_def)
  have "m (the (tr X k (va + of_nat i))) = (b # bs) ! i" if "i < length (b # bs)" for i
    using that mb m(2) p by (cases i) (simp_all del: of_nat_Suc)
  moreover have "m q = ram k q" if "\<forall>i < length (b # bs). tr X k (va + of_nat i) \<noteq> Some q" for q
  proof -
    have "q \<noteq> p" using that[rule_format, of 0] p by auto
    moreover have "\<forall>i < length bs. tr X k (va + of_nat (Suc i)) \<noteq> Some q"
      by (intro allI impI, rule that[rule_format]) simp
    ultimately show ?thesis using m(3) by simp
  qed
  ultimately show ?case using e by (intro exI[of _ m]) blast
qed

lemma build_exec_stack_fits:
  assumes "x86_laws X" "kvm_ok X k" "window_ok X k" "tr X k 0x401000 \<noteq> None" "exec_stack_size argv envp \<le> 4096"
  shows "\<exists>m v. build_exec_stack X meta argv envp k = Inr (Inr stack_lo, k\<lparr>ram := m\<rparr>)
      \<and> length v = exec_stack_size argv envp \<and> stack_layout meta argv envp v
      \<and> (\<forall>i < length v. load8 X (k\<lparr>ram := m\<rparr>) (stack_lo + of_nat i) = Inr (v ! i))
      \<and> (\<forall>p. (\<forall>i < length v. tr X k (stack_lo + of_nat i) \<noteq> Some p) \<longrightarrow> m p = ram k p)"
proof -
  obtain v where v: "exec_stack_bytes meta argv envp = Inr v" "length v = exec_stack_size argv envp" "stack_layout meta argv envp v"
    using exec_stack_layout[of argv envp meta] assms(5) by auto
  have sl: "stack_lo = 0x401000" by (simp add: stack_lo_def USER_STACK_TOP_def)
  have lt: "unat (0x401000 :: u64) < 0x480000" by simp
  have P: "user_window (page_floor (stack_lo + of_nat i)) \<and> tr X k (stack_lo + of_nat i) \<noteq> None" if "i < length v" for i
    using page_bytes(1,2)[OF stack_page_facts(1,3) assms(4,1) _ lt, of i] that v(2) assms(5) unfolding sl by simp
  have ub: "unat stack_lo + length v < 2 ^ 64" using v(2) assms(5) by (simp add: stack_lo_unat)
  obtain m where m: "write_stack X stack_lo v k = Inr (None, k\<lparr>ram := m\<rparr>)"
    "\<forall>i < length v. m (the (tr X k (stack_lo + of_nat i))) = v ! i"
    "\<forall>p. (\<forall>i < length v. tr X k (stack_lo + of_nat i) \<noteq> Some p) \<longrightarrow> m p = ram k p"
    using write_stack_spec[OF assms(1-3) ub] P by blast
  have "load8 X (k\<lparr>ram := m\<rparr>) (stack_lo + of_nat i) = Inr (v ! i)" if "i < length v" for i
    using P[OF that] m(2) that by (auto simp: load8_def)
  moreover have "build_exec_stack X meta argv envp k = Inr (Inr stack_lo, k\<lparr>ram := m\<rparr>)"
    using v(1) m(1) by (simp add: build_exec_stack_def)
  ultimately show ?thesis using v(2,3) m(3) by blast
qed

lemma build_exec_stack_overflows:
  "\<not> exec_stack_size argv envp \<le> 4096 \<Longrightarrow> build_exec_stack X meta argv envp k = Inr (Inl ''stack ovf'', k)"
  using exec_stack_layout[of argv envp meta] by (simp add: build_exec_stack_def)

text \<open>
  (C13) The initial stack of a program. When the stack page is mapped and the tables and strings fit
  it, \<open>build_exec_stack\<close> succeeds with the bottom of the page as stack pointer, and the page holds
  from there: the number of arguments, a pointer to each argument string, a null word, a pointer to
  each environment string, a null word, and the six pairs of the auxiliary vector; every pointer is
  the address of its string in the page, ended by a null byte. Otherwise nothing is written.
\<close>

theorem exec_stack_built:
  assumes "x86_laws X" "kvm_ok X k" "window_ok X k" "tr X k 0x401000 \<noteq> None"
  shows "if exec_stack_size argv envp \<le> 4096
    then \<exists>m v. build_exec_stack X meta argv envp k = Inr (Inr stack_lo, k\<lparr>ram := m\<rparr>)
      \<and> length v = exec_stack_size argv envp \<and> stack_layout meta argv envp v
      \<and> (\<forall>i < length v. load8 X (k\<lparr>ram := m\<rparr>) (stack_lo + of_nat i) = Inr (v ! i))
    else build_exec_stack X meta argv envp k = Inr (Inl ''stack ovf'', k)"
proof (cases "exec_stack_size argv envp \<le> 4096")
  case True
  then show ?thesis unfolding if_P[OF True] using build_exec_stack_fits[OF assms True] by blast
next
  case False
  then show ?thesis unfolding if_not_P[OF False] by (rule build_exec_stack_overflows)
qed

theorem exec_stack_built_witness:
  "\<exists>m v. build_exec_stack map_x86 \<lparr>meta_entry = 0x400078, meta_phdr = 0x400040, meta_phnum = 1, meta_phent = 56,
       meta_image_end = 0x4000C8, meta_rw_min = 0x400000\<rparr> [[0x73, 0x68]] [] stack_demo
     = Inr (Inr stack_lo, stack_demo\<lparr>ram := m\<rparr>) \<and> word_at v 0 = 1 \<and> length v = 136"
proof -
  have sz: "exec_stack_size [[0x73, 0x68]] [] = 136"
    by (simp add: exec_stack_size_def tables_size_def strings_size_def padding_def)
  show ?thesis
    using exec_stack_built[OF map_x86_laws stack_demo_ok stack_demo_window stack_demo_mapped,
        of "[[0x73, 0x68]]" "[]" "\<lparr>meta_entry = 0x400078, meta_phdr = 0x400040, meta_phnum = 1, meta_phent = 56,
          meta_image_end = 0x4000C8, meta_rw_min = 0x400000\<rparr>"]
    unfolding sz stack_layout_def by (simp add: Let_def) blast
qed

end
