(* ===== verification/Rock_Sched.thy ===== *)
theory Rock_Sched
  imports Rock_Process
begin

text \<open>
  The scheduler (\<open>src/scheduler.rs\<close>) and the interrupts it waits for (the handlers of
  \<open>src/interrupts.rs\<close>). Where the kernel halts until an interrupt, the interrupts that arrive are
  an argument, a list; \<open>None\<close> is a kernel that is still waiting when the list is used up.
\<close>

section \<open>The run queue\<close>

definition SLICE :: u64 where [rock_consts]: "SLICE = 12"

definition ticks :: "'pt kernel \<Rightarrow> u64" where
  "ticks k = TICKS k"

definition scheduler_init :: "'pt kernel \<Rightarrow> 'pt kernel" where
  "scheduler_init k = k\<lparr>SCHED := Some \<lparr>runnable = [0], time_slice_ticks = SLICE, last_started_tick = ticks k\<rparr>,
     NEED_RESCHED := False\<rparr>"

definition with_sched :: "(sched_state \<Rightarrow> sched_state) \<Rightarrow> 'pt kernel \<Rightarrow> 'pt kernel" where
  "with_sched f k = (case SCHED k of None \<Rightarrow> k | Some s \<Rightarrow> k\<lparr>SCHED := Some (f s)\<rparr>)"

definition on_timer_tick :: "u64 \<Rightarrow> 'pt kernel \<Rightarrow> 'pt kernel" where
  "on_timer_tick now k =
     (case SCHED k of None \<Rightarrow> k
      | Some s \<Rightarrow> if saturating_sub now (last_started_tick s) \<ge> time_slice_ticks s
                 then k\<lparr>NEED_RESCHED := True\<rparr> else k)"

definition note_yield :: "'pt kernel \<Rightarrow> 'pt kernel" where
  "note_yield k = k\<lparr>NEED_RESCHED := True\<rparr>"

definition sched_enqueue :: "nat \<Rightarrow> sched_state \<Rightarrow> sched_state" where
  "sched_enqueue slot s = (if slot \<notin> set (runnable s) then s\<lparr>runnable := runnable s @ [slot]\<rparr> else s)"

definition enqueue_new_task :: "nat \<Rightarrow> 'pt kernel \<Rightarrow> 'pt kernel" where
  "enqueue_new_task slot k = (with_sched (sched_enqueue slot) k)\<lparr>NEED_RESCHED := True\<rparr>"

definition sched_rotate :: "u64 \<Rightarrow> sched_state \<Rightarrow> sched_state" where
  "sched_rotate now s =
     s\<lparr>runnable := (case runnable s of [] \<Rightarrow> [] | front # rest \<Rightarrow> rest @ [front]), last_started_tick := now\<rparr>"

definition rotate_runnable :: "'pt kernel \<Rightarrow> 'pt kernel" where
  "rotate_runnable k = with_sched (sched_rotate (ticks k)) k"

definition sched_remove :: "nat \<Rightarrow> sched_state \<Rightarrow> sched_state" where
  "sched_remove slot s = s\<lparr>runnable := filter (\<lambda>x. x \<noteq> slot) (runnable s)\<rparr>"

section \<open>Interrupts\<close>

text \<open>An interrupt: the timer, or the keyboard with the status and data bytes it presents.\<close>

datatype irq = Timer | Keyboard u8 u8

definition timer_interrupt_handler :: "'pt kernel \<Rightarrow> 'pt kernel outcome" where
  "timer_interrupt_handler k =
     (if TICKS k = - 1 then Inl Overflow
      else let t = TICKS k + 1 in Inr (on_timer_tick t (k\<lparr>TICKS := t\<rparr>)))"

definition handle_keyboard_irq :: "u8 \<Rightarrow> u8 \<Rightarrow> 'pt kernel \<Rightarrow> 'pt kernel" where
  "handle_keyboard_irq status data k =
     (case irq_byte status data of None \<Rightarrow> k
      | Some b \<Rightarrow> k\<lparr>SCANCODE_QUEUE := snd (try_push b (SCANCODE_QUEUE k)), TTY := feed_scancode (TTY k) b\<rparr>)"

fun handle_irq :: "irq \<Rightarrow> 'pt kernel \<Rightarrow> 'pt kernel outcome" where
  "handle_irq Timer k = timer_interrupt_handler k"
| "handle_irq (Keyboard status data) k = Inr (handle_keyboard_irq status data k)"

fun handle_irqs :: "irq list \<Rightarrow> 'pt kernel \<Rightarrow> 'pt kernel outcome" where
  "handle_irqs [] k = Inr k"
| "handle_irqs (i # is) k = obind (handle_irq i k) (handle_irqs is)"

text \<open>\<open>sleep_until_ticks\<close> and \<open>wait_ticks\<close>; the result has the interrupts left over.\<close>

fun sleep_until_ticks :: "u64 \<Rightarrow> irq list \<Rightarrow> 'pt kernel \<Rightarrow> ('pt kernel \<times> irq list) option outcome" where
  "sleep_until_ticks deadline [] k = (if ticks k < deadline then Inr None else Inr (Some (k, [])))"
| "sleep_until_ticks deadline (i # is) k =
     (if ticks k < deadline then obind (handle_irq i k) (sleep_until_ticks deadline is)
      else Inr (Some (k, i # is)))"

fun wait_loop :: "u64 \<Rightarrow> u64 \<Rightarrow> irq list \<Rightarrow> 'pt kernel \<Rightarrow> ('pt kernel \<times> irq list) option outcome" where
  "wait_loop start n [] k =
     (if saturating_sub (ticks k) start < n then Inr None else Inr (Some (k, [])))"
| "wait_loop start n (i # is) k =
     (if saturating_sub (ticks k) start < n then obind (handle_irq i k) (wait_loop start n is)
      else Inr (Some (k, i # is)))"

definition wait_ticks :: "u64 \<Rightarrow> irq list \<Rightarrow> 'pt kernel \<Rightarrow> ('pt kernel \<times> irq list) option outcome" where
  "wait_ticks n irqs k = wait_loop (ticks k) n irqs k"

section \<open>Switching\<close>

text \<open>The search of \<open>pick_next_and_restore\<close>: dead slots are dropped from the front.\<close>

definition pick_candidate :: "'pt kernel \<Rightarrow> nat option \<times> 'pt kernel" where
  "pick_candidate k =
     (case SCHED k of None \<Rightarrow> (None, k)
      | Some s \<Rightarrow> let r = dropWhile (\<lambda>c. \<not> slot_is_alive_runnable k c) (runnable s) in
          (case r of [] \<Rightarrow> None | c # _ \<Rightarrow> Some c, k\<lparr>SCHED := Some (s\<lparr>runnable := r\<rparr>)\<rparr>))"

fun pick_next :: "irq list \<Rightarrow> 'pt kernel \<Rightarrow> (nat \<times> 'pt kernel \<times> irq list) option outcome" where
  "pick_next irqs k =
     (case pick_candidate k of
        (Some c, k') \<Rightarrow> Inr (Some (c, k', irqs))
      | (None, k') \<Rightarrow> (case irqs of [] \<Rightarrow> Inr None | i # is \<Rightarrow> obind (handle_irq i k') (pick_next is)))"

definition restore_slot :: "u64 \<Rightarrow> nat \<Rightarrow> 'pt kernel \<Rightarrow> 'pt kernel outcome" where
  "restore_slot ret_to next_slot k =
     (let k = set_current_slot next_slot k;
          rx = pending_rax_for_slot k next_slot;
          top = kstack_top_for_slot k next_slot
      in obind (syscall_saved_for_slot k next_slot) (\<lambda>saved.
           Inr (k\<lparr>cpu := resume_user top saved ret_to rx (cpu k)\<rparr>)))"

definition pick_next_and_restore ::
  "u64 \<Rightarrow> irq list \<Rightarrow> 'pt kernel \<Rightarrow> ('pt kernel \<times> irq list) option outcome" where
  "pick_next_and_restore ret_to irqs k =
     obind (pick_next irqs k) (\<lambda>r. case r of None \<Rightarrow> Inr None
       | Some (c, k', rest) \<Rightarrow> obind (restore_slot ret_to c k') (\<lambda>k''. Inr (Some (k'', rest))))"

definition schedule_after_exit ::
  "u64 \<Rightarrow> irq list \<Rightarrow> 'pt kernel \<Rightarrow> ('pt kernel \<times> irq list) option outcome" where
  "schedule_after_exit ret_to irqs k =
     (let k = with_sched (sched_remove (CURRENT_SLOT k)) k; k = k\<lparr>NEED_RESCHED := True\<rparr>
      in pick_next_and_restore ret_to irqs k)"

definition complete_syscall_and_schedule ::
  "u64 \<Rightarrow> u64 \<Rightarrow> u64 \<Rightarrow> irq list \<Rightarrow> 'pt kernel \<Rightarrow> ('pt kernel \<times> irq list) option outcome" where
  "complete_syscall_and_schedule ret_to ret_val dispatch_rsp irqs k =
     (let slot = CURRENT_SLOT k;
          saved = save_from_dispatch_rsp (kmem (cpu k)) dispatch_rsp;
          k = set_syscall_saved slot saved ret_val k;
          resched = NEED_RESCHED k;
          k = k\<lparr>NEED_RESCHED := False\<rparr>;
          k = (if resched then rotate_runnable k else k)
      in pick_next_and_restore ret_to irqs k)"

section \<open>The queue as a round-robin ring\<close>

text \<open>
  The contract of a round-robin queue: turning it moves the front to the back, a new entry joins
  once at the back, and an entry can be removed. Its clients get a turn each per round.
\<close>

locale round_robin =
  fixes queue :: "'s \<Rightarrow> nat list" and turn :: "'s \<Rightarrow> 's"
    and join :: "nat \<Rightarrow> 's \<Rightarrow> 's" and leave :: "nat \<Rightarrow> 's \<Rightarrow> 's"
  assumes queue_turn: "queue (turn s) = rotate1 (queue s)"
    and queue_join: "queue (join i s) = (if i \<in> set (queue s) then queue s else queue s @ [i])"
    and queue_leave: "queue (leave i s) = filter (\<lambda>x. x \<noteq> i) (queue s)"
begin

lemma queue_turns: "queue ((turn ^^ n) s) = rotate n (queue s)"
  by (induction n) (simp_all add: queue_turn)

lemma front_after: "queue s \<noteq> [] \<Longrightarrow> hd (queue ((turn ^^ n) s)) = queue s ! (n mod length (queue s))"
  by (simp add: queue_turns hd_rotate_conv_nth)

lemma distinct_join: "distinct (queue s) \<Longrightarrow> distinct (queue (join i s))"
  by (simp add: queue_join)

lemma distinct_turn: "distinct (queue s) \<Longrightarrow> distinct (queue (turn s))"
  by (simp add: queue_turn)

lemma distinct_leave: "distinct (queue s) \<Longrightarrow> distinct (queue (leave i s)) \<and> i \<notin> set (queue (leave i s))"
  by (simp add: queue_leave)

lemma set_turn: "set (queue (turn s)) = set (queue s)"
  by (simp add: queue_turn)

lemma one_turn_per_round:
  assumes "distinct (queue s)" "i \<in> set (queue s)"
  shows "\<exists>!n. n < length (queue s) \<and> hd (queue ((turn ^^ n) s)) = i"
proof -
  obtain n where n: "n < length (queue s)" "queue s ! n = i" using assms(2) by (auto simp: in_set_conv_nth)
  have "queue s \<noteq> []" using assms(2) by auto
  then show ?thesis using n assms(1) by (intro ex1I[of _ n]) (auto simp: front_after nth_eq_iff_index_eq)
qed

end

lemma sched_rotate_runnable: "runnable (sched_rotate now s) = rotate1 (runnable s)"
  by (simp add: sched_rotate_def split: list.splits)

interpretation run_queue: round_robin runnable "sched_rotate now" sched_enqueue sched_remove for now
  by unfold_locales (simp_all add: sched_rotate_runnable sched_enqueue_def sched_remove_def)



section \<open>Interrupts and time\<close>

definition timer_count :: "irq list \<Rightarrow> nat" where
  "timer_count irqs = length (filter (\<lambda>i. i = Timer) irqs)"

lemma timer_count_simps [simp]:
  "timer_count [] = 0" "timer_count (Timer # is) = Suc (timer_count is)"
  "timer_count (Keyboard st d # is) = timer_count is"
  by (simp_all add: timer_count_def)

lemma on_timer_tick_fields [simp]:
  "TICKS (on_timer_tick t k) = TICKS k" "SCHED (on_timer_tick t k) = SCHED k" "TABLE (on_timer_tick t k) = TABLE k"
  by (simp_all add: on_timer_tick_def split: option.splits)

lemma handle_keyboard_irq_fields [simp]:
  "TICKS (handle_keyboard_irq st d k) = TICKS k" "SCHED (handle_keyboard_irq st d k) = SCHED k"
  "TABLE (handle_keyboard_irq st d k) = TABLE k" "NEED_RESCHED (handle_keyboard_irq st d k) = NEED_RESCHED k"
  by (simp_all add: handle_keyboard_irq_def split: option.splits)

lemma ticks_not_max: "Suc (unat (w :: u64)) < 2 ^ 64 \<Longrightarrow> w \<noteq> - 1"
  by (auto simp: unsigned_minus_1_eq_mask mask_eq_exp_minus_1)

lemma unat_ticks_Suc: "Suc (unat w) < 2 ^ 64 \<Longrightarrow> unat (w + 1 :: u64) = Suc (unat w)"
  by (simp add: unat_word_ariths)

lemma timer_tick:
  assumes "Suc (unat (TICKS k)) < 2 ^ 64"
  shows "\<exists>k'. handle_irq Timer k = Inr k' \<and> unat (TICKS k') = Suc (unat (TICKS k))
    \<and> SCHED k' = SCHED k \<and> TABLE k' = TABLE k
    \<and> (NEED_RESCHED k' \<longleftrightarrow> NEED_RESCHED k \<or> (\<exists>s. SCHED k = Some s
          \<and> unat (time_slice_ticks s) \<le> Suc (unat (TICKS k)) - unat (last_started_tick s)))"
proof -
  note n = ticks_not_max[OF assms]
  have e: "handle_irq Timer k = Inr (on_timer_tick (TICKS k + 1) (k\<lparr>TICKS := TICKS k + 1\<rparr>))"
    using n by (simp add: timer_interrupt_handler_def Let_def)
  show ?thesis unfolding e using unat_ticks_Suc[OF assms]
    by (auto simp: on_timer_tick_def word_le_nat_alt unat_saturating_sub split: option.splits)
qed

lemma handle_irqs_ticks:
  assumes "unat (TICKS k) + timer_count irqs < 2 ^ 64 - 1" "SCHED k = Some s"
  shows "\<exists>k'. handle_irqs irqs k = Inr k' \<and> unat (TICKS k') = unat (TICKS k) + timer_count irqs
    \<and> SCHED k' = Some s
    \<and> (NEED_RESCHED k' \<longleftrightarrow> NEED_RESCHED k \<or> 0 < timer_count irqs \<and>
          unat (time_slice_ticks s) \<le> unat (TICKS k) + timer_count irqs - unat (last_started_tick s))"
  using assms
proof (induction irqs arbitrary: k)
  case (Cons i irqs)
  show ?case
  proof (cases i)
    case Timer
    then have b: "Suc (unat (TICKS k)) < 2 ^ 64" using Cons.prems(1) by simp
    obtain k1 where k1: "handle_irq Timer k = Inr k1" "unat (TICKS k1) = Suc (unat (TICKS k))" "SCHED k1 = Some s"
      "NEED_RESCHED k1 \<longleftrightarrow> NEED_RESCHED k
          \<or> unat (time_slice_ticks s) \<le> Suc (unat (TICKS k)) - unat (last_started_tick s)"
      using timer_tick[OF b] Cons.prems(2) by auto
    have "unat (TICKS k1) + timer_count irqs < 2 ^ 64 - 1" using Cons.prems(1) Timer k1(2) by simp
    from Cons.IH[OF this k1(3)] show ?thesis using k1 Timer by (cases irqs) auto
  next
    case (Keyboard st d)
    then show ?thesis using Cons.IH[of "handle_keyboard_irq st d k"] Cons.prems by auto
  qed
qed simp



lemma sleep_spec:
  assumes "unat (TICKS k) + timer_count irqs < 2 ^ 64 - 1"
  shows "if unat deadline - unat (TICKS k) \<le> timer_count irqs
    then \<exists>k' rest. sleep_until_ticks deadline irqs k = Inr (Some (k', rest)) \<and> TICKS k' = max (TICKS k) deadline
    else sleep_until_ticks deadline irqs k = Inr None"
  using assms
proof (induction irqs arbitrary: k)
  case Nil
  then show ?case by (auto simp: ticks_def word_less_nat_alt max_def word_le_nat_alt word_unat_eq_iff)
next
  case (Cons i irqs)
  show ?case
  proof (cases "ticks k < deadline")
    case False
    then show ?thesis by (auto simp: ticks_def word_less_nat_alt max_def word_le_nat_alt word_unat_eq_iff)
  next
    case True
    show ?thesis
    proof (cases i)
      case Timer
      then have b: "Suc (unat (TICKS k)) < 2 ^ 64" using Cons.prems by simp
      obtain k1 where k1: "handle_irq Timer k = Inr k1" "unat (TICKS k1) = Suc (unat (TICKS k))"
        using timer_tick[OF b] by blast
      have "unat (TICKS k1) + timer_count irqs < 2 ^ 64 - 1" using Cons.prems Timer k1(2) by simp
      moreover have "max (TICKS k1) deadline = max (TICKS k) deadline"
        using True k1(2) by (auto simp: max_def word_le_nat_alt ticks_def word_less_nat_alt word_unat_eq_iff)
      ultimately show ?thesis using Cons.IH[of k1] k1 Timer True by (auto split: if_splits)
    next
      case (Keyboard st d)
      then show ?thesis using Cons.IH[of "handle_keyboard_irq st d k"] Cons.prems True by (auto split: if_splits)
    qed
  qed
qed

section \<open>Choosing the next task\<close>

lemma alive_table: "TABLE k' = TABLE k \<Longrightarrow> slot_is_alive_runnable k' = slot_is_alive_runnable k"
  by (simp add: fun_eq_iff slot_is_alive_runnable_def proc_of_slot_def)

lemma handle_irq_table: "handle_irq i k = Inr k' \<Longrightarrow> TABLE k' = TABLE k"
  by (cases i) (auto simp: timer_interrupt_handler_def Let_def split: if_splits)

text \<open>The queue invariant: no slot twice, and every process that can run is in it.\<close>

definition sched_ok :: "'pt kernel \<Rightarrow> bool" where
  "sched_ok k \<longleftrightarrow> (\<exists>s. SCHED k = Some s \<and> distinct (runnable s)
     \<and> (\<forall>i. slot_is_alive_runnable k i \<longrightarrow> i \<in> set (runnable s)))"

definition run_list :: "'pt kernel \<Rightarrow> nat list" where
  "run_list k = (case SCHED k of None \<Rightarrow> [] | Some s \<Rightarrow> runnable s)"

lemma sched_okD:
  "sched_ok k \<Longrightarrow> distinct (run_list k) \<and> (\<forall>i. slot_is_alive_runnable k i \<longrightarrow> i \<in> set (run_list k))"
  by (auto simp: sched_ok_def run_list_def)

lemma pick_candidate_Some:
  assumes "\<exists>i \<in> set (run_list k). slot_is_alive_runnable k i"
  shows "\<exists>s dead c rest. SCHED k = Some s \<and> runnable s = dead @ c # rest \<and> slot_is_alive_runnable k c
    \<and> (\<forall>d \<in> set dead. \<not> slot_is_alive_runnable k d)
    \<and> pick_candidate k = (Some c, k\<lparr>SCHED := Some (s\<lparr>runnable := c # rest\<rparr>)\<rparr>)"
proof -
  obtain s where s: "SCHED k = Some s" using assms by (cases "SCHED k") (auto simp: run_list_def)
  let ?P = "\<lambda>c. \<not> slot_is_alive_runnable k c"
  have "dropWhile ?P (runnable s) \<noteq> []" using assms s by (auto simp: run_list_def dropWhile_eq_Nil_conv)
  then obtain c rest where d: "dropWhile ?P (runnable s) = c # rest" by (cases "dropWhile ?P (runnable s)") auto
  have "slot_is_alive_runnable k c" using hd_dropWhile[of ?P "runnable s"] d by simp
  moreover have "runnable s = takeWhile ?P (runnable s) @ c # rest" using takeWhile_dropWhile_id[of ?P "runnable s"] d by simp
  ultimately show ?thesis using s d set_takeWhileD[of _ ?P "runnable s"]
    by (intro exI[of _ s] exI[of _ "takeWhile ?P (runnable s)"] exI[of _ c] exI[of _ rest])
      (auto simp: pick_candidate_def Let_def)
qed

lemma pick_candidate_None:
  assumes "\<forall>i. \<not> slot_is_alive_runnable k i"
  shows "fst (pick_candidate k) = None" "TABLE (snd (pick_candidate k)) = TABLE k"
proof -
  have d: "dropWhile (\<lambda>c. \<not> slot_is_alive_runnable k c) xs = []" for xs
    using assms by (simp add: dropWhile_eq_Nil_conv)
  show "fst (pick_candidate k) = None" "TABLE (snd (pick_candidate k)) = TABLE k"
    by (cases "SCHED k"; simp add: pick_candidate_def Let_def d)+
qed

lemma pick_next_alive:
  assumes "sched_ok k" "slot_is_alive_runnable k i"
  shows "\<exists>s dead c rest. SCHED k = Some s \<and> runnable s = dead @ c # rest \<and> slot_is_alive_runnable k c
    \<and> (\<forall>d \<in> set dead. \<not> slot_is_alive_runnable k d)
    \<and> pick_next irqs k = Inr (Some (c, k\<lparr>SCHED := Some (s\<lparr>runnable := c # rest\<rparr>)\<rparr>, irqs))"
proof -
  have "\<exists>i \<in> set (run_list k). slot_is_alive_runnable k i" using sched_okD[OF assms(1)] assms(2) by blast
  from pick_candidate_Some[OF this] obtain s dead c rest where
    "SCHED k = Some s" "runnable s = dead @ c # rest" "slot_is_alive_runnable k c"
    "\<forall>d \<in> set dead. \<not> slot_is_alive_runnable k d"
    "pick_candidate k = (Some c, k\<lparr>SCHED := Some (s\<lparr>runnable := c # rest\<rparr>)\<rparr>)" by blast
  then show ?thesis by (intro exI[of _ s] exI[of _ dead] exI[of _ c] exI[of _ rest]) simp
qed

lemma pick_and_restore_alive:
  assumes "sched_ok k" "slot_is_alive_runnable k i"
  shows "\<exists>s c pr. proc_of_slot k c = Some pr \<and> exit_code pr = None
    \<and> hd (filter (slot_is_alive_runnable k) (run_list k)) = c
    \<and> pick_next_and_restore ret_to irqs k = Inr (Some (k\<lparr>SCHED := Some s, CURRENT_SLOT := c,
        cpu := resume_user (kstack_top pr) (save pr) ret_to (pending_rax pr)
          (set_current_kstack_top (kstack_top pr) (cpu k))\<rparr>, irqs))
    \<and> sched_ok (k\<lparr>SCHED := Some s\<rparr>)"
proof -
  obtain s dead c rest where p: "SCHED k = Some s" "runnable s = dead @ c # rest" "slot_is_alive_runnable k c"
    "\<forall>d \<in> set dead. \<not> slot_is_alive_runnable k d"
    "pick_next irqs k = Inr (Some (c, k\<lparr>SCHED := Some (s\<lparr>runnable := c # rest\<rparr>)\<rparr>, irqs))"
    using pick_next_alive[OF assms] by blast
  let ?s = "s\<lparr>runnable := c # rest\<rparr>"
  obtain pr where pr: "proc_of_slot k c = Some pr" "exit_code pr = None"
    using p(3) by (auto simp: slot_is_alive_runnable_def split: option.splits)
  have ps: "proc_of_slot (k'\<lparr>CURRENT_SLOT := x\<rparr>) = proc_of_slot k'" "proc_of_slot (k'\<lparr>cpu := m\<rparr>) = proc_of_slot k'"
    "proc_of_slot (k'\<lparr>SCHED := y\<rparr>) = proc_of_slot k'" for k' :: "'a kernel" and x m y
    by (simp_all add: proc_of_slot_def fun_eq_iff)
  have e: "pick_next_and_restore ret_to irqs k = Inr (Some (k\<lparr>SCHED := Some ?s, CURRENT_SLOT := c,
        cpu := resume_user (kstack_top pr) (save pr) ret_to (pending_rax pr)
          (set_current_kstack_top (kstack_top pr) (cpu k))\<rparr>, irqs))"
    using p(5) pr by (simp add: pick_next_and_restore_def restore_slot_def set_current_slot_def Let_def ps
        pending_rax_for_slot_def kstack_top_for_slot_def syscall_saved_for_slot_def)
  have al: "slot_is_alive_runnable (k\<lparr>SCHED := Some ?s\<rparr>) = slot_is_alive_runnable k" by (rule alive_table) simp
  have "filter (slot_is_alive_runnable k) dead = []" using p(4) by simp
  then have h: "hd (filter (slot_is_alive_runnable k) (run_list k)) = c" using p(1-3) by (simp add: run_list_def)
  have "sched_ok (k\<lparr>SCHED := Some ?s\<rparr>)" unfolding sched_ok_def al using sched_okD[OF assms(1)] p(1,2,4) by (auto simp: run_list_def)
  then show ?thesis using e pr h by blast
qed

lemma resume_user_kstack [simp]: "CURRENT_KSTACK_TOP (resume_user t sv ret rx m) = CURRENT_KSTACK_TOP m"
  by (simp add: resume_user_def syscall_user_return_def drop_word_def Let_def)

text \<open>
  (C18) The scheduler never waits while a process can run: it resumes the first live process in queue
  order without consuming an interrupt, drops only dead slots from the queue, makes that process the
  current one with its own kernel stack, and keeps the queue invariant.
\<close>

theorem scheduler_runs_first_alive:
  assumes "sched_ok k" "slot_is_alive_runnable k i"
  shows "\<exists>k' c. pick_next_and_restore ret_to irqs k = Inr (Some (k', irqs))
    \<and> CURRENT_SLOT k' = c \<and> slot_is_alive_runnable k' c \<and> TABLE k' = TABLE k
    \<and> hd (filter (slot_is_alive_runnable k) (run_list k)) = c
    \<and> CURRENT_KSTACK_TOP (cpu k') = kstack_top_for_slot k c
    \<and> sched_ok k'"
proof -
  obtain s c pr where p: "proc_of_slot k c = Some pr" "exit_code pr = None"
    "hd (filter (slot_is_alive_runnable k) (run_list k)) = c"
    "pick_next_and_restore ret_to irqs k = Inr (Some (k\<lparr>SCHED := Some s, CURRENT_SLOT := c,
        cpu := resume_user (kstack_top pr) (save pr) ret_to (pending_rax pr)
          (set_current_kstack_top (kstack_top pr) (cpu k))\<rparr>, irqs))"
    "sched_ok (k\<lparr>SCHED := Some s\<rparr>)"
    using pick_and_restore_alive[OF assms] by blast
  let ?k = "k\<lparr>SCHED := Some s, CURRENT_SLOT := c, cpu := resume_user (kstack_top pr) (save pr) ret_to (pending_rax pr)
      (set_current_kstack_top (kstack_top pr) (cpu k))\<rparr>"
  have "slot_is_alive_runnable ?k c" using p(1,2) by (simp add: slot_is_alive_runnable_def proc_of_slot_def)
  moreover have "sched_ok ?k" using p(5) alive_table[of ?k "k\<lparr>SCHED := Some s\<rparr>"] by (simp add: sched_ok_def)
  ultimately show ?thesis using p(1,3,4)
    by (intro exI[of _ ?k] exI[of _ c]) (simp add: kstack_top_for_slot_def set_current_kstack_top_def)
qed

theorem scheduler_runs_first_alive_witness:
  "\<exists>k'. pick_next_and_restore 0 [] ((demo_kernel None)
      \<lparr>SCHED := Some \<lparr>runnable = [2, 1, 0], time_slice_ticks = 12, last_started_tick = 0\<rparr>\<rparr>) = Inr (Some (k', []))
    \<and> CURRENT_SLOT k' = 1"
proof -
  let ?s = "\<lparr>runnable = [2, 1, 0], time_slice_ticks = 12, last_started_tick = 0\<rparr>"
  let ?k = "(demo_kernel None)\<lparr>SCHED := Some ?s\<rparr>"
  have al: "slot_is_alive_runnable ?k i \<longleftrightarrow> i = 0 \<or> i = 1" for i
    by (auto simp: slot_is_alive_runnable_def proc_of_slot_def demo_kernel_def kernel_static_def demo_table_slots
        demo_init_def demo_child_def Process_new_def)
  then have "sched_ok ?k" by (auto simp: sched_ok_def)
  from scheduler_runs_first_alive[OF this, of 0 0 "[]"] al show ?thesis by (auto simp: run_list_def)
qed

lemma pick_next_idle:
  assumes "\<forall>i. \<not> slot_is_alive_runnable k i"
  shows "pick_next irqs k = Inr None \<or> (\<exists>e. pick_next irqs k = Inl e)"
  using assms
proof (induction irqs arbitrary: k)
  case Nil
  then show ?case using pick_candidate_None[OF Nil] by (auto split: prod.splits option.splits)
next
  case (Cons i irqs)
  obtain k' where k': "pick_candidate k = (None, k')" "TABLE k' = TABLE k"
    using pick_candidate_None[OF Cons.prems] by (metis prod.collapse)
  show ?case
  proof (cases "handle_irq i k'")
    case (Inr k'')
    have "slot_is_alive_runnable k'' = slot_is_alive_runnable k"
      using handle_irq_table[OF Inr] k'(2) by (intro alive_table) simp
    then show ?thesis using Cons.IH[of k''] Cons.prems k' Inr by simp
  qed (use k' in simp)
qed

text \<open>
  (C39) When no process can run, as after the exit of the last one, the kernel never leaves the
  scheduler again: no sequence of interrupts makes it resume a task.
\<close>

theorem scheduler_idles_forever:
  assumes "\<forall>i. \<not> slot_is_alive_runnable k i"
  shows "pick_next_and_restore ret_to irqs k \<noteq> Inr (Some r)"
  using pick_next_idle[OF assms, of irqs] by (auto simp: pick_next_and_restore_def)

theorem scheduler_idles_forever_witness:
  "\<forall>r. pick_next_and_restore 0 [Timer, Timer] (mark_exited 3 (process_init 0x1000 0x2000 (demo_kernel None))) \<noteq> Inr (Some r)"
proof -
  let ?k = "mark_exited 3 (process_init 0x1000 0x2000 (demo_kernel None))"
  have "\<forall>i. \<not> slot_is_alive_runnable ?k i"
    by (auto simp: slot_is_alive_runnable_def proc_of_slot_def mark_exited_def update_slot_def process_init_def
        Let_def get_slot_update split: option.splits if_splits) (auto simp: get_slot_def split: if_splits)
  from scheduler_idles_forever[OF this] show ?thesis by blast
qed

end
