(* ===== verification/Rock_Fs.thy ===== *)
theory Rock_Fs
  imports Rock_Vm_Calls Rock_Sched "HOL-Library.AList"
begin

text \<open>
  The file layer (\<open>src/fs.rs\<close>): the table of RAM files, \<open>open\<close>, \<open>close\<close>, \<open>read\<close> and
  \<open>write\<close>. The \<open>BTreeMap\<close> of the source is an association list; only its key-value content is
  observed. A blocking read takes the interrupts that arrive while it waits.
\<close>

section \<open>UTF-8\<close>

text \<open>\<open>core::str::from_utf8\<close>: whether a byte string is well-formed UTF-8.\<close>

definition utf8_cont :: "u8 \<Rightarrow> bool" where
  "utf8_cont b \<longleftrightarrow> 0x80 \<le> b \<and> b \<le> 0xBF"

definition utf8_three :: "u8 \<Rightarrow> u8 \<Rightarrow> u8 \<Rightarrow> bool" where
  "utf8_three b c1 c2 \<longleftrightarrow> utf8_cont c2 \<and>
     (b = 0xE0 \<and> 0xA0 \<le> c1 \<and> c1 \<le> 0xBF \<or> 0xE1 \<le> b \<and> b \<le> 0xEC \<and> utf8_cont c1
      \<or> b = 0xED \<and> 0x80 \<le> c1 \<and> c1 \<le> 0x9F \<or> 0xEE \<le> b \<and> b \<le> 0xEF \<and> utf8_cont c1)"

definition utf8_four :: "u8 \<Rightarrow> u8 \<Rightarrow> u8 \<Rightarrow> u8 \<Rightarrow> bool" where
  "utf8_four b c1 c2 c3 \<longleftrightarrow> utf8_cont c2 \<and> utf8_cont c3 \<and>
     (b = 0xF0 \<and> 0x90 \<le> c1 \<and> c1 \<le> 0xBF \<or> 0xF1 \<le> b \<and> b \<le> 0xF3 \<and> utf8_cont c1
      \<or> b = 0xF4 \<and> 0x80 \<le> c1 \<and> c1 \<le> 0x8F)"

fun utf8_valid :: "u8 list \<Rightarrow> bool" where
  "utf8_valid [] = True"
| "utf8_valid (b # bs) =
     (if b < 0x80 then utf8_valid bs
      else case bs of
          c1 # c2 # c3 # r \<Rightarrow>
            if 0xC2 \<le> b \<and> b \<le> 0xDF then utf8_cont c1 \<and> utf8_valid (c2 # c3 # r)
            else if utf8_three b c1 c2 then utf8_valid (c3 # r)
            else utf8_four b c1 c2 c3 \<and> utf8_valid r
        | [c1, c2] \<Rightarrow>
            if 0xC2 \<le> b \<and> b \<le> 0xDF then utf8_cont c1 \<and> utf8_valid [c2] else utf8_three b c1 c2
        | [c1] \<Rightarrow> 0xC2 \<le> b \<and> b \<le> 0xDF \<and> utf8_cont c1
        | [] \<Rightarrow> False)"

section \<open>The file table\<close>

definition set_stdin_nonblock :: "bool \<Rightarrow> 'pt kernel \<Rightarrow> 'pt kernel" where
  "set_stdin_nonblock nb k = k\<lparr>STDIN_NONBLOCK := nb\<rparr>"

definition file_get :: "'pt kernel \<Rightarrow> u64 \<Rightarrow> u8 list option" where
  "file_get k fd = map_of (FILES k) fd"

definition file_insert :: "u64 \<Rightarrow> u8 list \<Rightarrow> 'pt kernel \<Rightarrow> 'pt kernel" where
  "file_insert fd data k = k\<lparr>FILES := AList.update fd data (FILES k)\<rparr>"

definition file_remove :: "u64 \<Rightarrow> 'pt kernel \<Rightarrow> 'pt kernel" where
  "file_remove fd k = k\<lparr>FILES := AList.delete fd (FILES k)\<rparr>"

text \<open>\<open>NEXT_FD.fetch_add\<close> and the insertion of an empty file under the new descriptor.\<close>

definition open_file :: "'pt kernel \<Rightarrow> u64 \<times> 'pt kernel" where
  "open_file k = (let fd = NEXT_FD k in (fd, file_insert fd [] (k\<lparr>NEXT_FD := fd + 1\<rparr>)))"

definition sys_open :: "'pt x86 \<Rightarrow> u64 \<Rightarrow> u64 \<Rightarrow> 'pt kernel \<Rightarrow> (u64 \<times> 'pt kernel) outcome" where
  "sys_open X path_ptr flags k =
     obind (user_region_is_readable_range k path_ptr 128) (\<lambda>okk.
       if \<not> okk then Inr (errno 14, k)
       else obind (read_user X k path_ptr 128) (\<lambda>path.
         let p = takeWhile (\<lambda>b. b \<noteq> 0) path in
         if \<not> utf8_valid p then Inr (errno 22, k)
         else if p = bytes_of ''/dev/stdin'' \<or> p = bytes_of ''/dev/tty'' then
           Inr (0, if flags AND 0x800 \<noteq> 0 then set_stdin_nonblock True k else k)
         else if p = bytes_of ''/dev/null'' then Inr (open_file k)
         else if p = [] then Inr (errno 2, k)
         else if length (FILES k) > 64 then Inr (errno 24, k)
         else Inr (open_file k)))"

definition sys_close :: "u64 \<Rightarrow> 'pt kernel \<Rightarrow> u64 \<times> 'pt kernel" where
  "sys_close fd k =
     (if fd \<le> 2 then (errno 9, k)
      else if file_get k fd = None then (errno 9, k) else (0, file_remove fd k))"

definition write_fd_any :: "u64 \<Rightarrow> u8 list \<Rightarrow> 'pt kernel \<Rightarrow> u64 \<times> 'pt kernel" where
  "write_fd_any fd bs k =
     (if fd = 1 \<or> fd = 2 then (of_nat (length bs), k\<lparr>SERIAL1 := SERIAL1 k @ bs\<rparr>)
      else if fd > 2 then
        (case file_get k fd of Some v \<Rightarrow> (of_nat (length bs), file_insert fd (v @ bs) k)
         | None \<Rightarrow> (errno 9, k))
      else (errno 9, k))"

section \<open>Reading\<close>

text \<open>One call of \<open>tty::read\<close> with the user buffer as destination.\<close>

definition tty_read_user :: "'pt x86 \<Rightarrow> u64 \<Rightarrow> nat \<Rightarrow> bool \<Rightarrow> 'pt kernel \<Rightarrow> ((int + nat) \<times> 'pt kernel) outcome" where
  "tty_read_user X buf len nonblock k =
     (case tty_read len nonblock (TTY k) of
        (Inl e, st) \<Rightarrow> Inr (Inl e, k\<lparr>TTY := st\<rparr>)
      | (Inr bs, st) \<Rightarrow> obind (write_user X buf bs (k\<lparr>TTY := st\<rparr>)) (\<lambda>k. Inr (Inr (length bs), k)))"

fun stdin_loop :: "'pt x86 \<Rightarrow> u64 \<Rightarrow> nat \<Rightarrow> irq list \<Rightarrow> 'pt kernel \<Rightarrow> (u64 \<times> 'pt kernel \<times> irq list) option outcome" where
  "stdin_loop X buf len irqs k =
     obind (tty_read_user X buf len False k) (\<lambda>(r, k').
       case r of Inl e \<Rightarrow> Inr (Some (errno 4, k', irqs))
       | Inr n \<Rightarrow> if n \<noteq> 0 then Inr (Some (of_nat n, k', irqs))
           else (case irqs of [] \<Rightarrow> Inr None
                 | i # is \<Rightarrow> obind (handle_irq i k') (stdin_loop X buf len is)))"

definition fs_read ::
  "'pt x86 \<Rightarrow> u64 \<Rightarrow> u64 \<Rightarrow> u64 \<Rightarrow> irq list \<Rightarrow> 'pt kernel \<Rightarrow> (u64 \<times> 'pt kernel \<times> irq list) option outcome" where
  "fs_read X fd buf len irqs k =
     (if len > 8192 then Inr (Some (errno 22, k, irqs))
      else obind (user_region_is_writable_range k buf (unat len)) (\<lambda>okk.
        if \<not> okk then Inr (Some (errno 14, k, irqs))
        else if fd = 0 then
          (if \<not> STDIN_NONBLOCK k then stdin_loop X buf (unat len) irqs k
           else obind (tty_read_user X buf (unat len) True k) (\<lambda>(r, k').
             case r of Inr n \<Rightarrow> Inr (Some (of_nat n, k', irqs)) | Inl e \<Rightarrow> Inr (Some (of_int e, k', irqs))))
        else if fd = 1 \<or> fd = 2 then Inr (Some (errno 9, k, irqs))
        else (case file_get k fd of None \<Rightarrow> Inr (Some (errno 9, k, irqs))
          | Some data \<Rightarrow>
              if data = [] then Inr (Some (errno 11, k, irqs))
              else let n = min (length data) (unat len) in
                obind (write_user X buf (take n data) k) (\<lambda>k'. Inr (Some (of_nat n, k', irqs))))))"

declare stdin_loop.simps [simp del]

section \<open>The table as a map\<close>

text \<open>
  The contract of the descriptor table: a finite map with lookup, insertion and removal that act on
  one key only. What the handlers need of it follows once and for all.
\<close>

locale file_table =
  fixes get :: "'s \<Rightarrow> u64 \<Rightarrow> u8 list option"
    and put :: "u64 \<Rightarrow> u8 list \<Rightarrow> 's \<Rightarrow> 's"
    and del :: "u64 \<Rightarrow> 's \<Rightarrow> 's"
  assumes get_put: "get (put fd d s) fd' = (if fd' = fd then Some d else get s fd')"
    and get_del: "get (del fd s) fd' = (if fd' = fd then None else get s fd')"
begin

lemma append_get: "get s fd = Some d \<Longrightarrow> get (put fd (d @ e) s) fd = Some (d @ e)"
  by (simp add: get_put)

lemma appends_get:
  "get s fd = Some d \<Longrightarrow> get (foldl (\<lambda>s e. put fd (the (get s fd) @ e) s) s es) fd = Some (d @ concat es)"
  by (induction es arbitrary: s d) (simp_all add: get_put)

lemma others_put: "fd' \<noteq> fd \<Longrightarrow> get (put fd d s) fd' = get s fd'"
  by (simp add: get_put)

lemma gone: "get (del fd s) fd = None"
  by (simp add: get_del)

end

interpretation ram_files: file_table file_get file_insert file_remove
  by unfold_locales
    (auto simp: file_get_def file_insert_def file_remove_def update_conv' delete_conv' fun_upd_def restrict_map_def)

text \<open>The descriptors in use are below the next one, so a new file never replaces an open one.\<close>

definition fs_ok :: "'pt kernel \<Rightarrow> bool" where
  "fs_ok k \<longleftrightarrow> distinct (map fst (FILES k)) \<and> 4 \<le> NEXT_FD k
     \<and> (\<forall>fd d. file_get k fd = Some d \<longrightarrow> 4 \<le> fd \<and> fd < NEXT_FD k)"

lemma fs_ok_static: "fs_ok (kernel_static pt m c)"
  by (simp add: fs_ok_def kernel_static_def file_get_def)

lemma fs_ok_cong: "FILES k' = FILES k \<Longrightarrow> NEXT_FD k' = NEXT_FD k \<Longrightarrow> fs_ok k' = fs_ok k"
  by (simp add: fs_ok_def file_get_def)

lemma file_insert_fields [simp]:
  "NEXT_FD (file_insert fd d k) = NEXT_FD k" "NEXT_FD (file_remove fd k) = NEXT_FD k"
  by (simp_all add: file_insert_def file_remove_def)

lemma file_get_NEXT_FD [simp]: "file_get (k\<lparr>NEXT_FD := x\<rparr>) = file_get k"
  by (simp add: file_get_def fun_eq_iff)

lemma open_file_spec:
  assumes "fs_ok k" "NEXT_FD k \<noteq> - 1" "open_file k = (fd, k')"
  shows "fs_ok k' \<and> fd = NEXT_FD k \<and> file_get k fd = None \<and> 4 \<le> fd
    \<and> (\<forall>fd'. file_get k' fd' = (if fd' = fd then Some [] else file_get k fd'))
    \<and> length (FILES k') = Suc (length (FILES k))"
proof -
  have e: "fd = NEXT_FD k" "k' = file_insert fd [] (k\<lparr>NEXT_FD := NEXT_FD k + 1\<rparr>)"
    using assms(3) by (auto simp: open_file_def Let_def)
  have n: "NEXT_FD k < NEXT_FD k + 1"
  proof -
    have "Suc (unat (NEXT_FD k)) < 2 ^ 64"
      using assms(2) u64_bound[of "NEXT_FD k"] unsigned_minus_1_eq_mask[where 'b = 64 and 'a = nat]
      by (cases "Suc (unat (NEXT_FD k)) = 2 ^ 64") (auto simp: word_unat_eq_iff mask_eq_exp_minus_1)
    then show ?thesis by (simp add: word_less_nat_alt unat_ticks_Suc)
  qed
  have g: "file_get k (NEXT_FD k) = None" using assms(1) by (force simp: fs_ok_def)
  then have nin: "fd \<notin> fst ` set (FILES k)" using e(1) by (simp add: file_get_def map_of_eq_None_iff)
  have d: "distinct (map fst (FILES k'))" using assms(1) by (simp add: e(2) file_insert_def fs_ok_def distinct_update)
  have u: "AList.update x y l = l @ [(x, y)]" if "x \<notin> fst ` set l" for x y and l :: "(u64 \<times> u8 list) list"
    using that by (induction l) auto
  have "file_get k' fd' = (if fd' = fd then Some [] else file_get k fd')" for fd'
    using ram_files.get_put[of fd "[]" "k\<lparr>NEXT_FD := NEXT_FD k + 1\<rparr>" fd'] e(2) by simp
  moreover have "length (FILES k') = Suc (length (FILES k))" using u[OF nin] by (simp add: e(2) file_insert_def)
  moreover have "NEXT_FD k' = NEXT_FD k + 1" by (simp add: e(2))
  ultimately show ?thesis using assms(1) d n g e(1) unfolding fs_ok_def by (auto split: if_splits intro: less_trans order_trans)
qed

section \<open>Properties of the calls\<close>

lemma write_user_tty: "write_user X v bs k = Inr k' \<Longrightarrow> write_user X v bs (k\<lparr>TTY := st\<rparr>) = Inr (k'\<lparr>TTY := st\<rparr>)"
proof (induction bs arbitrary: v k)
  case (Cons b bs)
  then obtain p where p: "translate X (page_table k) v = Some p"
    by (auto simp: store8_def split: option.splits)
  have "k\<lparr>TTY := st, ram := m\<rparr> = k\<lparr>ram := m, TTY := st\<rparr>" for m by simp
  note c = this[of "(ram k)(p := b)"]
  show ?case using Cons.IH[of "v + 1" "k\<lparr>ram := (ram k)(p := b)\<rparr>"] Cons.prems p
    by (simp add: store8_def c)
qed simp

text \<open>
  \<open>open\<close> keeps the descriptor table consistent: either it returns an error or the terminal and
  leaves all files alone, or it returns a descriptor that was not in use, now an empty file, with
  every other file untouched.
\<close>

theorem open_returns_fresh_descriptor:
  assumes "fs_ok k" "NEXT_FD k \<noteq> - 1" "sys_open X path_ptr flags k = Inr (r, k')"
  shows "fs_ok k' \<and> (r \<in> {0, errno 2, errno 14, errno 22, errno 24} \<and> FILES k' = FILES k
     \<or> 4 \<le> r \<and> file_get k r = None
       \<and> (\<forall>fd. file_get k' fd = (if fd = r then Some [] else file_get k fd)))"
proof -
  consider "open_file k = (r, k')"
    | "r \<in> {0, errno 2, errno 14, errno 22, errno 24}" "FILES k' = FILES k" "NEXT_FD k' = NEXT_FD k"
    using assms(3) by (auto simp: sys_open_def Let_def set_stdin_nonblock_def dest!: obind_eq_InrD split: if_splits)
  then show ?thesis
  proof cases
    case 1
    then show ?thesis using open_file_spec[OF assms(1,2) 1] by auto
  next
    case 2
    then show ?thesis using assms(1) fs_ok_cong[of k' k] by simp
  qed
qed

text \<open>
  (C26) What is written to a RAM file is read back: after a write the file holds the old content with
  the new bytes at its end, and a read delivers the first bytes of all of it into the user's buffer,
  as many as fit, without consuming them.
\<close>

theorem ram_file_write_read:
  assumes "2 < fd" "file_get k fd = Some d" "write_fd_any fd bs k = (r, k1)" "bs \<noteq> []"
    "len \<le> 8192" "user_region_is_writable_range k1 buf (unat len) = Inr True"
    "user_mapped X (page_table k1) buf (unat len)"
  shows "r = of_nat (length bs) \<and> (\<exists>m. let n = min (length (d @ bs)) (unat len) in
    fs_read X fd buf len irqs k1 = Inr (Some (of_nat n, k1\<lparr>ram := m\<rparr>, irqs))
    \<and> write_user X buf (take n (d @ bs)) k1 = Inr (k1\<lparr>ram := m\<rparr>)
    \<and> file_get (k1\<lparr>ram := m\<rparr>) fd = Some (d @ bs))"
proof -
  have fd: "fd \<noteq> 0" "fd \<noteq> 1" "fd \<noteq> 2" using assms(1) by auto
  have w: "r = of_nat (length bs)" "k1 = file_insert fd (d @ bs) k" using assms(1-3) fd by (auto simp: write_fd_any_def)
  have g: "file_get k1 fd = Some (d @ bs)" unfolding w(2) by (rule ram_files.append_get[OF assms(2)])
  let ?n = "min (length (d @ bs)) (unat len)"
  have um: "user_mapped X (page_table k1) buf (length (take ?n (d @ bs)))"
    using assms(7) by (auto simp: user_mapped_def)
  obtain m where m: "write_user X buf (take ?n (d @ bs)) k1 = Inr (k1\<lparr>ram := m\<rparr>)" using write_user_mapped[OF um] by blast
  have "\<not> len > 8192" using assms(5) by simp
  then have "fs_read X fd buf len irqs k1 = Inr (Some (of_nat ?n, k1\<lparr>ram := m\<rparr>, irqs))"
    using assms(4,6) fd g m by (simp add: fs_read_def Let_def del: take_append)
  then show ?thesis using w(1) m g by (auto simp: Let_def file_get_def)
qed


text \<open>
  (C38) A blocking read of no bytes from the terminal never returns, not even when lines are ready:
  the loop takes the empty result for the absence of a line.
\<close>

theorem stdin_read_zero_never_returns:
  assumes "\<not> STDIN_NONBLOCK k" "user_region_is_writable_range k buf 0 = Inr True"
  shows "fs_read X 0 buf 0 irqs k \<noteq> Inr (Some r)"
proof -
  have t: "fst (tty_read 0 False st) = Inr []" for st by (simp add: tty_read_def split: list.splits)
  have "stdin_loop X buf 0 irqs k \<noteq> Inr (Some r)" for k
  proof (induction irqs arbitrary: k)
    case Nil
    show ?case using t[of "TTY k"] by (subst stdin_loop.simps) (auto simp: tty_read_user_def split: prod.splits)
  next
    case (Cons i irqs)
    obtain st where "tty_read 0 False (TTY k) = (Inr [], st)" using t[of "TTY k"] by (metis prod.collapse)
    then show ?case using Cons by (subst stdin_loop.simps) (auto simp: tty_read_user_def dest!: obind_eq_InrD)
  qed
  then show ?thesis using assms by (simp add: fs_read_def)
qed

section \<open>Examples\<close>

text \<open>
  The example kernel with its stack page mapped and filled with the letter \<open>a\<close>, one open file and one
  line on the terminal.
\<close>

definition fs_demo :: "(u64 \<Rightarrow> u64 option) kernel" where
  "fs_demo = vm_demo\<lparr>page_table := (\<lambda>pg. if pg = 0x401000 then Some 0x2000 else None), ram := (\<lambda>_. 0x61),
     NEXT_FD := 5, FILES := [(4, [1, 2])], TTY := TtyState_new\<lparr>ready_lines := [[0x68, 0x69, 0x0a]]\<rparr>\<rparr>"

lemma fs_demo_mapped: "n \<le> 4096 \<Longrightarrow> user_mapped map_x86 (page_table fs_demo) 0x401000 n"
proof -
  assume n: "n \<le> 4096"
  have a: "page_aligned 0x401000" by (simp add: page_aligned_def PAGE_SIZE_def)
  have "page_floor (0x401000 + of_nat i) = 0x401000" if "i < n" for i
    using that n by (intro page_floor_offset(2)[OF a]) (simp_all add: PAGE_SIZE_def)
  then show ?thesis by (auto simp: user_mapped_def map_x86_def fs_demo_def)
qed

lemma fs_demo_stack:
  "len \<le> 4096 \<Longrightarrow> user_region_is_writable_range (fs_demo\<lparr>FILES := x\<rparr>) 0x401000 len = Inr True"
  "len \<le> 4096 \<Longrightarrow> user_region_is_readable_range fs_demo 0x401000 len = Inr True"
proof -
  assume l: "len \<le> 4096"
  have "unat (0x401000 :: u64) + len < 2 ^ 64" "len < 2 ^ 64" using l by simp_all
  note e = range_end[OF this]
  have s: "(0x401000 :: u64) + of_nat len \<le> USER_STACK_TOP" using l e(2) by (simp add: word_le_nat_alt USER_STACK_TOP_def)
  show "user_region_is_writable_range (fs_demo\<lparr>FILES := x\<rparr>) 0x401000 len = Inr True"
    using s by (simp add: user_region_is_writable_range_def e(1) stack_lo Let_def)
  show "user_region_is_readable_range fs_demo 0x401000 len = Inr True"
    using s by (simp add: user_region_is_readable_range_def e(1) stack_lo Let_def)
qed

lemma utf8_valid_ascii: "list_all (\<lambda>b. b < 0x80) bs \<Longrightarrow> utf8_valid bs"
  by (induction bs) auto

lemma fs_demo_open: "sys_open map_x86 0x401000 0 fs_demo = Inr (open_file fs_demo)"
proof -
  have "read_user map_x86 fs_demo 0x401000 128 = Inr (map (\<lambda>_. 0x61) [0..<128])"
    using read_user_mapped[OF fs_demo_mapped, of 128] by (simp add: fs_demo_def del: upt_rec_numeral)
  also have "map (\<lambda>_. 0x61) [0..<128] = replicate 128 (0x61 :: u8)" by (simp add: map_replicate_const del: upt_rec_numeral)
  finally have r: "read_user map_x86 fs_demo 0x401000 128 = Inr (replicate 128 0x61)" .
  have t: "takeWhile (\<lambda>b. b \<noteq> 0) (replicate 128 0x61) = replicate 128 (0x61 :: u8)"
    by (rule takeWhile_eq_all_conv[THEN iffD2]) simp
  have v: "utf8_valid (replicate 128 0x61)" by (rule utf8_valid_ascii) (simp add: list_all_iff)
  have ne: "replicate 128 (0x61 :: u8) \<noteq> xs" if "length xs < 128" for xs using that by (metis length_replicate less_irrefl)
  have f: "\<not> length (FILES fs_demo) > 64" by (simp add: fs_demo_def)
  show ?thesis unfolding sys_open_def using fs_demo_stack(2)[of 128] r t v f ne
    by (simp add: Let_def bytes_of_def)
qed

theorem open_returns_fresh_descriptor_witness:
  "file_get fs_demo 5 = None \<and> file_get (snd (open_file fs_demo)) 4 = Some [1, 2]"
proof -
  have n: "NEXT_FD fs_demo = 5" "NEXT_FD fs_demo \<noteq> - 1" by (simp_all add: fs_demo_def)
  have ok: "fs_ok fs_demo" by (auto simp: fs_ok_def file_get_def fs_demo_def)
  obtain k' where k': "open_file fs_demo = (5, k')" using n(1) by (simp add: open_file_def Let_def)
  from open_returns_fresh_descriptor[OF ok n(2), of map_x86 "0x401000" 0 5 k'] fs_demo_open k'
  show ?thesis by (auto simp: errno_def file_get_def fs_demo_def open_file_def file_insert_def Let_def)
qed

theorem ram_file_write_read_witness:
  "\<exists>m. fs_read map_x86 4 0x401000 16 [] (snd (write_fd_any 4 [3] fs_demo))
     = Inr (Some (3, (snd (write_fd_any 4 [3] fs_demo))\<lparr>ram := m\<rparr>, []))"
proof -
  have g: "file_get fs_demo 4 = Some [1, 2]" by (simp add: file_get_def fs_demo_def)
  have w: "write_fd_any 4 [3] fs_demo = (1, fs_demo\<lparr>FILES := [(4, [1, 2, 3])]\<rparr>)"
    using g by (simp add: write_fd_any_def file_insert_def fs_demo_def)
  have "user_mapped map_x86 (page_table (fs_demo\<lparr>FILES := [(4, [1, 2, 3])]\<rparr>)) 0x401000 (unat (16 :: u64))"
    using fs_demo_mapped[of 16] by simp
  from ram_file_write_read[OF _ g w _ _ _ this, of "[]"] fs_demo_stack(1)[of 16] w show ?thesis
    by (auto simp: Let_def)
qed


theorem stdin_read_zero_never_returns_witness:
  "\<forall>r. fs_read map_x86 0 0x401000 0 [Timer] fs_demo \<noteq> Inr (Some r)"
proof -
  have "fs_demo = fs_demo\<lparr>FILES := FILES fs_demo\<rparr>" by simp
  then have s: "user_region_is_writable_range fs_demo 0x401000 0 = Inr True" using fs_demo_stack(1)[of 0 "FILES fs_demo"] by simp
  have "\<not> STDIN_NONBLOCK fs_demo" by (simp add: fs_demo_def vm_demo_def demo_kernel_def kernel_static_def)
  from stdin_read_zero_never_returns[OF this s] show ?thesis by blast
qed

end
