(* ===== verification/Rock_Exec.thy ===== *)
theory Rock_Exec
  imports Rock_Elf_Load Rock_Exec_Stack Rock_Fs
begin

text \<open>
  \<open>execve\<close> (\<open>src/process.rs\<close>): the strings it copies from user memory, and the call itself. The
  program it loads, the bytes of \<open>assets/init.elf\<close>, is an argument.
\<close>

section \<open>Strings of the user\<close>

text \<open>The loop of \<open>read_user_cstring\<close>, with the rounds left and the bytes read.\<close>

fun cstring_loop :: "'pt x86 \<Rightarrow> 'pt kernel \<Rightarrow> u64 \<Rightarrow> nat \<Rightarrow> u8 list \<Rightarrow> (u64 + u8 list) outcome" where
  "cstring_loop X k ptr 0 v = Inr (Inr v)"
| "cstring_loop X k ptr (Suc n) v =
     (if \<not> add_ok ptr (of_nat (length v)) then Inl Overflow
      else obind (user_region_is_readable_range k (ptr + of_nat (length v)) 1) (\<lambda>okk.
        if \<not> okk then Inr (Inl (errno 14))
        else obind (load8 X k (ptr + of_nat (length v))) (\<lambda>c.
          if c = 0 then Inr (Inr v) else cstring_loop X k ptr n (v @ [c]))))"

definition read_user_cstring :: "'pt x86 \<Rightarrow> 'pt kernel \<Rightarrow> u64 \<Rightarrow> nat \<Rightarrow> (u64 + u8 list) outcome" where
  "read_user_cstring X k ptr cap =
     obind (cstring_loop X k ptr cap []) (\<lambda>r. case r of Inl e \<Rightarrow> Inr (Inl e)
       | Inr v \<Rightarrow> Inr (if utf8_valid v then Inr v else Inl (errno 22)))"

text \<open>\<open>*(p as *const u64)\<close>, which panics at an address that is not aligned.\<close>

definition load64 :: "'pt x86 \<Rightarrow> 'pt kernel \<Rightarrow> u64 \<Rightarrow> u64 outcome" where
  "load64 X k p =
     (if unat p mod 8 \<noteq> 0 then Inl Misaligned
      else obind (read_user X k p 8) (\<lambda>bs. Inr (of_nat (from_le_bytes bs))))"

fun ptrvec_loop ::
  "'pt x86 \<Rightarrow> 'pt kernel \<Rightarrow> u64 \<Rightarrow> nat \<Rightarrow> nat list \<Rightarrow> u8 list list \<Rightarrow> (u64 + u8 list list) outcome" where
  "ptrvec_loop X k base max_str [] out = Inr (Inr out)"
| "ptrvec_loop X k base max_str (i # is) out =
     (if \<not> add_ok base (of_nat i * 8) then Inl Overflow
      else let p = base + of_nat i * 8 in
        obind (user_region_is_readable_range k p 8) (\<lambda>okk.
          if \<not> okk then Inr (Inl (errno 14))
          else obind (load64 X k p) (\<lambda>ptr.
            if ptr = 0 then Inr (Inr out)
            else obind (read_user_cstring X k ptr max_str) (\<lambda>r. case r of Inl e \<Rightarrow> Inr (Inl e)
              | Inr s \<Rightarrow> ptrvec_loop X k base max_str is (out @ [s])))))"

definition parse_user_ptrvec ::
  "'pt x86 \<Rightarrow> 'pt kernel \<Rightarrow> u64 \<Rightarrow> nat \<Rightarrow> nat \<Rightarrow> (u64 + u8 list list) outcome" where
  "parse_user_ptrvec X k base max_ptrs max_str =
     (if base = 0 then Inr (Inr []) else ptrvec_loop X k base max_str [0..<max_ptrs] [])"

section \<open>The call\<close>

definition INIT_PATH :: "u8 list" where
  "INIT_PATH = bytes_of ''/init'' @ [0]"

definition sys_execve :: "'pt x86 \<Rightarrow> u8 list \<Rightarrow> u64 \<Rightarrow> u64 \<Rightarrow> u64 \<Rightarrow> 'pt kernel \<Rightarrow> (u64 \<times> 'pt kernel) outcome" where
  "sys_execve X bin path_u argv_u envp_u k =
     obind (user_region_is_readable_range k path_u (length INIT_PATH)) (\<lambda>okk.
       if \<not> okk then Inr (errno 14, k)
       else obind (read_user X k path_u (length INIT_PATH)) (\<lambda>path.
         if path \<noteq> INIT_PATH then Inr (errno 2, k)
         else obind (parse_user_ptrvec X k argv_u 32 256) (\<lambda>r. case r of Inl e \<Rightarrow> Inr (e, k)
           | Inr argv \<Rightarrow> obind (parse_user_ptrvec X k envp_u 16 256) (\<lambda>r. case r of Inl e \<Rightarrow> Inr (e, k)
             | Inr envp \<Rightarrow> obind (load_elf_exec X bin 0 argv envp k) (\<lambda>(r, k). case r of
                   Inl msg \<Rightarrow> Inr (errno 8, k)
                 | Inr (entry, sp) \<Rightarrow>
                     let save = bootstrap_user entry sp 0x202;
                         k = set_syscall_saved (CURRENT_SLOT k) save 0 k
                     in Inr (0, set_user_entry entry k))))))"

lemma length_INIT_PATH: "length INIT_PATH = 6"
  by (simp add: INIT_PATH_def bytes_of_def)

section \<open>What the string functions return\<close>

text \<open>
  The view of user memory that the property of the parser is stated over: a string ended by a null
  byte whose bytes may all be read, and a table of pointers to such strings ended by a null word.
\<close>

definition user_cstring :: "'pt x86 \<Rightarrow> 'pt kernel \<Rightarrow> u64 \<Rightarrow> u8 list \<Rightarrow> bool" where
  "user_cstring X k ptr s \<longleftrightarrow> 0 \<notin> set s \<and> utf8_valid s \<and> unat ptr + length s < 2 ^ 64
     \<and> (\<forall>i \<le> length s. user_region_is_readable_range k (ptr + of_nat i) 1 = Inr True
          \<and> load8 X k (ptr + of_nat i) = Inr ((s @ [0]) ! i))"

definition user_word :: "'pt x86 \<Rightarrow> 'pt kernel \<Rightarrow> u64 \<Rightarrow> u64 \<Rightarrow> bool" where
  "user_word X k p x \<longleftrightarrow> user_region_is_readable_range k p 8 = Inr True \<and> read_user X k p 8 = Inr (to_le_bytes 8 (unat x))"

definition user_ptrvec :: "'pt x86 \<Rightarrow> 'pt kernel \<Rightarrow> u64 \<Rightarrow> u64 list \<Rightarrow> u8 list list \<Rightarrow> bool" where
  "user_ptrvec X k base ps ss \<longleftrightarrow> base \<noteq> 0 \<and> unat base mod 8 = 0 \<and> unat base + 8 * length ss < 2 ^ 64
     \<and> length ps = length ss \<and> user_word X k (base + of_nat (length ss) * 8) 0
     \<and> (\<forall>i < length ss. user_word X k (base + of_nat i * 8) (ps ! i) \<and> ps ! i \<noteq> 0 \<and> user_cstring X k (ps ! i) (ss ! i))"

lemma cstring_loop_reads:
  assumes "user_cstring X k ptr s" "j \<le> length s" "length s \<le> j + n"
  shows "cstring_loop X k ptr n (take j s) = Inr (Inr s)"
  using assms(2,3)
proof (induction n arbitrary: j)
  case 0
  then show ?case by simp
next
  case (Suc n)
  have c: "unat ptr + length s < 2 ^ 64" "0 \<notin> set s"
    "user_region_is_readable_range k (ptr + of_nat j) 1 = Inr True" "load8 X k (ptr + of_nat j) = Inr ((s @ [0]) ! j)"
    using assms(1) Suc.prems(1) by (simp_all add: user_cstring_def)
  have "unat (of_nat j :: u64) = j" using c(1) Suc.prems(1) by (intro unat_of_nat_u64) simp
  then have ok: "add_ok ptr (of_nat j)" using c(1) Suc.prems(1) by (simp add: add_ok_def)
  have l: "length (take j s) = j" using Suc.prems(1) by simp
  show ?case
  proof (cases "j = length s")
    case True
    then show ?thesis using c ok by simp
  next
    case False
    then have j: "j < length s" using Suc.prems(1) by simp
    then have "(s @ [0]) ! j = s ! j" "s ! j \<noteq> 0" using c(2) by (auto simp: nth_append set_conv_nth)
    moreover have "take j s @ [s ! j] = take (Suc j) s" using j by (simp add: take_Suc_conv_app_nth)
    ultimately show ?thesis using c ok l Suc.IH[of "Suc j"] Suc.prems(2) j by simp
  qed
qed

lemma read_user_cstring_reads:
  assumes "user_cstring X k ptr s" "length s \<le> cap"
  shows "read_user_cstring X k ptr cap = Inr (Inr s)"
  using cstring_loop_reads[OF assms(1), of 0 cap] assms by (simp add: read_user_cstring_def user_cstring_def)

lemma load64_word:
  assumes "user_word X k p x" "unat p mod 8 = 0"
  shows "load64 X k p = Inr x"
  using assms by (simp add: load64_def user_word_def word_of_u64)

lemma table_entry:
  assumes "unat base mod 8 = 0" "unat base + 8 * n < 2 ^ 64" "i \<le> n"
  shows "add_ok base (of_nat i * 8)" "unat (base + of_nat i * 8) mod 8 = 0"
proof -
  have "unat (of_nat (8 * i) :: u64) = 8 * i" using assms(2,3) by (intro unat_of_nat_u64) simp
  then have u: "unat (of_nat i * 8 :: u64) = 8 * i" by (simp add: mult.commute)
  then show ok: "add_ok base (of_nat i * 8)" using assms(2,3) by (simp add: add_ok_def)
  show "unat (base + of_nat i * 8) mod 8 = 0" unfolding unat_add_ok[OF ok] u using assms(1) by simp
qed

lemma ptrvec_loop_step:
  assumes "add_ok base (of_nat i * 8)" "user_word X k (base + of_nat i * 8) x" "unat (base + of_nat i * 8) mod 8 = 0"
  shows "ptrvec_loop X k base max_str (i # is) out =
    (if x = 0 then Inr (Inr out)
     else obind (read_user_cstring X k x max_str) (\<lambda>r. case r of Inl e \<Rightarrow> Inr (Inl e)
       | Inr s \<Rightarrow> ptrvec_loop X k base max_str is (out @ [s])))"
  using assms(1,2) load64_word[OF assms(2,3)] unfolding user_word_def ptrvec_loop.simps Let_def
  by (simp only: simp_thms if_True if_False obind_simps)

lemma ptrvec_loop_reads:
  assumes "user_ptrvec X k base ps ss" "\<forall>s \<in> set ss. length s \<le> max_str" "j \<le> length ss" "length ss < j + n"
  shows "ptrvec_loop X k base max_str [j..<j + n] (take j ss) = Inr (Inr ss)"
  using assms(3,4)
proof (induction n arbitrary: j)
  case 0
  then show ?case by simp
next
  case (Suc n)
  have v: "unat base mod 8 = 0" "unat base + 8 * length ss < 2 ^ 64" "user_word X k (base + of_nat (length ss) * 8) 0"
    and w: "\<forall>i < length ss. user_word X k (base + of_nat i * 8) (ps ! i) \<and> ps ! i \<noteq> 0 \<and> user_cstring X k (ps ! i) (ss ! i)"
    using assms(1) unfolding user_ptrvec_def by iprover+
  note t = table_entry[OF v(1,2) Suc.prems(1)]
  have up: "[j..<j + Suc n] = j # [Suc j..<Suc j + n]" by (simp add: upt_conv_Cons)
  show ?case
  proof (cases "j = length ss")
    case True
    then show ?thesis unfolding up using ptrvec_loop_step[OF t(1) _ t(2), of X k 0] v(3) by simp
  next
    case False
    then have j: "j < length ss" using Suc.prems(1) by simp
    note wj = w[rule_format, OF j]
    have "read_user_cstring X k (ps ! j) max_str = Inr (Inr (ss ! j))"
      using assms(2) j wj by (intro read_user_cstring_reads) simp_all
    moreover have "take j ss @ [ss ! j] = take (Suc j) ss" using j by (simp add: take_Suc_conv_app_nth)
    moreover have "ptrvec_loop X k base max_str [Suc j..<Suc j + n] (take (Suc j) ss) = Inr (Inr ss)"
      using Suc.IH[of "Suc j"] Suc.prems(2) j by simp
    ultimately show ?thesis using wj ptrvec_loop_step[OF t(1) conjunct1[OF wj] t(2)] unfolding up by simp
  qed
qed

text \<open>A vector of strings as the caller passes it: none, or a table within the limits.\<close>

definition user_strings :: "'pt x86 \<Rightarrow> 'pt kernel \<Rightarrow> u64 \<Rightarrow> nat \<Rightarrow> u8 list list \<Rightarrow> bool" where
  "user_strings X k base n ss \<longleftrightarrow> base = 0 \<and> ss = []
     \<or> length ss < n \<and> (\<forall>s \<in> set ss. length s \<le> 256) \<and> (\<exists>ps. user_ptrvec X k base ps ss)"

lemma parse_user_ptrvec_reads:
  assumes "user_strings X k base n ss"
  shows "parse_user_ptrvec X k base n 256 = Inr (Inr ss)"
proof (cases "base = 0 \<and> ss = []")
  case True
  then show ?thesis by (simp add: parse_user_ptrvec_def)
next
  case False
  then obtain ps where p: "length ss < n" "\<forall>s \<in> set ss. length s \<le> 256" "user_ptrvec X k base ps ss"
    using assms by (auto simp: user_strings_def)
  then have "base \<noteq> 0" by (simp add: user_ptrvec_def)
  then show ?thesis using ptrvec_loop_reads[OF p(3,2), of 0 n] p(1) by (simp add: parse_user_ptrvec_def)
qed

section \<open>The old image\<close>

lemma next_page:
  assumes "page_aligned va" "page_aligned pg" "add_ok va 0x1000"
  shows "va \<le> pg \<longleftrightarrow> pg = va \<or> va + 0x1000 \<le> pg" "page_aligned (va + 0x1000)"
proof -
  obtain a where a: "unat va = a * 4096" using page_aligned_unat[OF assms(1)] by (simp only: PAGE_SIZE_def)
  obtain b where b: "unat pg = b * 4096" using page_aligned_unat[OF assms(2)] by (simp only: PAGE_SIZE_def)
  have u: "unat (va + 0x1000) = Suc a * 4096" using unat_add_ok[OF assms(3)] a by simp
  have "a \<le> b \<longleftrightarrow> b = a \<or> Suc a \<le> b" by auto
  then have "a * 4096 \<le> b * 4096 \<longleftrightarrow> b * 4096 = a * 4096 \<or> Suc a * 4096 \<le> b * 4096"
    by (simp only: mult_le_cancel2 mult_cancel2) simp
  then show "va \<le> pg \<longleftrightarrow> pg = va \<or> va + 0x1000 \<le> pg"
    by (simp only: word_le_nat_alt word_unat_eq_iff u a b)
  show "page_aligned (va + 0x1000)" unfolding page_aligned_def u PAGE_SIZE_def by simp
qed

lemma unmap_image_spec:
  assumes "x86_laws X" "unat hi \<le> 0x480000" "page_aligned va" "USER_TEXT_BASE \<le> va" "vm_ok X s"
  shows "\<exists>s'. unmap_image X hi va s = Inr s' \<and> unmapped_set X {pg. page_aligned pg \<and> va \<le> pg \<and> pg < hi} s s'"
  using assms
proof (induction X hi va s rule: unmap_image.induct)
  case (1 X hi va s)
  show ?case
  proof (cases "va < hi")
    case False
    then have e: "{pg. page_aligned pg \<and> va \<le> pg \<and> pg < hi} = {}" by auto
    show ?thesis unfolding e using False unmapped_set_empty[OF 1(6)] by (subst unmap_image.simps) simp
  next
    case True
    then have lt: "unat va < 0x480000" using 1(3) by (simp add: word_less_nat_alt)
    then have vn: "virt_new X va" by (intro x86_virt[OF 1(2)]) simp
    have ok: "add_ok va 0x1000" using lt by (simp add: add_ok_def)
    have w: "user_window va" using 1(4,5) lt by (simp add: user_window_def word_less_nat_alt USER_MMAP_LIMIT_def)
    let ?s = "if translate X (fst s) va \<noteq> None then snd (unmap_4k_and_free_bitmap X va s) else s"
    let ?P = "{pg. page_aligned pg \<and> va + 0x1000 \<le> pg \<and> pg < hi}"
    have v: "vm_ok X ?s" using unmap_window(3)[OF 1(2) w 1(6)] 1(6) by simp
    have tb: "USER_TEXT_BASE \<le> va + 0x1000"
      using 1(5) unat_add_ok[OF ok] by (simp add: word_le_nat_alt)
    obtain s' where s': "unmap_image X hi (va + 0x1000) ?s = Inr s'" "unmapped_set X ?P ?s s'"
      using 1(1)[OF True _ refl ok 1(2,3) next_page(2)[OF 1(4,4) ok] tb v] vn by blast
    have set: "{pg. page_aligned pg \<and> va \<le> pg \<and> pg < hi} = insert va ?P"
      using next_page(1)[OF 1(4) _ ok] 1(4) True by auto
    have "unmapped_set X (insert va ?P) s s'"
    proof (cases "translate X (fst s) va = None")
      case True
      then show ?thesis using s'(2) unfolding unmapped_set_def by auto
    next
      case False
      then have "unmapped_set X ?P (snd (unmap_4k_and_free_bitmap X va s)) s'" using s'(2) by simp
      from unmapped_set_insert[OF 1(2) w 1(6) _ this] show ?thesis by simp
    qed
    then show ?thesis using True vn ok s'(1) unfolding set by (subst unmap_image.simps) (simp add: Let_def)
  qed
qed

lemma unmap_old_image_spec:
  assumes "x86_laws X" "kvm_ok X k" "unat (USER_IMAGE_END k) \<le> 0x480000"
  shows "\<exists>s'. unmap_old_image_best_effort X k = Inr (set_kvm s' k)
    \<and> unmapped_set X {pg. page_aligned pg \<and> USER_TEXT_BASE \<le> pg \<and> pg < USER_IMAGE_END k} (kvm k) s'"
proof -
  have v: "vm_ok X (kvm k)" "lock_allocator (mem k) \<noteq> None" using assms(2) by (simp_all add: kvm_ok_def)
  have al: "page_aligned USER_TEXT_BASE" by (simp add: page_aligned_def PAGE_SIZE_def USER_TEXT_BASE_def)
  obtain s' where "unmap_image X (USER_IMAGE_END k) USER_TEXT_BASE (kvm k) = Inr s'"
    "unmapped_set X {pg. page_aligned pg \<and> USER_TEXT_BASE \<le> pg \<and> pg < USER_IMAGE_END k} (kvm k) s'"
    using unmap_image_spec[OF assms(1,3) al order_refl v(1)] by blast
  then show ?thesis by (intro exI[of _ s']) (simp add: unmap_old_image_best_effort_def with_mapper_kvm[OF v(2)])
qed

section \<open>Replacing the program\<close>

definition well_formed_image :: "u8 list \<Rightarrow> bool" where
  "well_formed_image img \<longleftrightarrow>
     (\<forall>i < e_phnum img. let h = phdr_at img (e_phoff img) i in loads h \<longrightarrow> p_filesz h \<le> p_memsz h)"

text \<open>The changes that mapping and loading make: page table, allocator, memory.\<close>

definition mem_change :: "'pt kernel \<Rightarrow> 'pt kernel \<Rightarrow> bool" where
  "mem_change k k' \<longleftrightarrow> (\<exists>s m. k' = (set_kvm s k)\<lparr>ram := m\<rparr>)"

lemma mem_change_refl: "kvm_ok X k \<Longrightarrow> mem_change k k"
  unfolding mem_change_def by (intro exI[of _ "kvm k"] exI[of _ "ram k"]) (simp add: set_kvm_kvm kvm_ok_def)

lemma mem_change_fields:
  assumes "mem_change k k'"
  shows "window_ok X k' = window_ok X k" "current_proc k' t p = current_proc k t p" "TABLE k' = TABLE k"
    "CURRENT_SLOT k' = CURRENT_SLOT k" "SCHED k' = SCHED k" "cpu k' = cpu k" "USER_IMAGE_END k' = USER_IMAGE_END k"
    "FILES k' = FILES k" "NEXT_FD k' = NEXT_FD k" "NEXT_MMAP k' = NEXT_MMAP k" "NEED_RESCHED k' = NEED_RESCHED k"
    "TTY k' = TTY k" "SCANCODE_QUEUE k' = SCANCODE_QUEUE k"
proof -
  obtain s m where k': "k' = (set_kvm s k)\<lparr>ram := m\<rparr>" using assms unfolding mem_change_def by blast
  show "window_ok X k' = window_ok X k" unfolding k' by (rule window_ok_cong) (simp add: set_kvm_def unlock_allocator_def)
  show "current_proc k' t p = current_proc k t p" "TABLE k' = TABLE k"
    "CURRENT_SLOT k' = CURRENT_SLOT k" "SCHED k' = SCHED k" "cpu k' = cpu k" "USER_IMAGE_END k' = USER_IMAGE_END k"
    "FILES k' = FILES k" "NEXT_FD k' = NEXT_FD k" "NEXT_MMAP k' = NEXT_MMAP k" "NEED_RESCHED k' = NEED_RESCHED k"
    "TTY k' = TTY k" "SCANCODE_QUEUE k' = SCANCODE_QUEUE k"
    by (simp_all add: k' set_kvm_def current_proc_def)
qed

lemma mem_change_set_kvm: "mem_change k (set_kvm s k)"
  unfolding mem_change_def by (intro exI[of _ s] exI[of _ "ram k"]) (simp add: set_kvm_def)

lemma mem_change_ram: "mem_change k k' \<Longrightarrow> mem_change k (k'\<lparr>ram := m\<rparr>)"
  unfolding mem_change_def by force

lemma mem_change_trans: "mem_change k k1 \<Longrightarrow> mem_change k1 k2 \<Longrightarrow> mem_change k k2"
  unfolding mem_change_def by (force simp: set_kvm_def unlock_allocator_def)

lemma load_elf_mapped_vm:
  assumes "x86_laws X" "kvm_ok X k" "window_ok X k" "load_elf_mapped X img bias k = Inr (r, k')"
  shows "kvm_ok X k' \<and> mem_change k k'"
proof (cases "check_header img")
  case (Some msg)
  then show ?thesis using assms(2,4) mem_change_refl by (auto simp: load_elf_mapped_def)
next
  case None
  obtain fa where fa: "lock_allocator (mem k) = Some fa" using assms(2) by (auto simp: kvm_ok_def)
  let ?l = "\<lparr>ld_pt = page_table k, ld_fa = fa, ld_ram = ram k, image_end = 0, rw_min = None, phdr_va = None\<rparr>"
  note e = assms(4)[unfolded load_elf_mapped_def None fa option.case]
  obtain x where x: "load_phdrs X (window_addr X k) img (e_phoff img) bias [0..<e_phnum img] ?l = Inr x"
    using obind_eq_InrD[OF e] by blast
  obtain msg l where l: "load_phdrs X (window_addr X k) img (e_phoff img) bias [0..<e_phnum img] ?l = Inr (msg, l)"
    using x by (cases x) blast
  have k': "k' = (set_kvm (ld_pt l, ld_fa l) k)\<lparr>ram := ld_ram l\<rparr>"
    using e unfolding l obind_simps Let_def prod.case set_kvm_def fst_conv snd_conv
    by (cases msg; cases "phdr_va l") simp_all
  have w: "window_fun (window_addr X k)" using assms(3) by (simp add: window_fun_window_addr)
  have v: "vm_ok X (ld_pt ?l, ld_fa ?l)" using assms(2) fa by (simp add: kvm_ok_def kvm_def)
  have "kvm_ok X (set_kvm (ld_pt l, ld_fa l) k)" using load_phdrs_vm_ok[OF assms(1) w v l] by (simp add: kvm_ok_set)
  then have "kvm_ok X k'" by (subst kvm_ok_cong[of _ "set_kvm (ld_pt l, ld_fa l) k"]) (simp_all add: k')
  then show ?thesis unfolding k' by (simp add: mem_change_ram mem_change_set_kvm)
qed

lemma load_elf_mapped_keeps:
  assumes "x86_laws X" "kvm_ok X k" "window_ok X k" "load_elf_mapped X img bias k = Inr (Inr (entry, meta), k')"
    "well_formed_image img" "user_window pg" "tr X k pg \<noteq> None"
  shows "tr X k' pg \<noteq> None"
proof -
  obtain fa l where o: "lock_allocator (mem k) = Some fa"
    "load_phdrs X (window_addr X k) img (e_phoff img) bias [0..<e_phnum img]
       \<lparr>ld_pt = page_table k, ld_fa = fa, ld_ram = ram k, image_end = 0, rw_min = None, phdr_va = None\<rparr> = Inr (None, l)"
    "k' = k\<lparr>page_table := ld_pt l, mem := unlock_allocator (ld_fa l) (mem k), ram := ld_ram l\<rparr>"
    by (rule load_elf_mapped_OkD[OF assms(4)])
  let ?l = "\<lparr>ld_pt = page_table k, ld_fa = fa, ld_ram = ram k, image_end = 0, rw_min = None, phdr_va = None\<rparr>"
  let ?Q = "{pg. user_window pg \<and> translate X (page_table k) pg \<noteq> None}"
  have w: "window_fun (window_addr X k)" using assms(3) by (simp add: window_fun_window_addr)
  have v: "vm_ok X (ld_pt ?l, ld_fa ?l)" using assms(2) o(1) by (simp add: kvm_ok_def kvm_def)
  have Q: "owns X ?Q ?l" using vm_ok_owned[OF v] by (simp add: owns_def)
  have fs: "\<forall>i \<in> set [0..<e_phnum img]. loads (phdr_at img (e_phoff img) i) \<longrightarrow>
      p_filesz (phdr_at img (e_phoff img) i) \<le> p_memsz (phdr_at img (e_phoff img) i)"
    using assms(5) by (simp add: well_formed_image_def Let_def)
  obtain Q' where "?Q \<subseteq> Q'" "owns X Q' l" using load_phdrs_owns[OF assms(1) w Q fs o(2)] by blast
  moreover have "pg \<in> ?Q" using assms(6,7) by simp
  ultimately have "translate X (ld_pt l) pg \<noteq> None" using ownedD(3)[of X Q' "(ld_pt l, ld_fa l)" pg] by (auto simp: owns_def)
  then show ?thesis by (simp add: o(3))
qed

lemma exec_image_ready:
  assumes "x86_laws X" "kvm_ok X k" "window_ok X k" "USER_IMAGE_END k \<le> 0x401000" "tr X k 0x401000 \<noteq> None"
    "well_formed_image bin" "unmap_old_image_best_effort X k = Inr k1" "load_elf_mapped X bin 0 k1 = Inr (Inr (entry, meta), k2)"
  shows "kvm_ok X k2" "window_ok X k2" "tr X k2 0x401000 \<noteq> None" "mem_change k k2"
proof -
  have ie: "unat (USER_IMAGE_END k) \<le> 0x480000" using assms(4) by (simp add: word_le_nat_alt)
  obtain s1 where s1: "k1 = set_kvm s1 k"
    "unmapped_set X {pg. page_aligned pg \<and> USER_TEXT_BASE \<le> pg \<and> pg < USER_IMAGE_END k} (kvm k) s1"
    using unmap_old_image_spec[OF assms(1,2) ie] assms(7) by auto
  have v1: "kvm_ok X k1" using s1 by (simp add: kvm_ok_set unmapped_set_def)
  have m1: "mem_change k k1" unfolding s1(1) by (rule mem_change_set_kvm)
  have w1: "window_ok X k1" using assms(3) mem_change_fields(1)[OF m1] by simp
  have "tr X k1 0x401000 = tr X k 0x401000"
    using s1 stack_page_facts(3) assms(4) by (auto simp: unmapped_set_def user_window_aligned)
  then have t1: "tr X k1 0x401000 \<noteq> None" using assms(5) by simp
  show v2: "kvm_ok X k2" using load_elf_mapped_vm[OF assms(1) v1 w1 assms(8)] by auto
  have m2: "mem_change k1 k2" using load_elf_mapped_vm[OF assms(1) v1 w1 assms(8)] by auto
  show "mem_change k k2" by (rule mem_change_trans[OF m1 m2])
  show "window_ok X k2" using w1 mem_change_fields(1)[OF m2] by simp
  show "tr X k2 0x401000 \<noteq> None"
    by (rule load_elf_mapped_keeps[OF assms(1) v1 w1 assms(8,6) stack_page_facts(3) t1])
qed

text \<open>A write that stays within the stack page is not seen through any other page of the user.\<close>

lemma stack_write_local:
  assumes "x86_laws X" "kvm_ok X k" "n \<le> 4096" "\<forall>p. (\<forall>i < n. tr X k (stack_lo + of_nat i) \<noteq> Some p) \<longrightarrow> m p = ram k p"
    "user_window (page_floor va)" "page_floor va \<noteq> 0x401000"
  shows "load8 X (k\<lparr>ram := m\<rparr>) va = load8 X k va"
proof (cases "tr X k va")
  case (Some q)
  have "tr X k (stack_lo + of_nat i) \<noteq> Some q" if i: "i < n" for i
  proof
    assume q: "tr X k (stack_lo + of_nat i) = Some q"
    have sl: "stack_lo = 0x401000" by (simp add: stack_lo_def USER_STACK_TOP_def)
    have f: "page_floor (0x401000 + of_nat i) = 0x401000"
      using i assms(3) by (intro page_floor_offset(2)[OF stack_page_facts(1)]) (simp_all add: PAGE_SIZE_def)
    have "vm_ok X (kvm k)" using assms(2) by (simp add: kvm_ok_def)
    from user_addr_inj[OF assms(1) this assms(5), of "0x401000 + of_nat i" q] Some q f stack_page_facts(3) assms(6)
    show False by (simp add: sl)
  qed
  then have "m q = ram k q" using assms(4) by simp
  then show ?thesis using Some by (simp add: load8_def)
qed (simp add: load8_def)

text \<open>
  (C14) A successful \<open>execve\<close>. When the path is \<open>/init\<close>, the argument and environment vectors in user
  memory are tables of strings within the limits that fit the stack page, and the loader accepts the
  program after the old image is unmapped, the call returns 0; the new stack holds exactly the strings
  of the caller in the layout of a program start; every other page of the user is as the loader left
  it; and the saved context of the process is a fresh one, at the entry point of the program with the
  bottom of the stack page as stack pointer.
\<close>

theorem execve_passes_arguments:
  assumes "x86_laws X" "kvm_ok X k" "window_ok X k" "current_proc k t p" "USER_IMAGE_END k \<le> 0x401000"
    "tr X k 0x401000 \<noteq> None" "user_region_is_readable_range k path_u 6 = Inr True" "read_user X k path_u 6 = Inr INIT_PATH"
    "user_strings X k argv_u 32 argv" "user_strings X k envp_u 16 envp" "exec_stack_size argv envp \<le> 4096"
    "well_formed_image bin" "unmap_old_image_best_effort X k = Inr k1"
    "load_elf_mapped X bin 0 k1 = Inr (Inr (entry, meta), k2)"
  shows "\<exists>k' t' v. sys_execve X bin path_u argv_u envp_u k = Inr (0, k') \<and> kvm_ok X k'
    \<and> stack_layout meta argv envp v \<and> (\<forall>i < length v. load8 X k' (stack_lo + of_nat i) = Inr (v ! i))
    \<and> (\<forall>va. user_window (page_floor va) \<longrightarrow> page_floor va \<noteq> 0x401000 \<longrightarrow> load8 X k' va = load8 X k2 va)
    \<and> current_proc k' t' (p\<lparr>save := bootstrap_user entry stack_lo 0x202, pending_rax := 0\<rparr>)"
proof -
  note r = exec_image_ready[OF assms(1-3,5,6,12-14)]
  let ?k = "apply_user_meta meta k2"
  have a: "mem ?k = mem k2" "page_table ?k = page_table k2" "ram ?k = ram k2"
    by (simp_all add: apply_user_meta_def set_user_rw_image_start_def set_user_image_end_def)
  have l2: "load8 X ?k = load8 X k2" by (simp add: fun_eq_iff load8_def a split: option.splits)
  have v3: "kvm_ok X ?k" "window_ok X ?k" "tr X ?k 0x401000 \<noteq> None"
    using r(1-3) a kvm_ok_cong[of ?k k2] window_ok_cong[of ?k k2] by simp_all
  obtain m v where b: "build_exec_stack X meta argv envp ?k = Inr (Inr stack_lo, ?k\<lparr>ram := m\<rparr>)"
    "length v = exec_stack_size argv envp" "stack_layout meta argv envp v"
    "\<forall>i < length v. load8 X (?k\<lparr>ram := m\<rparr>) (stack_lo + of_nat i) = Inr (v ! i)"
    "\<forall>p. (\<forall>i < length v. tr X ?k (stack_lo + of_nat i) \<noteq> Some p) \<longrightarrow> m p = ram ?k p"
    using build_exec_stack_fits[OF assms(1) v3 assms(11)] by blast
  let ?k3 = "?k\<lparr>ram := m\<rparr>" and ?f = "\<lambda>p. p\<lparr>save := bootstrap_user entry stack_lo 0x202, pending_rax := 0\<rparr>"
  let ?k' = "set_user_entry entry (update_slot (CURRENT_SLOT ?k3) ?f ?k3)"
  have c: "current_proc ?k3 t p"
    using assms(4) mem_change_fields(3,4)[OF r(4)]
    by (simp add: current_proc_def apply_user_meta_def set_user_rw_image_start_def set_user_image_end_def)
  have "current_proc (update_slot (CURRENT_SLOT ?k3) ?f ?k3) (t[CURRENT_SLOT ?k3 := Some (?f p)]) (?f p)"
    using current_procD(6)[OF c] by (intro current_proc_update[OF c]) (simp_all add: proc_ok_def)
  then have c': "current_proc ?k' (t[CURRENT_SLOT ?k3 := Some (?f p)]) (?f p)"
    by (simp add: current_proc_def set_user_entry_def)
  have e: "sys_execve X bin path_u argv_u envp_u k = Inr (0, ?k')"
    using assms(7,8,13,14) parse_user_ptrvec_reads[OF assms(9)] parse_user_ptrvec_reads[OF assms(10)] b(1)
    by (simp add: sys_execve_def length_INIT_PATH load_elf_exec_def set_syscall_saved_def Let_def)
  have l8: "load8 X ?k' = load8 X ?k3"
    by (simp add: fun_eq_iff load8_def set_user_entry_def update_slot_def split: option.splits)
  have "load8 X ?k3 va = load8 X k2 va" if "user_window (page_floor va)" "page_floor va \<noteq> 0x401000" for va
    using stack_write_local[OF assms(1) v3(1) _ b(5) that] b(2) assms(11) l2 by simp
  moreover have "kvm_ok X ?k'" using v3(1) by (subst kvm_ok_cong[of _ ?k]) (simp_all add: set_user_entry_def)
  ultimately show ?thesis using e b(3,4) c' unfolding l8[symmetric]
    by (intro exI[of _ ?k'] exI[of _ "t[CURRENT_SLOT ?k3 := Some (?f p)]"] exI[of _ v]) blast
qed

section \<open>An example call\<close>

text \<open>
  A kernel with free frames whose stack page holds the path, the string \<open>sh\<close> and a table with a
  pointer to it.
\<close>

definition exec_page :: "u8 list" where
  "exec_page = [47, 105, 110, 105, 116, 0, 0, 0, 115, 104, 0, 0, 0, 0, 0, 0, 8, 16, 64, 0, 0, 0, 0, 0, 0, 0, 0, 0, 0, 0, 0, 0]"

definition exec_demo :: "(u64 \<Rightarrow> u64 option) kernel" where
  "exec_demo = vm_demo\<lparr>page_table := (\<lambda>pg. if pg = 0x401000 then Some 0x10000 else None),
     ram := (\<lambda>a. if unat (a - 0x10000) < 32 then exec_page ! unat (a - 0x10000) else 0)\<rparr>"

lemma exec_demo_translate:
  "user_window pg \<Longrightarrow> tr map_x86 exec_demo pg = (if pg = 0x401000 then Some 0x10000 else None)"
  using page_floor_id[of pg] by (simp add: map_x86_def exec_demo_def user_window_def page_aligned_def)

lemma exec_demo_ok: "kvm_ok map_x86 exec_demo"
proof -
  have l: "lock_allocator (mem exec_demo) = Some (boot_falloc demo_map)" using vm_demo_memory(1) by (simp add: exec_demo_def)
  have f: "0x10000 \<notin> free_addrs (boot_falloc demo_map)"
    using boot_falloc_ok[of demo_map] unfolding boot_frames_demo by (auto simp: free_addrs_def frame_addr_def PAGE_SIZE_def)
  have m: "mapped_4k map_x86 (page_table exec_demo) 0x401000"
    using page_floor_id[OF stack_page_facts(1)] by (simp add: map_x86_def exec_demo_def)
  show ?thesis using l f m boot_falloc_ok[of demo_map] demo_frames(1)
    by (auto simp: kvm_ok_def vm_ok_def kvm_def exec_demo_translate split: if_splits)
qed

lemma exec_demo_window: "window_ok map_x86 exec_demo"
  using vm_demo_memory(2) window_ok_cong[of exec_demo vm_demo map_x86] by (simp add: exec_demo_def)

lemma exec_demo_load:
  assumes "i < 32"
  shows "load8 map_x86 exec_demo (0x401000 + of_nat i) = Inr (exec_page ! i)"
proof -
  have o: "unat (0x401000 + of_nat i :: u64) = 0x401000 + i" "page_floor (0x401000 + of_nat i) = 0x401000"
    using page_floor_offset[OF stack_page_facts(1), of i] assms by (simp_all add: PAGE_SIZE_def)
  have "(i + 1025 * 4096) mod 4096 = i" using assms by (subst mod_mult_self1) simp
  then have "(0x401000 + i) mod 4096 = i" by (simp add: add.commute)
  moreover have "unat (of_nat i :: u64) = i" using assms by (intro unat_of_nat_u64) simp
  ultimately show ?thesis using o assms by (simp add: load8_def map_x86_def exec_demo_def PAGE_SIZE_def)
qed

lemma exec_demo_readable:
  assumes "i + n \<le> 4096"
  shows "user_region_is_readable_range exec_demo (0x401000 + of_nat i) n = Inr True"
proof -
  have u: "unat (0x401000 + of_nat i :: u64) = 0x401000 + i"
    using assms range_end(2)[of "0x401000" i] by simp
  have "unat (0x401000 + of_nat i :: u64) + n < 2 ^ 64" "n < 2 ^ 64" using u assms by simp_all
  note e = range_end[OF this]
  have "0x401000 \<le> (0x401000 + of_nat i :: u64)" "(0x401000 + of_nat i :: u64) + of_nat n \<le> USER_STACK_TOP"
    unfolding word_le_nat_alt e(2) u using assms by (simp_all add: USER_STACK_TOP_def)
  then show ?thesis unfolding user_region_is_readable_range_def e(1) by (simp add: stack_lo Let_def)
qed

lemma exec_demo_read:
  "i + n \<le> 32 \<Longrightarrow> read_user map_x86 exec_demo (0x401000 + of_nat i) n = Inr (take n (drop i exec_page))"
proof (induction n arbitrary: i)
  case (Suc n)
  have l: "length exec_page = 32" by (simp add: exec_page_def)
  have "read_user map_x86 exec_demo (0x401000 + of_nat i + 1) n = Inr (take n (drop (Suc i) exec_page))"
    using Suc.IH[of "Suc i"] Suc.prems by (simp add: add.commute add.left_commute)
  moreover have "drop i exec_page = exec_page ! i # drop (Suc i) exec_page"
    using Suc.prems l by (intro Cons_nth_drop_Suc[symmetric]) simp
  ultimately show ?case using exec_demo_load[of i] Suc.prems by simp
qed simp

lemma to_le_bytes_numeral: "to_le_bytes (numeral n) v = of_nat v # to_le_bytes (pred_numeral n) (v div 256)"
  unfolding numeral_eq_Suc[of n] by (rule to_le_bytes.simps(2))

lemma exec_demo_argv: "user_strings map_x86 exec_demo 0x401010 32 [[115, 104]]"
proof -
  have c: "user_cstring map_x86 exec_demo 0x401008 [115, 104]"
  proof -
    have "user_region_is_readable_range exec_demo (0x401008 + of_nat i) 1 = Inr True
        \<and> load8 map_x86 exec_demo (0x401008 + of_nat i) = Inr (([115, 104] @ [0]) ! i)" if "i \<le> 2" for i
    proof -
      have i: "i = 0 \<or> i = 1 \<or> i = 2" using that by linarith
      show ?thesis using i exec_demo_readable[of "8 + i" 1] exec_demo_load[of "8 + i"]
        by (elim disjE) (simp_all add: exec_page_def)
    qed
    then show ?thesis by (simp add: user_cstring_def)
  qed
  have "user_word map_x86 exec_demo 0x401010 0x401008" "user_word map_x86 exec_demo 0x401018 0"
    using exec_demo_readable[of 16 8] exec_demo_readable[of 24 8] exec_demo_read[of 16 8] exec_demo_read[of 24 8]
    by (simp_all add: user_word_def exec_page_def to_le_bytes_numeral)
  then have "user_ptrvec map_x86 exec_demo 0x401010 [0x401008] [[115, 104]]" using c by (simp add: user_ptrvec_def)
  then show ?thesis by (auto simp: user_strings_def)
qed

lemma exec_demo_unmap: "unmap_old_image_best_effort map_x86 exec_demo = Inr exec_demo"
proof -
  have l: "lock_allocator (mem exec_demo) \<noteq> None" using exec_demo_ok by (simp add: kvm_ok_def)
  have ie: "USER_IMAGE_END exec_demo = 0x401000" using demo_fields(1)[of None] by (simp add: exec_demo_def vm_demo_def)
  have "user_window 0x400000" by (simp add: user_window_def page_aligned_def rock_consts)
  then have "tr map_x86 exec_demo 0x400000 = None" by (simp add: exec_demo_translate)
  then have "unmap_image map_x86 0x401000 0x400000 (kvm exec_demo) = Inr (kvm exec_demo)"
    by (simp add: unmap_image.simps[of _ _ "0x400000"] unmap_image.simps[of _ _ "0x401000"] map_x86_def add_ok_def Let_def)
  then show ?thesis
    by (simp add: unmap_old_image_best_effort_def with_mapper_kvm[OF l] ie USER_TEXT_BASE_def set_kvm_kvm[OF l])
qed

theorem execve_passes_arguments_witness:
  "\<exists>k' v. sys_execve map_x86 demo_elf 0x401000 0x401010 0 exec_demo = Inr (0, k') \<and> word_at v 0 = 1
     \<and> load8 map_x86 k' stack_lo = Inr (v ! 0)"
proof -
  have sz: "exec_stack_size [[115, 104]] [] = 136"
    by (simp add: exec_stack_size_def tables_size_def strings_size_def padding_def)
  have cur: "current_proc exec_demo (demo_table None) demo_init"
    using vm_demo_current by (simp add: current_proc_def exec_demo_def)
  have ie: "USER_IMAGE_END exec_demo \<le> 0x401000" using demo_fields(1)[of None] by (simp add: exec_demo_def vm_demo_def)
  have st: "tr map_x86 exec_demo 0x401000 \<noteq> None" using exec_demo_translate[OF stack_page_facts(3)] by simp
  have path: "user_region_is_readable_range exec_demo 0x401000 6 = Inr True" "read_user map_x86 exec_demo 0x401000 6 = Inr INIT_PATH"
    using exec_demo_readable[of 0 6] exec_demo_read[of 0 6] by (simp_all add: exec_page_def INIT_PATH_def bytes_of_def)
  have envp: "user_strings map_x86 exec_demo 0 16 []" by (simp add: user_strings_def)
  have wf: "well_formed_image demo_elf" by (simp add: well_formed_image_def demo_elf_header demo_elf_phdr)
  have "lock_allocator (mem exec_demo) = Some (boot_falloc demo_map)" "page_table exec_demo 0x400000 = None"
    using vm_demo_memory(1) by (simp_all add: exec_demo_def)
  then obtain meta k2 where ld: "load_elf_mapped map_x86 demo_elf 0 exec_demo = Inr (Inr (0x400078, meta), k2)"
    using demo_elf_loads[OF _ demo_falloc exec_demo_window] by blast
  have z: "exec_stack_size [[115, 104]] [] \<le> 4096" unfolding sz by simp
  from execve_passes_arguments[OF map_x86_laws exec_demo_ok exec_demo_window cur ie st path exec_demo_argv envp z wf exec_demo_unmap ld]
  obtain k' v where r: "sys_execve map_x86 demo_elf 0x401000 0x401010 0 exec_demo = Inr (0, k')"
    "stack_layout meta [[115, 104]] [] v" "\<forall>i < length v. load8 map_x86 k' (stack_lo + of_nat i) = Inr (v ! i)" by blast
  have w: "word_at v 0 = 1" using r(2) by (simp add: stack_layout_def Let_def)
  then have "v \<noteq> []" by (auto simp: word_at_def slice_def)
  then have "load8 map_x86 k' stack_lo = Inr (v ! 0)" using r(3)[rule_format, of 0] by simp
  then show ?thesis using r(1) w by blast
qed

end
