(* ===== verification/Rock_Fork.thy ===== *)
theory Rock_Fork
  imports Rock_Vm_Calls Rock_Sched
begin

text \<open>
  \<open>fork\<close> (\<open>src/process.rs\<close>): a new process in the shared address space, with the upper part of the
  parent's stack page copied to the child's stack page. The stack pointer that the inline assembly
  reads inside \<open>sys_fork\<close>, and the address of the new process' box, are arguments.
\<close>

section \<open>The child's stack\<close>

fun copy_user_pages :: "'pt x86 \<Rightarrow> u64 \<Rightarrow> u64 \<Rightarrow> nat list \<Rightarrow> 'pt kernel \<Rightarrow> (bool \<times> 'pt kernel) outcome" where
  "copy_user_pages X src dst [] k = Inr (True, k)"
| "copy_user_pages X src dst (i # is) k =
     (if \<not> add_ok src (of_nat i) \<or> \<not> add_ok dst (of_nat i) then Inl Overflow
      else if \<not> virt_new X (src + of_nat i) \<or> \<not> virt_new X (dst + of_nat i) then Inl BadVirtAddr
      else case translate X (page_table k) (src + of_nat i) of None \<Rightarrow> Inr (False, k)
        | Some ps \<Rightarrow> (case translate X (page_table k) (dst + of_nat i) of None \<Rightarrow> Inr (False, k)
            | Some pd \<Rightarrow>
                obind (window_addr X k ps) (\<lambda>ps. obind (window_addr X k pd) (\<lambda>pd.
                  copy_user_pages X src dst is (k\<lparr>ram := (ram k)(pd := ram k ps)\<rparr>)))))"

definition map_child_stack :: "'pt x86 \<Rightarrow> 'pt kernel \<Rightarrow> (bool \<times> 'pt kernel) outcome" where
  "map_child_stack X k =
     obind (page_containing X CHILD_STACK_LO) (\<lambda>page.
       with_mapper (\<lambda>s. Inr (if translate X (fst s) page = None then map_one X user_data_flags page s
                              else (True, s))) k)"

definition child_stack_dst :: "u64 \<Rightarrow> u64" where
  "child_stack_dst src_lo = CHILD_STACK_LO + saturating_sub src_lo (USER_STACK_TOP - 0x1000)"

definition map_child_stack_and_copy :: "'pt x86 \<Rightarrow> syscall_saved \<Rightarrow> 'pt kernel \<Rightarrow> (bool \<times> 'pt kernel) outcome" where
  "map_child_stack_and_copy X saved k =
     obind (map_child_stack X k) (\<lambda>(okk, k).
       if \<not> okk then Inr (False, k)
       else let src_lo = user_rsp saved in
         if src_lo \<ge> USER_STACK_TOP then Inr (False, k)
         else copy_user_pages X src_lo (child_stack_dst src_lo) [0..<unat (USER_STACK_TOP - src_lo)] k)"

section \<open>The call\<close>

definition fork_child :: "u64 \<Rightarrow> u64 \<Rightarrow> process \<Rightarrow> syscall_saved \<Rightarrow> u64 \<Rightarrow> process" where
  "fork_child child_pid parent_pid p child_save at_box =
     \<lparr>pid = child_pid, parent = Some parent_pid, brk_end = brk_end p, vm_areas = vm_areas p,
      exit_code = None, kstack = at_box, save = child_save, pending_rax = 0\<rparr>"

definition sys_fork :: "'pt x86 \<Rightarrow> u64 \<Rightarrow> u64 \<Rightarrow> 'pt kernel \<Rightarrow> (u64 \<times> 'pt kernel) outcome" where
  "sys_fork X rsp_now at_box k =
     (let parent_slot = CURRENT_SLOT k in
      obind (current_pid k) (\<lambda>parent_pid.
        case alloc_pid k of None \<Rightarrow> Inr (errno 12, k)
        | Some child_pid \<Rightarrow>
            let saved = save_from_dispatch_rsp (kmem (cpu k)) rsp_now in
            obind (map_child_stack_and_copy X saved k) (\<lambda>(okk, k).
              if \<not> okk then Inr (errno 12, k)
              else let delta = saturating_sub USER_STACK_TOP (user_rsp saved);
                  child_save = saved\<lparr>user_rsp := saturating_sub USER_STACK_CHILD_TOP delta\<rparr> in
                case TABLE k of None \<Rightarrow> Inl UnwrapNone
                | Some t \<Rightarrow> obind (slot_at t parent_slot) (\<lambda>s. case s of None \<Rightarrow> Inl UnwrapNone
                    | Some p \<Rightarrow>
                        let child = fork_child child_pid parent_pid p child_save at_box in
                        (case alloc_slot t of (None, t') \<Rightarrow> Inl UnwrapNone
                         | (Some slot, t') \<Rightarrow>
                             let k = k\<lparr>TABLE := Some (t'[slot := Some child])\<rparr>;
                                 k = set_syscall_saved slot child_save 0 k;
                                 k = enqueue_new_task slot k;
                                 k = note_yield k
                             in Inr (child_pid, k))))))"

section \<open>The new process\<close>

text \<open>Only the page table, the allocator and memory change before the table is edited.\<close>

lemma copy_user_pages_ram: "copy_user_pages X src dst is k = Inr (okk, k') \<Longrightarrow> \<exists>m. k' = k\<lparr>ram := m\<rparr>"
proof (induction "is" arbitrary: k)
  case Nil
  then show ?case by (intro exI[of _ "ram k"]) simp
next
  case (Cons i "is")
  have "\<exists>m. k = k\<lparr>ram := m\<rparr>" by (intro exI[of _ "ram k"]) simp
  then show ?case using Cons by (fastforce split: if_splits option.splits dest!: obind_eq_InrD)
qed

lemma with_mapper_fields:
  assumes "with_mapper f k = Inr (okk, k')"
  shows "\<exists>pt m. k' = k\<lparr>page_table := pt, mem := m\<rparr>"
proof -
  have "\<exists>pt m. k = k\<lparr>page_table := pt, mem := m\<rparr>" by (intro exI[of _ "page_table k"] exI[of _ "mem k"]) simp
  then show ?thesis using assms by (auto simp: with_mapper_def split: option.splits dest!: obind_eq_InrD)
qed

lemma map_child_stack_and_copy_fields:
  assumes "map_child_stack_and_copy X saved k = Inr (okk, k')"
  shows "\<exists>pt m r. k' = k\<lparr>page_table := pt, mem := m, ram := r\<rparr>"
proof -
  obtain o1 k1 where k1: "map_child_stack X k = Inr (o1, k1)"
    using assms by (auto simp: map_child_stack_and_copy_def dest!: obind_eq_InrD)
  obtain page where "with_mapper (\<lambda>s. Inr (if translate X (fst s) page = None then map_one X user_data_flags page s
      else (True, s))) k = Inr (o1, k1)"
    using obind_eq_InrD[OF k1[unfolded map_child_stack_def]] by blast
  from with_mapper_fields[OF this] obtain pt m where m: "k1 = k\<lparr>page_table := pt, mem := m\<rparr>" by blast
  have same: "\<exists>r. k1 = k1\<lparr>ram := r\<rparr>" by (intro exI[of _ "ram k1"]) simp
  note e = assms[unfolded map_child_stack_and_copy_def k1 obind_simps prod.case Let_def]
  have "\<exists>r. k' = k1\<lparr>ram := r\<rparr>"
  proof (cases "o1 \<and> \<not> USER_STACK_TOP \<le> user_rsp saved")
    case True
    then show ?thesis using e by (intro copy_user_pages_ram) (simp only: simp_thms if_True if_False)
  next
    case False
    then have "k' = k1" using e by (auto split: if_splits)
    then show ?thesis using same by simp
  qed
  then show ?thesis unfolding m by blast
qed

section \<open>The copy of the stack\<close>

text \<open>The bytes of one page below the stack top, and where the child's stack has them.\<close>

lemma copy_loop_spec:
  assumes "x86_laws X" "kvm_ok X k" "window_ok X k"
    "\<And>i. i \<in> set is \<Longrightarrow> user_window (page_floor (src + of_nat i)) \<and> user_window (page_floor (dst + of_nat i))
       \<and> add_ok src (of_nat i) \<and> add_ok dst (of_nat i)
       \<and> tr X k (src + of_nat i) \<noteq> None \<and> tr X k (dst + of_nat i) \<noteq> None"
    "\<And>i j. i \<in> set is \<Longrightarrow> j \<in> set is \<Longrightarrow> src + of_nat i \<noteq> dst + of_nat j"
    "\<And>i j. i \<in> set is \<Longrightarrow> j \<in> set is \<Longrightarrow> dst + of_nat i = dst + of_nat j \<Longrightarrow> i = j" "distinct is"
  shows "\<exists>m. copy_user_pages X src dst is k = Inr (True, k\<lparr>ram := m\<rparr>)
    \<and> (\<forall>i \<in> set is. m (the (tr X k (dst + of_nat i))) = ram k (the (tr X k (src + of_nat i))))
    \<and> (\<forall>p. (\<forall>i \<in> set is. tr X k (dst + of_nat i) \<noteq> Some p) \<longrightarrow> m p = ram k p)"
  using assms(2-)
proof (induction "is" arbitrary: k)
  case Nil
  show ?case by (intro exI[of _ "ram k"]) simp
next
  case (Cons i "is")
  have v: "vm_ok X (kvm k)" using Cons.prems(1) by (simp add: kvm_ok_def)
  have P: "user_window (page_floor (src + of_nat j))" "user_window (page_floor (dst + of_nat j))"
    "add_ok src (of_nat j)" "add_ok dst (of_nat j)" "tr X k (src + of_nat j) \<noteq> None" "tr X k (dst + of_nat j) \<noteq> None"
    if "j \<in> set (i # is)" for j using Cons.prems(3)[OF that] by blast+
  have ii: "i \<in> set (i # is)" by simp
  obtain ps pd where t: "tr X k (src + of_nat i) = Some ps" "tr X k (dst + of_nat i) = Some pd"
    using P(5,6)[OF ii] by auto
  note vn = window_virt[OF assms(1)] and wa = window_translate[OF assms(1) Cons.prems(1,2)]
  let ?k = "k\<lparr>ram := (ram k)(pd := ram k ps)\<rparr>"
  have ok: "kvm_ok X ?k" "window_ok X ?k"
    using Cons.prems(1,2) kvm_ok_cong[of ?k k X] by (simp_all add: window_ok_def window_addr_def)
  obtain m where m: "copy_user_pages X src dst is ?k = Inr (True, ?k\<lparr>ram := m\<rparr>)"
    "\<forall>j \<in> set is. m (the (tr X ?k (dst + of_nat j))) = ram ?k (the (tr X ?k (src + of_nat j)))"
    "\<forall>p. (\<forall>j \<in> set is. tr X ?k (dst + of_nat j) \<noteq> Some p) \<longrightarrow> m p = ram ?k p"
    using Cons.IH[OF ok] P Cons.prems(4-6) by auto
  have e: "copy_user_pages X src dst (i # is) k = Inr (True, k\<lparr>ram := m\<rparr>)"
    using m(1) t P(3,4)[OF ii] vn[OF P(1)[OF ii]] vn[OF P(2)[OF ii]] wa[OF P(1)[OF ii] t(1)] wa[OF P(2)[OF ii] t(2)] by simp
  have inj: "a = b" if "user_window (page_floor a)" "user_window (page_floor b)" "tr X k a = Some q" "tr X k b = Some q" for a b q
    using user_addr_inj[OF assms(1) v that(1,2), of q] that(3,4) by simp
  have "tr X k (dst + of_nat j) \<noteq> Some pd" if "j \<in> set is" for j
    using inj[of "dst + of_nat i" "dst + of_nat j" pd] P(2)[of j] P(2)[OF ii] t(2) Cons.prems(5)[of i j] Cons.prems(6) that by auto
  then have mi: "m pd = ram k ps" using m(3) by auto
  have src: "the (tr X k (src + of_nat j)) \<noteq> pd" if "j \<in> set is" for j
    using inj[of "src + of_nat j" "dst + of_nat i" pd] P(1,5)[of j] P(2)[OF ii] t(2) Cons.prems(4)[of j i] that by auto
  have "\<forall>j \<in> set (i # is). m (the (tr X k (dst + of_nat j))) = ram k (the (tr X k (src + of_nat j)))"
    using m(2) mi src t by auto
  moreover have "\<forall>p. (\<forall>j \<in> set (i # is). tr X k (dst + of_nat j) \<noteq> Some p) \<longrightarrow> m p = ram k p"
    using m(3) t(2) by auto
  ultimately show ?case using e by (intro exI[of _ m]) blast
qed

lemma map_child_stack_spec:
  assumes "x86_laws X" "kvm_ok X k" "map_child_stack X k = Inr (True, k1)"
  shows "kvm_ok X k1 \<and> ram k1 = ram k \<and> tr X k1 0x402000 \<noteq> None
    \<and> PHYSICAL_MEMORY_OFFSET (mem k1) = PHYSICAL_MEMORY_OFFSET (mem k)
    \<and> (\<forall>pg f. page_aligned pg \<longrightarrow> tr X k pg = Some f \<longrightarrow> tr X k1 pg = Some f)"
proof -
  have v: "vm_ok X (kvm k)" "lock_allocator (mem k) \<noteq> None" using assms(2) by (simp_all add: kvm_ok_def)
  have lo: "CHILD_STACK_LO = 0x402000" by (simp add: CHILD_STACK_LO_def USER_STACK_CHILD_TOP_def)
  have al: "page_aligned 0x402000" by (simp add: page_aligned_def PAGE_SIZE_def)
  have pc: "page_containing X CHILD_STACK_LO = Inr 0x402000"
    using brk_page_containing[OF assms(1), of "0x402000"] page_floor_id[OF al] by (simp add: lo)
  obtain s where s: "(if tr X k 0x402000 = None then map_one X user_data_flags 0x402000 (kvm k) else (True, kvm k)) = (True, s)"
      "k1 = set_kvm s k"
    using assms(3) by (auto simp: map_child_stack_def pc with_mapper_kvm[OF v(2)] split: if_splits prod.splits)
  have o: "PHYSICAL_MEMORY_OFFSET (mem k1) = PHYSICAL_MEMORY_OFFSET (mem k)" "ram k1 = ram k"
    by (simp_all add: s(2) set_kvm_def unlock_allocator_def)
  show ?thesis
  proof (cases "tr X k 0x402000 = None")
    case True
    then have m: "map_one X user_data_flags 0x402000 (kvm k) = (True, s)" using s(1) by simp
    show ?thesis using o s(2) map_one_ok[OF assms(1) al v(1) m] map_one_maps(2)[OF assms(1) al v(1) m]
        map_one_keeps[OF assms(1) al v(1) m] by (simp add: kvm_ok_set)
  next
    case False
    then show ?thesis using o s v(1) by (auto simp: kvm_ok_set)
  qed
qed

text \<open>The addresses of the copy, as offsets in the two stack pages.\<close>

lemma stack_copy_addrs:
  assumes "0x401000 \<le> r" "r < USER_STACK_TOP" "i < unat (USER_STACK_TOP - r)"
  shows "\<exists>j < 4096. r + of_nat i = 0x401000 + of_nat j \<and> r + 0x1000 + of_nat i = 0x402000 + of_nat j
    \<and> j = unat r - 0x401000 + i"
proof -
  have ur: "0x401000 \<le> unat r" "unat r < 0x402000"
    using assms(1,2) by (simp_all add: word_le_nat_alt word_less_nat_alt USER_STACK_TOP_def)
  have n: "unat (USER_STACK_TOP - r) = 0x402000 - unat r"
    using assms(2) by (simp add: unat_sub USER_STACK_TOP_def word_less_nat_alt word_le_nat_alt)
  have r: "r = 0x401000 + of_nat (unat r - 0x401000)"
    using ur by (simp add: of_nat_diff)
  have "unat r - 0x401000 + i < 4096" using assms(3) n ur by simp
  moreover have "r + of_nat i = 0x401000 + of_nat (unat r - 0x401000 + i)" by (subst r) simp
  ultimately show ?thesis by auto
qed

lemma stack_copy_ready:
  assumes "x86_laws X" "tr X k 0x401000 \<noteq> None" "tr X k 0x402000 \<noteq> None"
    "0x401000 \<le> r" "r < USER_STACK_TOP" "i < unat (USER_STACK_TOP - r)"
  shows "user_window (page_floor (r + of_nat i))" "user_window (page_floor (r + 0x1000 + of_nat i))"
    "add_ok r (of_nat i)" "add_ok (r + 0x1000) (of_nat i)"
    "tr X k (r + of_nat i) \<noteq> None" "tr X k (r + 0x1000 + of_nat i) \<noteq> None"
    "unat (r + of_nat i) = unat r + i" "unat (r + 0x1000 + of_nat i) = unat r + 0x1000 + i"
    "page_floor (r + of_nat i) = 0x401000" "unat r + i < 0x402000" "0x401000 \<le> unat r"
proof -
  note sp = stack_page_facts
  have lt: "unat (0x401000 :: u64) < 0x480000" "unat (0x402000 :: u64) < 0x480000" by simp_all
  note sb = page_bytes[OF sp(1,3) assms(2,1) _ lt(1)] and db = page_bytes[OF sp(2,4) assms(3,1) _ lt(2)]
  obtain j where j: "j < 4096" "r + of_nat i = 0x401000 + of_nat j" "r + 0x1000 + of_nat i = 0x402000 + of_nat j"
    "j = unat r - 0x401000 + i" using stack_copy_addrs[OF assms(4-6)] by blast
  show ur: "0x401000 \<le> unat r" using assms(4) by (simp add: word_le_nat_alt)
  show b: "unat r + i < 0x402000" using j(1,4) ur by simp
  have iu: "unat (of_nat i :: u64) = i" using j(1,4) by (intro unat_of_nat_u64) simp
  have "unat (r + 0x1000) = unat r + 0x1000" using b by (simp add: unat_word_ariths)
  then show "add_ok r (of_nat i)" "add_ok (r + 0x1000) (of_nat i)" using iu b by (simp_all add: add_ok_def)
  show "user_window (page_floor (r + of_nat i))" "tr X k (r + of_nat i) \<noteq> None"
    unfolding j(2) by (rule sb(1,2)[OF j(1)])+
  show "user_window (page_floor (r + 0x1000 + of_nat i))" "tr X k (r + 0x1000 + of_nat i) \<noteq> None"
    unfolding j(3) by (rule db(1,2)[OF j(1)])+
  show "unat (r + of_nat i) = unat r + i" unfolding j(2) sb(3)[OF j(1)] using j(4) ur by simp
  show "unat (r + 0x1000 + of_nat i) = unat r + 0x1000 + i" unfolding j(3) db(3)[OF j(1)] using j(4) ur by simp
  show "page_floor (r + of_nat i) = 0x401000"
    unfolding j(2) using j(1) by (intro page_floor_offset(2)[OF sp(1)]) (simp_all add: PAGE_SIZE_def)
qed

lemma stack_copy:
  assumes "x86_laws X" "kvm_ok X k" "window_ok X k" "tr X k 0x401000 \<noteq> None" "tr X k 0x402000 \<noteq> None"
    "0x401000 \<le> r" "r < USER_STACK_TOP"
  shows "\<exists>m. copy_user_pages X r (r + 0x1000) [0..<unat (USER_STACK_TOP - r)] k = Inr (True, k\<lparr>ram := m\<rparr>)
    \<and> (\<forall>i < unat (USER_STACK_TOP - r).
         m (the (tr X k (r + 0x1000 + of_nat i))) = ram k (the (tr X k (r + of_nat i)))
       \<and> m (the (tr X k (r + of_nat i))) = ram k (the (tr X k (r + of_nat i))))"
proof -
  let ?n = "unat (USER_STACK_TOP - r)"
  note rd = stack_copy_ready[OF assms(1,4-7)]
  have v: "vm_ok X (kvm k)" using assms(2) by (simp add: kvm_ok_def)
  have ne: "r + of_nat i \<noteq> r + 0x1000 + of_nat j" if "i < ?n" "j < ?n" for i j
  proof
    assume "r + of_nat i = r + 0x1000 + of_nat j"
    from arg_cong[OF this, of unat] have "unat r + i = unat r + 0x1000 + j"
      unfolding rd(7)[OF that(1)] rd(8)[OF that(2)] .
    then show False using rd(10,11)[OF that(1)] by linarith
  qed
  have P: "user_window (page_floor (r + of_nat i)) \<and> user_window (page_floor (r + 0x1000 + of_nat i))
       \<and> add_ok r (of_nat i) \<and> add_ok (r + 0x1000) (of_nat i)
       \<and> tr X k (r + of_nat i) \<noteq> None \<and> tr X k (r + 0x1000 + of_nat i) \<noteq> None" if "i \<in> set [0..<?n]" for i
  proof -
    have "i < ?n" using that unfolding set_upt by (rule atLeastLessThan_iff[THEN iffD1, THEN conjunct2])
    then show ?thesis by (intro conjI rd(1-6))
  qed
  have N: "r + of_nat i \<noteq> r + 0x1000 + of_nat j" if "i \<in> set [0..<?n]" "j \<in> set [0..<?n]" for i j
    using that unfolding set_upt atLeastLessThan_iff by (intro ne) blast+
  have I: "i = j" if "i \<in> set [0..<?n]" "j \<in> set [0..<?n]" "r + 0x1000 + of_nat i = r + 0x1000 + of_nat j" for i j
  proof -
    have l: "i < ?n" "j < ?n" using that(1,2) unfolding set_upt atLeastLessThan_iff by blast+
    from arg_cong[OF that(3), of unat] have "unat r + 0x1000 + i = unat r + 0x1000 + j"
      unfolding rd(8)[OF l(1)] rd(8)[OF l(2)] .
    then show ?thesis by linarith
  qed
  obtain m where m: "copy_user_pages X r (r + 0x1000) [0..<?n] k = Inr (True, k\<lparr>ram := m\<rparr>)"
    "\<forall>i \<in> set [0..<?n]. m (the (tr X k (r + 0x1000 + of_nat i))) = ram k (the (tr X k (r + of_nat i)))"
    "\<forall>p. (\<forall>i \<in> set [0..<?n]. tr X k (r + 0x1000 + of_nat i) \<noteq> Some p) \<longrightarrow> m p = ram k p"
    using copy_loop_spec[OF assms(1-3) P N I distinct_upt] by blast
  have "m (the (tr X k (r + of_nat i))) = ram k (the (tr X k (r + of_nat i)))" if i: "i < ?n" for i
  proof -
    obtain p where p: "tr X k (r + of_nat i) = Some p" using rd(5)[OF i] by blast
    have "tr X k (r + 0x1000 + of_nat j) \<noteq> Some p" if j: "j < ?n" for j
    proof
      assume "tr X k (r + 0x1000 + of_nat j) = Some p"
      then have "r + of_nat i = r + 0x1000 + of_nat j"
        using user_addr_inj[OF assms(1) v rd(1)[OF i] rd(2)[OF j], of p] p by simp
      then show False using ne[OF i j] by simp
    qed
    then show ?thesis using m(3) p by simp
  qed
  then show ?thesis using m(1,2) by (intro exI[of _ m]) simp
qed

section \<open>A kernel about to fork\<close>

lemma fork_demo_child_stack: "map_child_stack map_x86 stack_demo = Inr (True, set_kvm (kvm stack_demo) stack_demo)"
proof -
  have v: "lock_allocator (mem stack_demo) \<noteq> None" using stack_demo_ok by (simp add: kvm_ok_def)
  have al: "page_aligned 0x402000" by (simp add: page_aligned_def PAGE_SIZE_def)
  have pc: "page_containing map_x86 CHILD_STACK_LO = Inr 0x402000"
    using brk_page_containing[OF map_x86_laws, of "0x402000"] page_floor_id[OF al]
    by (simp add: CHILD_STACK_LO_def USER_STACK_CHILD_TOP_def)
  have "tr map_x86 stack_demo 0x402000 = Some 0x11000"
    using page_floor_id[OF al] by (simp add: map_x86_def stack_demo_def PAGE_SIZE_def)
  then show ?thesis by (simp add: map_child_stack_def pc with_mapper_kvm[OF v])
qed

lemma fork_demo_saved: "user_rsp (save_from_dispatch_rsp (kmem (cpu stack_demo)) r) = 0x401ff8"
  by (simp add: save_from_dispatch_rsp_def stack_demo_def)

lemma fork_demo_copies:
  "\<exists>k1. map_child_stack_and_copy map_x86 (save_from_dispatch_rsp (kmem (cpu stack_demo)) r) stack_demo = Inr (True, k1)"
proof -
  let ?k1 = "set_kvm (kvm stack_demo) stack_demo"
  note m = map_child_stack_spec[OF map_x86_laws stack_demo_ok fork_demo_child_stack]
  have "window_ok map_x86 ?k1" using m stack_demo_window window_ok_cong[of ?k1 stack_demo map_x86] by simp
  moreover have "tr map_x86 ?k1 0x401000 \<noteq> None" using stack_demo_mapped by (simp add: set_kvm_def kvm_def)
  ultimately obtain m' where "copy_user_pages map_x86 0x401ff8 (0x401ff8 + 0x1000) [0..<unat (USER_STACK_TOP - 0x401ff8)] ?k1
      = Inr (True, ?k1\<lparr>ram := m'\<rparr>)"
    using m stack_copy[OF map_x86_laws, of ?k1 "0x401ff8"] by (auto simp: USER_STACK_TOP_def)
  moreover have "child_stack_dst 0x401ff8 = 0x401ff8 + 0x1000"
    by (simp add: child_stack_dst_def saturating_sub_def CHILD_STACK_LO_def USER_STACK_CHILD_TOP_def USER_STACK_TOP_def)
  ultimately show ?thesis
    by (simp add: map_child_stack_and_copy_def fork_demo_child_stack fork_demo_saved USER_STACK_TOP_def)
qed

section \<open>What fork guarantees\<close>

text \<open>The state after a fork that succeeds, and the invariant of its table.\<close>

definition fork_save :: "syscall_saved \<Rightarrow> syscall_saved" where
  "fork_save sv = sv\<lparr>user_rsp := saturating_sub USER_STACK_CHILD_TOP (saturating_sub USER_STACK_TOP (user_rsp sv))\<rparr>"

lemma sys_fork_result:
  assumes "current_proc k t p" "alloc_pid k = Some c"
    "map_child_stack_and_copy X (save_from_dispatch_rsp (kmem (cpu k)) rsp_now) k = Inr (True, k1)"
    "first_none t = Some slot"
    "q = fork_child c (pid p) p (fork_save (save_from_dispatch_rsp (kmem (cpu k)) rsp_now)) at_box"
  shows "sys_fork X rsp_now at_box k = Inr (c, note_yield (enqueue_new_task slot (k1\<lparr>TABLE := Some (t[slot := Some q])\<rparr>)))"
    "table_ok (t[slot := Some q])" "get_slot t slot = None" "slot \<noteq> CURRENT_SLOT k"
    "get_slot (t[slot := Some q]) i = (if i = slot then Some q else get_slot t i)"
proof -
  note d = current_procD[OF assms(1)] and fn = first_none_Some[OF assms(4)]
  obtain pt m r where k1: "k1 = k\<lparr>page_table := pt, mem := m, ram := r\<rparr>"
    using map_child_stack_and_copy_fields[OF assms(3)] by blast
  have len: "length t = 32" by (rule table_okD(1)[OF d(2)])
  show g: "get_slot (t[slot := Some q]) i = (if i = slot then Some q else get_slot t i)" for i
    using fn by (simp add: get_slot_update)
  show gn: "get_slot t slot = None" using fn by (simp add: get_slot_def)
  then show "slot \<noteq> CURRENT_SLOT k" using d(5) by auto
  let ?cs = "fork_save (save_from_dispatch_rsp (kmem (cpu k)) rsp_now)"
  have q: "q\<lparr>save := ?cs, pending_rax := 0\<rparr> = q" by (simp add: assms(5) fork_child_def)
  have "set_syscall_saved slot ?cs 0 (k1\<lparr>TABLE := Some (t[slot := Some q])\<rparr>) = k1\<lparr>TABLE := Some (t[slot := Some q])\<rparr>"
    using g[of slot] q by (simp add: set_syscall_saved_def update_slot_def)
  then show "sys_fork X rsp_now at_box k = Inr (c, note_yield (enqueue_new_task slot (k1\<lparr>TABLE := Some (t[slot := Some q])\<rparr>)))"
    using assms(2,3) d k1 alloc_slot_full[OF len] assms(4)
    by (simp add: sys_fork_def current_pid_eq[OF assms(1)] Let_def slot_at_def fork_save_def assms(5))
  obtain c' where c': "alloc_pid k = Some c'" "2 \<le> unat c'" "unat c' < 1024" "\<forall>i p. get_slot t i = Some p \<longrightarrow> pid p \<noteq> c'"
    using alloc_pid_spec[OF d(1)] len by auto
  have "proc_ok q" using d(6) c' assms(2) d(5) by (auto simp: proc_ok_def fork_child_def assms(5))
  then show "table_ok (t[slot := Some q])"
    using c' assms(2) by (intro table_ok_update[OF d(2)]) (auto simp: fork_child_def assms(5))
qed

lemma sys_fork_full:
  assumes "current_proc k t p" "alloc_pid k = Some c"
    "map_child_stack_and_copy X (save_from_dispatch_rsp (kmem (cpu k)) rsp_now) k = Inr (True, k1)" "first_none t = None"
  shows "sys_fork X rsp_now at_box k = Inl UnwrapNone"
proof -
  note d = current_procD[OF assms(1)]
  obtain pt m r where k1: "k1 = k\<lparr>page_table := pt, mem := m, ram := r\<rparr>"
    using map_child_stack_and_copy_fields[OF assms(3)] by blast
  show ?thesis using assms(2-4) d k1 alloc_slot_full[OF table_okD(1)[OF d(2)]]
    by (simp add: sys_fork_def current_pid_eq[OF assms(1)] Let_def slot_at_def)
qed



text \<open>
  (C11) \<open>fork\<close> gives the child a copy of the parent's stack: when the child's stack page is mapped, every
  byte from the saved stack pointer up to the stack top is found, after the copy, one page higher,
  and the parent's bytes are unchanged.
\<close>

theorem fork_copies_stack:
  assumes "x86_laws X" "kvm_ok X k" "window_ok X k" "tr X k 0x401000 \<noteq> None"
    "map_child_stack X k = Inr (True, k1)" "0x401000 \<le> user_rsp saved" "user_rsp saved < USER_STACK_TOP"
  shows "\<exists>k'. map_child_stack_and_copy X saved k = Inr (True, k')
    \<and> (\<forall>i < unat (USER_STACK_TOP - user_rsp saved).
         load8 X k' (user_rsp saved + 0x1000 + of_nat i) = load8 X k (user_rsp saved + of_nat i)
       \<and> load8 X k' (user_rsp saved + of_nat i) = load8 X k (user_rsp saved + of_nat i))"
proof -
  let ?r = "user_rsp saved" and ?n = "unat (USER_STACK_TOP - user_rsp saved)"
  note m = map_child_stack_spec[OF assms(1,2,5)]
  have t1: "tr X k1 0x401000 \<noteq> None" "tr X k1 0x402000 \<noteq> None" "tr X k1 0x401000 = tr X k 0x401000"
    using m stack_page_facts(1) assms(4) by auto
  have w1: "window_ok X k1" using assms(3) m window_ok_cong[of k1 k X] by simp
  have k1: "kvm_ok X k1" "ram k1 = ram k" using m by blast+
  obtain mm where c: "copy_user_pages X ?r (?r + 0x1000) [0..<?n] k1 = Inr (True, k1\<lparr>ram := mm\<rparr>)"
    "\<forall>i < ?n. mm (the (tr X k1 (?r + 0x1000 + of_nat i))) = ram k1 (the (tr X k1 (?r + of_nat i)))
      \<and> mm (the (tr X k1 (?r + of_nat i))) = ram k1 (the (tr X k1 (?r + of_nat i)))"
    using stack_copy[OF assms(1) k1(1) w1 t1(1,2) assms(6,7)] by blast
  have cd: "child_stack_dst ?r = ?r + 0x1000"
    using assms(6) by (simp add: child_stack_dst_def saturating_sub_def stack_lo CHILD_STACK_LO_def USER_STACK_CHILD_TOP_def leD)
  have e: "map_child_stack_and_copy X saved k = Inr (True, k1\<lparr>ram := mm\<rparr>)"
    using assms(5,7) c(1) cd by (simp add: map_child_stack_and_copy_def Let_def)
  have "load8 X (k1\<lparr>ram := mm\<rparr>) (?r + 0x1000 + of_nat i) = load8 X k (?r + of_nat i)
      \<and> load8 X (k1\<lparr>ram := mm\<rparr>) (?r + of_nat i) = load8 X k (?r + of_nat i)" if i: "i < ?n" for i
  proof -
    note rd = stack_copy_ready[OF assms(1) t1(1,2) assms(6,7) i]
    have "tr X k (?r + of_nat i) = tr X k1 (?r + of_nat i)"
      using x86_translate[OF assms(1), of "page_table k" "?r + of_nat i"]
        x86_translate[OF assms(1), of "page_table k1" "?r + of_nat i"] t1(3) unfolding rd(9) by simp
    then show ?thesis using rd(5,6) c(2) i k1(2) by (auto simp: load8_def)
  qed
  then show ?thesis using e by blast
qed

theorem fork_copies_stack_witness:
  "\<exists>k'. map_child_stack_and_copy map_x86 (save_from_dispatch_rsp (kmem (cpu stack_demo)) 0) stack_demo = Inr (True, k')
     \<and> load8 map_x86 k' 0x402ff8 = load8 map_x86 stack_demo 0x401ff8"
proof -
  let ?sv = "save_from_dispatch_rsp (kmem (cpu stack_demo)) 0"
  have t: "translate map_x86 (page_table stack_demo) 0x401000 \<noteq> None" by (rule stack_demo_mapped)
  from fork_copies_stack[OF map_x86_laws stack_demo_ok stack_demo_window t fork_demo_child_stack, of ?sv]
  obtain k' where k': "map_child_stack_and_copy map_x86 ?sv stack_demo = Inr (True, k')"
    "\<forall>i < 8. load8 map_x86 k' (0x402ff8 + of_nat i) = load8 map_x86 stack_demo (0x401ff8 + of_nat i)"
    by (auto simp: fork_demo_saved USER_STACK_TOP_def)
  from k'(2)[rule_format, of 0] have "load8 map_x86 k' 0x402ff8 = load8 map_x86 stack_demo 0x401ff8" by simp
  then show ?thesis using k'(1) by blast
qed

end
