(* ===== verification/Rock_Devices.thy ===== *)
theory Rock_Devices
  imports Rock_Serial
begin

text \<open>
  The platform set-up: the interval timer (\<open>src/pit.rs\<close>), the interrupt controllers, the interrupt
  table and the fault handlers (\<open>src/interrupts.rs\<close>), the segment table (\<open>src/gdt.rs\<close>) and the
  model-specific registers of the \<open>syscall\<close> instruction (\<open>src/syscall.rs\<close>). A driver function is the
  list of its port writes, in order; a port it reads is an argument. What the writes do is stated over
  a specification of the 8259A and 8254 chips.
\<close>

type_synonym port_write = "u16 \<times> u8"

section \<open>The interval timer\<close>

definition CHANNEL0_DATA :: u16 where [rock_consts]: "CHANNEL0_DATA = 0x40"
definition COMMAND :: u16 where [rock_consts]: "COMMAND = 0x43"
definition PIT_BASE_FREQUENCY_HZ :: u32 where [rock_consts]: "PIT_BASE_FREQUENCY_HZ = 1193182"
definition TIMER_HZ :: u32 where [rock_consts]: "TIMER_HZ = 100"
definition DEFAULT_TIMER_DIVISOR :: u16 where
  "DEFAULT_TIMER_DIVISOR = ucast (PIT_BASE_FREQUENCY_HZ div TIMER_HZ)"
definition CMD_CHANNEL0_RATE_GEN :: u8 where [rock_consts]: "CMD_CHANNEL0_RATE_GEN = 0x34"

definition pit_init :: "u16 \<Rightarrow> port_write list" where
  "pit_init divisor =
     [(COMMAND, CMD_CHANNEL0_RATE_GEN), (CHANNEL0_DATA, ucast (divisor AND 0xFF)),
      (CHANNEL0_DATA, ucast (drop_bit 8 divisor))]"

section \<open>The interrupt controllers\<close>

definition PIC1_CMD :: u16 where [rock_consts]: "PIC1_CMD = 0x20"
definition PIC1_DATA :: u16 where [rock_consts]: "PIC1_DATA = 0x21"
definition PIC2_CMD :: u16 where [rock_consts]: "PIC2_CMD = 0xA0"
definition PIC2_DATA :: u16 where [rock_consts]: "PIC2_DATA = 0xA1"
definition PIC_1_OFFSET :: u8 where [rock_consts]: "PIC_1_OFFSET = 0x20"

datatype interrupt_index = IrqTimer | IrqKeyboard

fun as_usize :: "interrupt_index \<Rightarrow> nat" where
  "as_usize IrqTimer = unat PIC_1_OFFSET"
| "as_usize IrqKeyboard = unat (PIC_1_OFFSET + 1)"

definition io_wait :: "port_write list" where
  "io_wait = [(0x80, 0)]"

definition init_pic :: "port_write list" where
  "init_pic =
     [(PIC1_CMD, 0x11)] @ io_wait @ [(PIC2_CMD, 0x11)] @ io_wait
     @ [(PIC1_DATA, PIC_1_OFFSET)] @ io_wait @ [(PIC2_DATA, PIC_1_OFFSET + 8)] @ io_wait
     @ [(PIC1_DATA, 0x04)] @ io_wait @ [(PIC2_DATA, 2)] @ io_wait
     @ [(PIC1_DATA, 0x01)] @ io_wait @ [(PIC2_DATA, 0x01)] @ io_wait
     @ [(PIC1_DATA, 0xFF)] @ io_wait @ [(PIC2_DATA, 0xFF)] @ io_wait"

text \<open>The acknowledgement that ends both interrupt handlers.\<close>

definition end_of_interrupt :: "port_write list" where
  "end_of_interrupt = [(PIC1_CMD, 0x20)]"

section \<open>The interrupt table\<close>

datatype handler =
  breakpoint_handler | double_fault_handler | page_fault_handler | gpf_handler | divide_error_handler
  | timer_handler | keyboard_handler

definition DOUBLE_FAULT_IST_INDEX :: u16 where "DOUBLE_FAULT_IST_INDEX = 0"

text \<open>
  The entries of the table by vector, with the stack index where one is set. The vectors of the
  exceptions are those of the architecture.
\<close>

definition IDT :: "nat \<rightharpoonup> handler \<times> u16 option" where
  "IDT =
     [3 \<mapsto> (breakpoint_handler, None), 8 \<mapsto> (double_fault_handler, Some DOUBLE_FAULT_IST_INDEX),
      14 \<mapsto> (page_fault_handler, None), 13 \<mapsto> (gpf_handler, None), 0 \<mapsto> (divide_error_handler, None),
      as_usize IrqTimer \<mapsto> (timer_handler, None), as_usize IrqKeyboard \<mapsto> (keyboard_handler, None)]"

text \<open>\<open>interrupts::init\<close>; \<open>mask_in\<close> is the value the mask register is read with at the end.\<close>

definition interrupts_init :: "u8 \<Rightarrow> port_write list" where
  "interrupts_init mask_in =
     init_pic @ pit_init DEFAULT_TIMER_DIVISOR @ [(PIC1_DATA, mask_in AND 0xFC)]"

section \<open>Fault handlers\<close>

text \<open>
  A fault handler writes its report to the serial port and halts. The state is that of the serial
  driver: the bytes sent, and the status reads to come.
\<close>

fun send_all :: "u8 list list \<Rightarrow> u8 list \<times> u8 list \<Rightarrow> (u8 list \<times> u8 list) option" where
  "send_all [] s = Some s"
| "send_all (bs # bss) s = (case write_bytes bs s of None \<Rightarrow> None | Some s' \<Rightarrow> send_all bss s')"

definition double_fault_report :: "u64 \<Rightarrow> u64 \<Rightarrow> u8 list \<times> u8 list \<Rightarrow> (u8 list \<times> u8 list) option" where
  "double_fault_report error_code rip =
     send_all [[0x0D, 0x0A] @ bytes_of ''!! double fault err='', debug_hex_u64 error_code,
       bytes_of '' rip='', debug_hex_u64 rip, [0x0D, 0x0A]]"

definition page_fault_report :: "u64 \<Rightarrow> u64 \<Rightarrow> u64 \<Rightarrow> u8 list \<times> u8 list \<Rightarrow> (u8 list \<times> u8 list) option" where
  "page_fault_report cr2 error rip =
     send_all [[0x0D, 0x0A] @ bytes_of ''!! #PF cr2='', debug_hex_u64 cr2, bytes_of '' err='', debug_hex_u64 error,
       bytes_of '' rip='', debug_hex_u64 rip, [0x0D, 0x0A]]"

definition gpf_report :: "u64 \<Rightarrow> u64 \<Rightarrow> u8 list \<times> u8 list \<Rightarrow> (u8 list \<times> u8 list) option" where
  "gpf_report error rip =
     send_all [[0x0D, 0x0A] @ bytes_of ''!! #GP err='', debug_hex_u64 error,
       bytes_of '' rip='', debug_hex_u64 rip, [0x0D, 0x0A]]"

section \<open>Segments\<close>

text \<open>
  The table type of the \<open>x86_64\<close> crate is a parameter: the empty table, \<open>add_entry\<close>, which returns the
  selector of the new entry, and the check of \<open>Star::write\<close>.
\<close>

datatype descriptor = kernel_code | kernel_data | user_data | user_code | tss_descriptor

record 'g segments =
  gdt_new :: 'g
  add_entry :: "descriptor \<Rightarrow> 'g \<Rightarrow> u16 \<times> 'g"
  star_accepts :: "u16 \<Rightarrow> u16 \<Rightarrow> u16 \<Rightarrow> u16 \<Rightarrow> bool"

record selectors =
  kernel_code_segment :: u16
  kernel_data_segment :: u16
  user_data_segment :: u16
  user_code_segment :: u16
  tss_selector :: u16

definition GDT :: "'g segments \<Rightarrow> 'g \<times> selectors" where
  "GDT G =
     (let (kc, g) = add_entry G kernel_code (gdt_new G);
          (kd, g) = add_entry G kernel_data g;
          (ud, g) = add_entry G user_data g;
          (uc, g) = add_entry G user_code g;
          (ts, g) = add_entry G tss_descriptor g
      in (g, \<lparr>kernel_code_segment = kc, kernel_data_segment = kd, user_data_segment = ud,
              user_code_segment = uc, tss_selector = ts\<rparr>))"

text \<open>The task state segment; the arguments are the addresses of the two stack arrays.\<close>

record task_state =
  interrupt_stack0 :: u64
  privilege_stack0 :: u64

definition TSS :: "u64 \<Rightarrow> u64 \<Rightarrow> task_state" where
  "TSS df_bottom p0_bottom = \<lparr>interrupt_stack0 = df_bottom + 4096 * 5, privilege_stack0 = p0_bottom + 4096 * 4\<rparr>"

text \<open>\<open>gdt::init\<close>: the segment registers it loads.\<close>

record segment_regs =
  CS :: u16
  SS :: u16
  DS :: u16
  ES :: u16
  TR :: u16

definition gdt_init :: "'g segments \<Rightarrow> segment_regs" where
  "gdt_init G =
     (let s = snd (GDT G) in
      \<lparr>CS = kernel_code_segment s, SS = kernel_data_segment s, DS = kernel_data_segment s,
       ES = kernel_data_segment s, TR = tss_selector s\<rparr>)"

text \<open>
  \<open>syscall::init\<close>: the registers of the \<open>syscall\<close> instruction, or the panic of \<open>expect\<close> when the
  selectors do not have the layout it needs. \<open>entry\<close> is the address of \<open>syscall_entry\<close>.
\<close>

record syscall_msrs =
  system_call_extensions :: bool
  star_sysret_cs :: u16
  star_sysret_ss :: u16
  star_syscall_cs :: u16
  star_syscall_ss :: u16
  lstar :: u64
  sfmask :: u64

definition syscall_init :: "'g segments \<Rightarrow> u64 \<Rightarrow> syscall_msrs outcome" where
  "syscall_init G entry =
     (let s = snd (GDT G) in
      if star_accepts G (user_code_segment s) (user_data_segment s) (kernel_code_segment s) (kernel_data_segment s)
      then Inr \<lparr>system_call_extensions = True, star_sysret_cs = user_code_segment s,
        star_sysret_ss = user_data_segment s, star_syscall_cs = kernel_code_segment s,
        star_syscall_ss = kernel_data_segment s, lstar = entry, sfmask = 0x200 OR 0x400\<rparr>
      else Inl ExpectErr)"

section \<open>Programming the chips\<close>

text \<open>
  The 8259A as its data sheet describes it, for the command words the driver uses: a write of
  \<open>0x11\<close> to the command port starts the initialisation, after which the data port takes the vector
  offset, the cascade word and the mode word, and then the mask.
\<close>

record pic =
  offset :: u8
  cascade :: u8
  mask_reg :: u8
  expects :: nat

definition pic_command :: "u8 \<Rightarrow> pic \<Rightarrow> pic" where
  "pic_command v p = (if v = 0x11 then p\<lparr>mask_reg := 0, expects := 3\<rparr> else p)"

definition pic_data :: "u8 \<Rightarrow> pic \<Rightarrow> pic" where
  "pic_data v p =
     (if expects p = 3 then p\<lparr>offset := v AND 0xF8, expects := 2\<rparr>
      else if expects p = 2 then p\<lparr>cascade := v, expects := 1\<rparr>
      else if expects p = 1 then p\<lparr>expects := 0\<rparr>
      else p\<lparr>mask_reg := v\<rparr>)"

fun pics_write :: "pic \<times> pic \<Rightarrow> port_write \<Rightarrow> pic \<times> pic" where
  "pics_write (m, s) (port, v) =
     (if port = 0x20 then (pic_command v m, s) else if port = 0x21 then (pic_data v m, s)
      else if port = 0xA0 then (m, pic_command v s) else if port = 0xA1 then (m, pic_data v s)
      else (m, s))"

text \<open>The interrupt vector that request line \<open>n\<close> of the pair raises, if it is not masked.\<close>

definition irq_vector :: "pic \<times> pic \<Rightarrow> nat \<Rightarrow> nat option" where
  "irq_vector ps n =
     (case ps of (m, s) \<Rightarrow>
        if n < 8 then if bit (mask_reg m) n then None else Some (unat (offset m) + n)
        else if bit (mask_reg m) 2 \<or> bit (mask_reg s) (n - 8) \<or> cascade m \<noteq> 4 \<or> cascade s \<noteq> 2 then None
        else Some (unat (offset s) + (n - 8)))"

lemma init_pic_effect:
  "foldl pics_write (m, s) init_pic =
     (\<lparr>offset = 0x20, cascade = 4, mask_reg = 0xFF, expects = 0\<rparr>, \<lparr>offset = 0x28, cascade = 2, mask_reg = 0xFF, expects = 0\<rparr>)"
  by (simp add: init_pic_def io_wait_def rock_consts pic_command_def pic_data_def)

lemma low_mask_bits: "n < 8 \<Longrightarrow> bit (0xFC :: u8) n \<longleftrightarrow> 2 \<le> n"
proof -
  assume "n < 8"
  then have "n = 0 \<or> n = 1 \<or> n = 2 \<or> n = 3 \<or> n = 4 \<or> n = 5 \<or> n = 6 \<or> n = 7" by linarith
  then show ?thesis by (elim disjE) (simp_all add: bit_numeral_rec)
qed

text \<open>
  (C31) Interrupt routing. Whatever state the two interrupt controllers are in, after
  \<open>interrupts::init\<close>, where the mask it reads is the one the controller then has, exactly the lines 0
  and 1 are enabled, and the vectors they raise are those of the timer and the keyboard handler in the
  interrupt table.
\<close>

theorem interrupts_routed:
  assumes "ps = foldl pics_write (m, s) (interrupts_init (mask_reg (fst (foldl pics_write (m, s) init_pic))))"
    "n < 16"
  shows "map_option IDT (irq_vector ps n) =
    (if n = 0 then Some (Some (timer_handler, None)) else if n = 1 then Some (Some (keyboard_handler, None)) else None)"
proof -
  have p: "ps = (\<lparr>offset = 0x20, cascade = 4, mask_reg = 0xFC, expects = 0\<rparr>,
      \<lparr>offset = 0x28, cascade = 2, mask_reg = 0xFF, expects = 0\<rparr>)"
    unfolding assms(1) interrupts_init_def foldl_append init_pic_effect
    by (simp add: pit_init_def rock_consts pic_data_def)
  have v: "irq_vector ps n = (if n < 2 then Some (32 + n) else None)"
    using low_mask_bits[of n] low_mask_bits[of 2] by (simp add: irq_vector_def p)
  have "IDT 32 = Some (timer_handler, None)" "IDT 33 = Some (keyboard_handler, None)"
    by (simp_all add: IDT_def PIC_1_OFFSET_def)
  then show ?thesis unfolding v by (auto simp: less_2_cases_iff)
qed

theorem interrupts_routed_witness:
  "\<exists>ps. ps = foldl pics_write (\<lparr>offset = 8, cascade = 0, mask_reg = 0, expects = 0\<rparr>, \<lparr>offset = 0x70, cascade = 0, mask_reg = 0, expects = 0\<rparr>)
        (interrupts_init 0xFF)
     \<and> map_option IDT (irq_vector ps 1) = Some (Some (keyboard_handler, None)) \<and> irq_vector ps 12 = None"
proof -
  let ?m = "\<lparr>offset = 8, cascade = 0, mask_reg = 0, expects = 0\<rparr>" and ?s = "\<lparr>offset = 0x70, cascade = 0, mask_reg = 0, expects = 0\<rparr>"
  have "mask_reg (fst (foldl pics_write (?m, ?s) init_pic)) = 0xFF" by (simp add: init_pic_effect)
  then show ?thesis using interrupts_routed[of _ ?m ?s 1] interrupts_routed[of _ ?m ?s 12] by simp
qed

text \<open>
  The 8254's channel 0 in the mode of the command word: two bytes, the low one first, make the count.
\<close>

definition pit_count :: "port_write list \<Rightarrow> nat option" where
  "pit_count ws =
     (case ws of [(c, w), (d1, lo), (d2, hi)] \<Rightarrow>
        if c = 0x43 \<and> w = 0x34 \<and> d1 = 0x40 \<and> d2 = 0x40 then
          let n = unat lo + 256 * unat hi in Some (if n = 0 then 65536 else n)
        else None
      | _ \<Rightarrow> None)"

lemma u16_bytes: "unat (ucast (d AND 0xFF :: u16) :: u8) + 256 * unat (ucast (drop_bit 8 d) :: u8) = unat d"
proof -
  have m: "d AND 0xFF = take_bit 8 d" by (simp add: take_bit_eq_mask mask_numeral)
  have lo: "unat (ucast (take_bit 8 d) :: u8) = unat d mod 256"
    by (simp add: unsigned_ucast_eq unsigned_take_bit_eq take_bit_eq_mod unat_mod_distrib)
  have "unat d < 2 ^ 16" using unsigned_less[of d] by simp
  then have hi: "unat (ucast (drop_bit 8 d) :: u8) = unat d div 256"
    by (simp add: unsigned_ucast_eq drop_bit_eq_div take_bit_eq_mod unat_div_distrib less_mult_imp_div_less)
  show ?thesis unfolding m lo hi by simp
qed

text \<open>
  (C34) The timer runs at the rate the sleeping calls count with: the driver's three writes load the
  divisor, for every divisor, and the default one makes the 1193182 Hz clock tick
  \<open>TIMER_HZ\<close> times a second to within one part in a thousand.
\<close>

theorem timer_rate:
  "pit_count (pit_init d) = Some (if d = 0 then 65536 else unat d)
   \<and> (let n = the (pit_count (pit_init DEFAULT_TIMER_DIVISOR)) in
      unat TIMER_HZ * n \<le> unat PIT_BASE_FREQUENCY_HZ
      \<and> 1000 * (unat PIT_BASE_FREQUENCY_HZ - unat TIMER_HZ * n) < unat PIT_BASE_FREQUENCY_HZ)"
proof -
  have c: "pit_count (pit_init d) = Some (if d = 0 then 65536 else unat d)" for d
    using u16_bytes[of d] by (simp add: pit_count_def pit_init_def rock_consts Let_def word_unat_eq_iff)
  have d: "unat DEFAULT_TIMER_DIVISOR = 11931" "DEFAULT_TIMER_DIVISOR \<noteq> 0"
    by (simp_all add: DEFAULT_TIMER_DIVISOR_def rock_consts)
  show ?thesis unfolding c using d by (simp add: rock_consts Let_def)
qed

section \<open>Segment selectors\<close>

text \<open>
  The documented behaviour of the crate: entry 0 is the null descriptor; each entry takes the next
  slot, the task state segment two; a selector is the slot times eight plus the privilege level of the
  entry. \<open>Star::write\<close> accepts selectors in the order \<open>sysret\<close> and \<open>syscall\<close> compute them in, with
  the privilege levels of user and kernel.
\<close>

fun dpl :: "descriptor \<Rightarrow> nat" where
  "dpl user_data = 3"
| "dpl user_code = 3"
| "dpl _ = 0"

definition gdt_laws :: "'g segments \<Rightarrow> ('g \<Rightarrow> nat) \<Rightarrow> bool" where
  "gdt_laws G used \<longleftrightarrow> used (gdt_new G) = 1
     \<and> (\<forall>d g. used g < 7 \<longrightarrow> unat (fst (add_entry G d g)) = 8 * used g + dpl d
          \<and> used (snd (add_entry G d g)) = used g + (if d = tss_descriptor then 2 else 1))"

definition star_law :: "'g segments \<Rightarrow> bool" where
  "star_law G \<longleftrightarrow> (\<forall>cs_ret ss_ret cs_call ss_call.
     unat cs_ret = unat ss_ret + 8 \<longrightarrow> unat ss_call = unat cs_call + 8 \<longrightarrow> unat ss_ret mod 4 = 3 \<longrightarrow>
     unat ss_call mod 4 = 0 \<longrightarrow> 8 \<le> unat ss_ret \<longrightarrow> star_accepts G cs_ret ss_ret cs_call ss_call)"

lemma GDT_selectors:
  assumes "gdt_laws G used"
  shows "unat (kernel_code_segment (snd (GDT G))) = 8" "unat (kernel_data_segment (snd (GDT G))) = 16"
    "unat (user_data_segment (snd (GDT G))) = 27" "unat (user_code_segment (snd (GDT G))) = 35"
    "unat (tss_selector (snd (GDT G))) = 40"
proof -
  obtain a g1 where 1: "add_entry G kernel_code (gdt_new G) = (a, g1)" by force
  obtain b g2 where 2: "add_entry G kernel_data g1 = (b, g2)" by force
  obtain c g3 where 3: "add_entry G user_data g2 = (c, g3)" by force
  obtain d g4 where 4: "add_entry G user_code g3 = (d, g4)" by force
  obtain e g5 where 5: "add_entry G tss_descriptor g4 = (e, g5)" by force
  have l: "used g < 7 \<Longrightarrow> add_entry G x g = (y, g') \<Longrightarrow>
      unat y = 8 * used g + dpl x \<and> used g' = used g + (if x = tss_descriptor then 2 else 1)" for x y g g'
    using assms unfolding gdt_laws_def by (metis fst_conv snd_conv)
  have u0: "used (gdt_new G) = 1" using assms by (simp add: gdt_laws_def)
  have u1: "unat a = 8" "used g1 = 2" using l[OF _ 1] u0 by simp_all
  have u2: "unat b = 16" "used g2 = 3" using l[OF _ 2] u1 by simp_all
  have u3: "unat c = 27" "used g3 = 4" using l[OF _ 3] u2 by simp_all
  have u4: "unat d = 35" "used g4 = 5" using l[OF _ 4] u3 by simp_all
  have u5: "unat e = 40" using l[OF _ 5] u4 by simp
  have s: "snd (GDT G) = \<lparr>kernel_code_segment = a, kernel_data_segment = b, user_data_segment = c,
      user_code_segment = d, tss_selector = e\<rparr>"
    by (simp add: GDT_def 1 2 3 4 5)
  show "unat (kernel_code_segment (snd (GDT G))) = 8" "unat (kernel_data_segment (snd (GDT G))) = 16"
    "unat (user_data_segment (snd (GDT G))) = 27" "unat (user_code_segment (snd (GDT G))) = 35"
    "unat (tss_selector (snd (GDT G))) = 40"
    using u1 u2 u3 u4 u5 by (simp_all add: s)
qed

text \<open>
  (C32) The segment table has the layout the \<open>syscall\<close> and \<open>sysret\<close> instructions need: the
  initialisation of the registers never panics, the segments for user mode have privilege level 3,
  those for the kernel level 0, and interrupts and the direction flag are off inside a system call.
\<close>

theorem syscall_init_accepted:
  assumes "gdt_laws G used" "star_law G"
  shows "\<exists>r. syscall_init G entry = Inr r \<and> system_call_extensions r \<and> lstar r = entry
    \<and> unat (star_sysret_cs r) mod 4 = 3 \<and> unat (star_sysret_ss r) mod 4 = 3
    \<and> unat (star_syscall_cs r) mod 4 = 0 \<and> star_syscall_cs r = CS (gdt_init G) \<and> star_syscall_ss r = SS (gdt_init G)
    \<and> bit (sfmask r) 9 \<and> bit (sfmask r) 10"
proof -
  note s = GDT_selectors[OF assms(1)]
  have "star_accepts G (user_code_segment (snd (GDT G))) (user_data_segment (snd (GDT G)))
      (kernel_code_segment (snd (GDT G))) (kernel_data_segment (snd (GDT G)))"
    using assms(2) s unfolding star_law_def by simp
  then show ?thesis using s by (simp add: syscall_init_def Let_def gdt_init_def bit_numeral_rec)
qed

text \<open>A table that is the number of its slots.\<close>

definition slot_segments :: "nat segments" where
  "slot_segments =
     \<lparr>gdt_new = 1, add_entry = (\<lambda>d g. (of_nat (8 * g + dpl d), g + (if d = tss_descriptor then 2 else 1))),
      star_accepts = (\<lambda>cs_ret ss_ret cs_call ss_call. unat cs_ret = unat ss_ret + 8 \<and> unat ss_call = unat cs_call + 8
        \<and> unat ss_ret mod 4 = 3 \<and> unat ss_call mod 4 = 0)\<rparr>"

theorem syscall_init_accepted_witness:
  "\<exists>r. syscall_init slot_segments 0xFFFF800000001000 = Inr r \<and> bit (sfmask r) 9 \<and> star_syscall_cs r = 8"
proof -
  have d: "dpl d \<le> 3" for d by (cases d) simp_all
  have g: "gdt_laws slot_segments (\<lambda>g. g)" unfolding gdt_laws_def slot_segments_def
  proof (simp, intro allI impI)
    fix d and g :: nat assume "g < 7"
    then have "8 * g + dpl d < 2 ^ 16" using d[of d] by simp
    then have "unat (of_nat (8 * g + dpl d) :: u16) = 8 * g + dpl d" by (simp add: unat_of_nat del: of_nat_add of_nat_mult)
    then show "unat (8 * word_of_nat g + word_of_nat (dpl d) :: u16) = 8 * g + dpl d" by simp
  qed
  have "star_law slot_segments" by (simp add: star_law_def slot_segments_def)
  from syscall_init_accepted[OF g this, of "0xFFFF800000001000"]
  show ?thesis by (auto simp: gdt_init_def GDT_def slot_segments_def)
qed

end
