(* ===== verification/Rock_Console.thy ===== *)
theory Rock_Console
  imports Rock_Kernel
begin

text \<open>
  The console of the running kernel: the number formats of \<open>core::fmt\<close> that the sources use, and
  \<open>print!\<close> and \<open>println!\<close> (\<open>src/vga.rs\<close>) on the kernel's writer and serial line. The wait for
  the serial line is that of \<open>Rock_Serial\<close>; here the line is ready whenever a byte is sent.
\<close>

section \<open>Number formats\<close>

definition fmt_digit :: "nat \<Rightarrow> u8" where
  "fmt_digit d = of_nat (if d < 10 then 0x30 + d else 0x57 + d)"

function radix :: "nat \<Rightarrow> nat \<Rightarrow> u8 list" where
  "radix b n = (if b < 2 \<or> n < b then [fmt_digit n] else radix b (n div b) @ [fmt_digit (n mod b)])"
  by auto
termination by (relation "measure snd") (auto simp: div_less_dividend)

declare radix.simps [simp del]

text \<open>The formats \<open>{}\<close> of an unsigned and of a signed number, \<open>{:#x}\<close> and \<open>{:02x}\<close>.\<close>

definition fmt_dec :: "nat \<Rightarrow> u8 list" where
  "fmt_dec n = radix 10 n"

definition fmt_int :: "int \<Rightarrow> u8 list" where
  "fmt_int i = (if i < 0 then [0x2D] else []) @ fmt_dec (nat \<bar>i\<bar>)"

definition fmt_hex :: "nat \<Rightarrow> u8 list" where
  "fmt_hex n = bytes_of ''0x'' @ radix 16 n"

definition fmt_02x :: "nat \<Rightarrow> u8 list" where
  "fmt_02x n = (let ds = radix 16 n in replicate (2 - length ds) 0x30 @ ds)"

lemma HEX_digit: "d < 16 \<Longrightarrow> HEX ! d = fmt_digit d"
proof -
  assume "d < 16"
  then have "d \<in> set [0..<16]" by simp
  moreover have "\<forall>d \<in> set [0..<16]. HEX ! d = fmt_digit d"
    by (simp add: upt_rec HEX_def fmt_digit_def)
  ultimately show ?thesis by blast
qed

lemma hex_loop_radix:
  assumes "unat v < 16 ^ k" "length buf + k = 16" "v \<noteq> 0"
  shows "hex_loop v buf = buf @ rev (radix 16 (unat v))"
  using assms
proof (induction k arbitrary: v buf)
  case 0
  then show ?case by (simp add: unat_eq_0)
next
  case (Suc k)
  let ?d = "unat v mod 16"
  have step: "hex_loop v buf = hex_loop (drop_bit 4 v) (buf @ [fmt_digit ?d])"
    using Suc.prems by (subst hex_loop.simps) (simp add: unat_low_nibble HEX_digit)
  show ?case
  proof (cases "drop_bit 4 v = 0")
    case True
    then have "unat v < 16" using unat_drop_nibble[of v] by (simp add: div_eq_0_iff)
    moreover have "hex_loop 0 b = b" for b by (subst hex_loop.simps) simp
    ultimately show ?thesis using True step by (simp add: radix.simps[of 16 "unat v"])
  next
    case False
    then have "\<not> unat v < 16" using unat_drop_nibble[of v] by (auto simp: unat_eq_0)
    moreover have "unat (drop_bit 4 v) < 16 ^ k" using Suc.prems(1)
      by (simp add: unat_drop_nibble less_mult_imp_div_less mult.commute)
    ultimately show ?thesis using Suc.IH[of "drop_bit 4 v" "buf @ [fmt_digit ?d]"] Suc.prems(2) False step
      by (simp add: radix.simps[of 16 "unat v"] unat_drop_nibble)
  qed
qed

text \<open>
  (C33) The hand-written hexadecimal printer of the fault handlers prints every number as the
  formatter of the core library does with \<open>{:#x}\<close>.
\<close>

theorem debug_hex_matches_fmt:
  "debug_hex_u64 n = fmt_hex (unat n)"
proof (cases "n = 0")
  case True
  then show ?thesis by (simp add: debug_hex_u64_def fmt_hex_def bytes_of_def radix.simps fmt_digit_def)
next
  case False
  have "hex_loop n [] = rev (radix 16 (unat n))" using hex_loop_radix[of n 16 "[]"] u64_bound[of n] False by simp
  then show ?thesis using False by (simp add: debug_hex_u64_def fmt_hex_def bytes_of_def)
qed

section \<open>Printing\<close>

definition print_writer :: "u8 list \<Rightarrow> vga_writer option \<Rightarrow> vga_writer option outcome" where
  "print_writer bs w = (case w of None \<Rightarrow> Inr None | Some w \<Rightarrow> obind (vga_write_str bs w) (\<lambda>w. Inr (Some w)))"

definition print :: "u8 list \<Rightarrow> 'pt kernel \<Rightarrow> 'pt kernel outcome" where
  "print bs k = obind (print_writer bs (WRITER k)) (\<lambda>w. Inr (k\<lparr>WRITER := w, SERIAL1 := SERIAL1 k @ bs\<rparr>))"

definition println :: "u8 list \<Rightarrow> 'pt kernel \<Rightarrow> 'pt kernel outcome" where
  "println bs k =
     obind (print_writer bs (WRITER k)) (\<lambda>w. obind (print_writer [0x0A] w) (\<lambda>w.
       Inr (k\<lparr>WRITER := w, SERIAL1 := SERIAL1 k @ bs @ [0x0D, 0x0A]\<rparr>)))"

text \<open>This is what \<open>_print\<close> and \<open>_println\<close> do whenever the serial line lets them return.\<close>

lemma write_bytes_out: "write_bytes bs (out, ss) = Some (out', rest) \<Longrightarrow> out' = out @ bs"
  using write_bytes_spec[of bs ss out] by (auto split: if_splits)

lemma print_is_vga_print:
  assumes "vga_print bs (WRITER k, SERIAL1 k, ss) = Inr (Some (w, out, rest))"
  shows "print bs k = Inr (k\<lparr>WRITER := w, SERIAL1 := out\<rparr>)"
proof -
  obtain w1 where w1: "print_writer bs (WRITER k) = Inr w1" "map_option (Pair w1) (write_bytes bs (SERIAL1 k, ss)) = Some (w, out, rest)"
    using assms by (auto simp: vga_print_def print_writer_def dest!: obind_eq_InrD)
  then have "w = w1" "write_bytes bs (SERIAL1 k, ss) = Some (out, rest)" by auto
  moreover from this(2) have "out = SERIAL1 k @ bs" by (rule write_bytes_out)
  ultimately show ?thesis using w1(1) by (simp add: print_def)
qed

definition writer_ok :: "vga_writer option \<Rightarrow> bool" where
  "writer_ok w \<longleftrightarrow> (\<forall>v. w = Some v \<longrightarrow> vga_ok v)"

lemma print_writer_ok:
  assumes "writer_ok w"
  shows "\<exists>w'. print_writer bs w = Inr w' \<and> writer_ok w'"
proof (cases w)
  case None
  then show ?thesis by (simp add: print_writer_def writer_ok_def)
next
  case (Some v)
  then obtain v' where "vga_write_str bs v = Inr v'" "vga_ok v'"
    using vga_write_str_ok[of v bs] assms by (auto simp: writer_ok_def)
  with Some show ?thesis by (simp add: print_writer_def writer_ok_def)
qed

lemma print_ok:
  assumes "writer_ok (WRITER k)"
  shows "\<exists>w s. print bs k = Inr (k\<lparr>WRITER := w, SERIAL1 := s\<rparr>) \<and> writer_ok w"
proof -
  obtain w where "print_writer bs (WRITER k) = Inr w" "writer_ok w" using print_writer_ok[OF assms] by blast
  then show ?thesis by (intro exI[of _ w] exI[of _ "SERIAL1 k @ bs"]) (simp add: print_def)
qed

lemma println_ok:
  assumes "writer_ok (WRITER k)"
  shows "\<exists>w s. println bs k = Inr (k\<lparr>WRITER := w, SERIAL1 := s\<rparr>) \<and> writer_ok w"
proof -
  obtain w1 where "print_writer bs (WRITER k) = Inr w1" "writer_ok w1" using print_writer_ok[OF assms] by blast
  moreover from this(2) obtain w where "print_writer [0x0A] w1 = Inr w" "writer_ok w" using print_writer_ok by blast
  ultimately show ?thesis by (intro exI[of _ w] exI[of _ "SERIAL1 k @ bs @ [0x0D, 0x0A]"]) (simp add: println_def)
qed

lemma print_only: "print bs k = Inr k' \<Longrightarrow> \<exists>w s. k' = k\<lparr>WRITER := w, SERIAL1 := s\<rparr>"
  by (auto simp: print_def dest!: obind_eq_InrD)

lemma println_only: "println bs k = Inr k' \<Longrightarrow> \<exists>w s. k' = k\<lparr>WRITER := w, SERIAL1 := s\<rparr>"
  by (auto simp: println_def dest!: obind_eq_InrD)

end
