(* ===== verification/Rock_Syscall.thy ===== *)
theory Rock_Syscall
  imports Rock_Exec Rock_Fork Rock_Devices Rock_Console "HOL-Library.Signed_Division"
begin

text \<open>
  The system call layer (\<open>src/syscall.rs\<close>): the handlers it has of its own, the dispatcher, and the
  whole path of a call from the \<open>syscall\<close> instruction to the return to user mode.
\<close>

section \<open>Constants\<close>

definition ENOSYS :: u64 where "ENOSYS = errno 38"

definition SYS_READ :: u64 where [rock_consts]: "SYS_READ = 0"
definition SYS_WRITE :: u64 where [rock_consts]: "SYS_WRITE = 1"
definition SYS_OPEN :: u64 where [rock_consts]: "SYS_OPEN = 2"
definition SYS_CLOSE :: u64 where [rock_consts]: "SYS_CLOSE = 3"
definition SYS_SCHED_YIELD :: u64 where [rock_consts]: "SYS_SCHED_YIELD = 24"
definition SYS_NANOSLEEP :: u64 where [rock_consts]: "SYS_NANOSLEEP = 35"
definition SYS_BRK :: u64 where [rock_consts]: "SYS_BRK = 12"
definition SYS_MMAP :: u64 where [rock_consts]: "SYS_MMAP = 9"
definition SYS_MUNMAP :: u64 where [rock_consts]: "SYS_MUNMAP = 11"
definition SYS_FORK :: u64 where [rock_consts]: "SYS_FORK = 57"
definition SYS_EXECVE :: u64 where [rock_consts]: "SYS_EXECVE = 59"
definition SYS_EXIT :: u64 where [rock_consts]: "SYS_EXIT = 60"
definition SYS_WAIT4 :: u64 where [rock_consts]: "SYS_WAIT4 = 61"
definition SYS_GETPID :: u64 where [rock_consts]: "SYS_GETPID = 39"
definition SYS_GETPPID :: u64 where [rock_consts]: "SYS_GETPPID = 110"

section \<open>Handlers\<close>

text \<open>
  \<open>sys_wait4\<close>: the child is reaped before the address for its status is checked. The store of the
  status panics at an address that is not aligned.
\<close>

definition sys_wait4 :: "'pt x86 \<Rightarrow> u64 \<Rightarrow> u64 \<Rightarrow> 'pt kernel \<Rightarrow> (u64 \<times> 'pt kernel) outcome" where
  "sys_wait4 X target wstatus k =
     obind (wait_reap target k) (\<lambda>(r, k). case r of
         None \<Rightarrow> Inr (errno 11, k)
       | Some (child, st) \<Rightarrow>
           if wstatus \<noteq> 0 then
             obind (user_region_is_writable_range k wstatus 4) (\<lambda>okk.
               if \<not> okk then Inr (errno 14, k)
               else if unat wstatus mod 4 \<noteq> 0 then Inl Misaligned
               else obind (write_user X wstatus (to_le_bytes 4 (unat st)) k) (\<lambda>k. Inr (child, k)))
           else Inr (child, k))"

text \<open>\<open>i64\<close> arithmetic: saturation, and the range outside of which \<open>*\<close> panics.\<close>

definition sat_i64 :: "int \<Rightarrow> int" where
  "sat_i64 x = max (- (2 ^ 63)) (min (2 ^ 63 - 1) x)"

definition fits_i64 :: "int \<Rightarrow> bool" where
  "fits_i64 x \<longleftrightarrow> - (2 ^ 63) \<le> x \<and> x < 2 ^ 63"

text \<open>\<open>i64::from_le_bytes\<close>\<close>

definition i64_from_le_bytes :: "u8 list \<Rightarrow> int" where
  "i64_from_le_bytes bs = sint (of_nat (from_le_bytes bs) :: u64)"

text \<open>The ticks a request asks for; \<open>None\<close> is the overflow of \<open>nsec * hz\<close>.\<close>

definition sleep_ticks :: "int \<Rightarrow> int \<Rightarrow> u64 option" where
  "sleep_ticks sec nsec =
     (let t = sat_i64 (sec * uint TIMER_HZ) in
      if \<not> fits_i64 (nsec * uint TIMER_HZ) then None
      else let t = sat_i64 (t + (nsec * uint TIMER_HZ) sdiv 1000000000) in Some (of_int (max t 1)))"

definition sys_nanosleep ::
  "'pt x86 \<Rightarrow> u64 \<Rightarrow> irq list \<Rightarrow> 'pt kernel \<Rightarrow> (u64 \<times> 'pt kernel \<times> irq list) option outcome" where
  "sys_nanosleep X req irqs k =
     (if req = 0 then Inr (Some (errno 14, k, irqs))
      else obind (user_region_is_readable_range k req 16) (\<lambda>okk.
        if \<not> okk then Inr (Some (errno 14, k, irqs))
        else obind (read_user X k req 8) (\<lambda>sec.
          if \<not> add_ok req 8 then Inl Overflow
          else obind (read_user X k (req + 8) 8) (\<lambda>nsec.
            case sleep_ticks (i64_from_le_bytes sec) (i64_from_le_bytes nsec) of None \<Rightarrow> Inl Overflow
            | Some t \<Rightarrow> obind (sleep_until_ticks (saturating_add (ticks k) t) irqs k) (\<lambda>r.
                Inr (case r of None \<Rightarrow> None | Some (k, rest) \<Rightarrow> Some (0, k, rest)))))))"

text \<open>
  \<open>sys_write\<close> hands the user's bytes to the file layer as a slice; they are read only where the
  descriptor takes them.
\<close>

definition sys_write :: "'pt x86 \<Rightarrow> u64 \<Rightarrow> u64 \<Rightarrow> u64 \<Rightarrow> 'pt kernel \<Rightarrow> (u64 \<times> 'pt kernel) outcome" where
  "sys_write X fd buf_addr len k =
     (if len > 8192 then Inr (errno 28, k)
      else obind (user_region_is_readable_range k buf_addr (unat len)) (\<lambda>okk.
        if \<not> okk then Inr (errno 14, k)
        else if fd = 1 \<or> fd = 2 \<or> fd > 2 \<and> file_get k fd \<noteq> None then
          obind (read_user X k buf_addr (unat len)) (\<lambda>bs. Inr (write_fd_any fd bs k))
        else Inr (write_fd_any fd [] k)))"

definition exit_and_schedule :: "u64 \<Rightarrow> u32 \<Rightarrow> irq list \<Rightarrow> 'pt kernel \<Rightarrow> ('pt kernel \<times> irq list) option outcome" where
  "exit_and_schedule ret_to code irqs k =
     obind (println (bytes_of ''[syscall] exit('' @ fmt_int (sint code) @ bytes_of '')'') (mark_exited code k))
       (schedule_after_exit ret_to irqs)"

section \<open>Dispatch\<close>

text \<open>
  What the calls depend on besides the state: the address of \<open>syscall_user_return\<close>, the stack pointer
  inside \<open>sys_fork\<close>, the address of a new box, and the bytes of \<open>assets/init.elf\<close>.
\<close>

record call_env =
  env_return :: u64
  env_fork_rsp :: u64
  env_box :: u64
  env_init_elf :: "u8 list"

text \<open>
  A dispatched call returns a value, or (\<open>exit\<close>) has already resumed another task, or is still waiting
  when the interrupts are used up.
\<close>

datatype 'pt dispatched = Returned u64 "'pt kernel" "irq list" | Switched "'pt kernel" "irq list" | Blocked

definition returned :: "irq list \<Rightarrow> (u64 \<times> 'pt kernel) outcome \<Rightarrow> 'pt dispatched outcome" where
  "returned irqs r = obind r (\<lambda>(v, k). Inr (Returned v k irqs))"

definition waited :: "(u64 \<times> 'pt kernel \<times> irq list) option outcome \<Rightarrow> 'pt dispatched outcome" where
  "waited r = obind r (\<lambda>x. Inr (case x of None \<Rightarrow> Blocked | Some (v, k, irqs) \<Rightarrow> Returned v k irqs))"

definition switched :: "('pt kernel \<times> irq list) option outcome \<Rightarrow> 'pt dispatched outcome" where
  "switched r = obind r (\<lambda>x. Inr (case x of None \<Rightarrow> Blocked | Some (k, irqs) \<Rightarrow> Switched k irqs))"

definition syscall_dispatch ::
  "'pt x86 \<Rightarrow> call_env \<Rightarrow> u64 \<Rightarrow> u64 \<Rightarrow> u64 \<Rightarrow> u64 \<Rightarrow> irq list \<Rightarrow> 'pt kernel \<Rightarrow> 'pt dispatched outcome" where
  "syscall_dispatch X E n arg0 arg1 arg2 irqs k =
     (if n = SYS_READ then waited (fs_read X arg0 arg1 arg2 irqs k)
      else if n = SYS_WRITE then returned irqs (sys_write X arg0 arg1 arg2 k)
      else if n = SYS_OPEN then returned irqs (sys_open X arg0 arg1 k)
      else if n = SYS_CLOSE then returned irqs (Inr (sys_close arg0 k))
      else if n = SYS_BRK then returned irqs (sys_brk X arg0 k)
      else if n = SYS_MMAP then returned irqs (sys_mmap X arg0 arg1 arg2 k)
      else if n = SYS_MUNMAP then returned irqs (sys_munmap X arg0 arg1 k)
      else if n = SYS_FORK then returned irqs (sys_fork X (env_fork_rsp E) (env_box E) k)
      else if n = SYS_EXECVE then returned irqs (sys_execve X (env_init_elf E) arg0 arg1 arg2 k)
      else if n = SYS_SCHED_YIELD then returned irqs (Inr (0, note_yield k))
      else if n = SYS_NANOSLEEP then waited (sys_nanosleep X arg0 irqs k)
      else if n = SYS_WAIT4 then returned irqs (sys_wait4 X arg0 arg1 k)
      else if n = SYS_GETPID then returned irqs (obind (current_pid k) (\<lambda>p. Inr (p, k)))
      else if n = SYS_GETPPID then
        returned irqs (obind (current_ppid k) (\<lambda>p. Inr (case p of None \<Rightarrow> 0 | Some p \<Rightarrow> p, k)))
      else if n = SYS_EXIT then switched (exit_and_schedule (env_return E) (ucast arg0) irqs k)
      else returned irqs (Inr (ENOSYS, k)))"

definition syscall_tail :: "u64 \<Rightarrow> u64 \<Rightarrow> u64 \<Rightarrow> irq list \<Rightarrow> 'pt kernel \<Rightarrow> ('pt kernel \<times> irq list) option outcome" where
  "syscall_tail ret_to ret_val dispatch_rsp irqs k = complete_syscall_and_schedule ret_to ret_val dispatch_rsp irqs k"

text \<open>The whole path; the result is the kernel when the next task is back in user mode.\<close>

definition handle_syscall ::
  "'pt x86 \<Rightarrow> call_env \<Rightarrow> irq list \<Rightarrow> 'pt kernel \<Rightarrow> ('pt kernel \<times> irq list) option outcome" where
  "handle_syscall X E irqs k =
     (let m = syscall_entry (cpu k); k = k\<lparr>cpu := m\<rparr> in
      case dispatch_args m of (n, arg0, arg1, arg2) \<Rightarrow>
        obind (syscall_dispatch X E n arg0 arg1 arg2 irqs k) (\<lambda>d. case d of
            Returned v k irqs \<Rightarrow> syscall_tail (env_return E) v (rsp m) irqs k
          | Switched k irqs \<Rightarrow> Inr (Some (k, irqs))
          | Blocked \<Rightarrow> Inr None))"

section \<open>Sleeping\<close>

lemma readable_add_ok:
  assumes "user_region_is_readable_range k req 16 = Inr True"
  shows "add_ok req 8"
proof -
  have "add_ok req 16" using assms by (auto simp: user_region_is_readable_range_def checked_add_def split: if_splits)
  then show ?thesis by (simp add: add_ok_def)
qed

lemma sleep_ticks_eq:
  assumes "0 \<le> sec" "sec < 2 ^ 50" "0 \<le> nsec" "nsec < 1000000000"
  shows "\<exists>t. sleep_ticks sec nsec = Some t \<and> unat t = nat (max 1 (sec * 100 + nsec div 10000000))"
proof -
  have hz: "uint TIMER_HZ = 100" by (simp add: TIMER_HZ_def)
  have "(nsec * 100) sdiv 1000000000 = nsec * 100 div 1000000000" using assms(3) by (simp add: signed_divide_int_def sgn_if)
  also have "\<dots> = nsec div 10000000" by simp
  finally have q: "(nsec * 100) sdiv 1000000000 = nsec div 10000000" .
  have d: "0 \<le> nsec div 10000000" "nsec div 10000000 \<le> nsec" using assms(3) by simp_all
  have f: "fits_i64 (nsec * 100)" using assms(3,4) by (simp add: fits_i64_def)
  let ?n = "max 1 (sec * 100 + nsec div 10000000)"
  have s: "sat_i64 (sec * 100) = sec * 100" "sat_i64 (sec * 100 + nsec div 10000000) = sec * 100 + nsec div 10000000"
    using assms d by (simp_all add: sat_i64_def)
  have "sleep_ticks sec nsec = Some (of_int ?n)" using f s by (simp add: sleep_ticks_def Let_def hz q max.commute)
  moreover have "0 \<le> ?n" "?n < 2 ^ 64" using assms d by auto
  then have "unat (of_int ?n :: u64) = nat ?n" by (simp add: unat_eq_nat_uint uint_word_of_int_eq take_bit_int_eq_self)
  ultimately show ?thesis by blast
qed

text \<open>
  (C25) A sleep with a readable request of \<open>s\<close> seconds and \<open>ns\<close> nanoseconds terminates: it returns 0
  exactly when the timer has fired \<open>max 1 (100 * s + ns / 10\<^sup>7)\<close> times, one hundred ticks a second and at
  least one, whatever keyboard interrupts arrive meanwhile, and until then it is still waiting.
\<close>

theorem nanosleep_waits:
  assumes "req \<noteq> 0" "user_region_is_readable_range k req 16 = Inr True"
    "read_user X k req 8 = Inr sec" "read_user X k (req + 8) 8 = Inr nsec"
    "s = i64_from_le_bytes sec" "ns = i64_from_le_bytes nsec"
    "0 \<le> s" "s < 2 ^ 50" "0 \<le> ns" "ns < 1000000000"
    "d = nat (max 1 (s * 100 + ns div 10000000))"
    "unat (TICKS k) + d < 2 ^ 64" "unat (TICKS k) + timer_count irqs < 2 ^ 64 - 1"
  shows "if d \<le> timer_count irqs
    then \<exists>k' rest. sys_nanosleep X req irqs k = Inr (Some (0, k', rest)) \<and> unat (TICKS k') = unat (TICKS k) + d
    else sys_nanosleep X req irqs k = Inr None"
proof -
  obtain t where t: "sleep_ticks s ns = Some t" "unat t = d" using sleep_ticks_eq[OF assms(7-10)] assms(11) by blast
  let ?dl = "saturating_add (TICKS k) t"
  have dl: "unat ?dl = unat (TICKS k) + d" using assms(12) t(2) by (simp add: unat_saturating_add)
  have e: "sys_nanosleep X req irqs k = obind (sleep_until_ticks ?dl irqs k) (\<lambda>r.
      Inr (case r of None \<Rightarrow> None | Some (k, rest) \<Rightarrow> Some (0, k, rest)))"
    using assms(1-4) readable_add_ok[OF assms(2)] t(1) by (simp add: sys_nanosleep_def assms(5,6) ticks_def)
  have "max (TICKS k) ?dl = ?dl" using dl by (simp add: max_def word_le_nat_alt)
  then show ?thesis unfolding e using sleep_spec[OF assms(13), of ?dl] dl by (auto split: if_splits)
qed

lemma timer_count_replicate: "timer_count (replicate n Timer) = n"
  by (induction n) (simp_all add: timer_count_def)

lemma exec_demo_request:
  "read_user map_x86 exec_demo 0x401008 8 = Inr [115, 104, 0, 0, 0, 0, 0, 0]" "read_user map_x86 exec_demo 0x401010 8 = Inr [8, 16, 64, 0, 0, 0, 0, 0]"
  "user_region_is_readable_range exec_demo 0x401008 16 = Inr True" "TICKS exec_demo = 0"
  using exec_demo_read[of 8 8] exec_demo_read[of 16 8] exec_demo_readable[of 8 16]
  by (simp_all add: exec_page_def exec_demo_def vm_demo_def demo_kernel_def kernel_static_def)

theorem nanosleep_waits_witness:
  "\<exists>k' rest. sys_nanosleep map_x86 0x401008 (replicate 2673900 Timer) exec_demo = Inr (Some (0, k', rest)) \<and> unat (TICKS k') = 2673900"
proof -
  have i: "i64_from_le_bytes [115, 104, 0, 0, 0, 0, 0, 0] = 26739" "i64_from_le_bytes [8, 16, 64, 0, 0, 0, 0, 0] = 4198408"
    by (simp_all add: i64_from_le_bytes_def)
  have q: "read_user map_x86 exec_demo (0x401008 + 8) 8 = Inr [8, 16, 64, 0, 0, 0, 0, 0]" using exec_demo_request(2) by simp
  from nanosleep_waits[OF _ exec_demo_request(3,1) q i[symmetric], where irqs = "replicate 2673900 Timer" and d = 2673900]
  show ?thesis by (simp add: exec_demo_request(4) timer_count_replicate)
qed

text \<open>
  (C40) The conversion of the nanoseconds is not checked: a readable request whose second word times the
  timer rate does not fit 64 bits, which any program can pass, panics the kernel.
\<close>

theorem nanosleep_overflow_panics:
  assumes "req \<noteq> 0" "user_region_is_readable_range k req 16 = Inr True"
    "read_user X k req 8 = Inr sec" "read_user X k (req + 8) 8 = Inr nsec"
    "92233720368547759 \<le> i64_from_le_bytes nsec"
  shows "sys_nanosleep X req irqs k = Inl Overflow"
proof -
  have "\<not> fits_i64 (i64_from_le_bytes nsec * uint TIMER_HZ)" using assms(5) by (simp add: fits_i64_def TIMER_HZ_def)
  then show ?thesis using assms(1-4) readable_add_ok[OF assms(2)] by (simp add: sys_nanosleep_def sleep_ticks_def Let_def)
qed

theorem nanosleep_overflow_panics_witness:
  "sys_nanosleep map_x86 0x401003 [] exec_demo = Inl Overflow"
proof -
  have r: "read_user map_x86 exec_demo 0x401003 8 = Inr [105, 116, 0, 0, 0, 115, 104, 0]"
    "read_user map_x86 exec_demo (0x401003 + 8) 8 = Inr [0, 0, 0, 0, 0, 8, 16, 64]" "user_region_is_readable_range exec_demo 0x401003 16 = Inr True"
    using exec_demo_read[of 3 8] exec_demo_read[of 11 8] exec_demo_readable[of 3 16] by (simp_all add: exec_page_def)
  have "92233720368547759 \<le> i64_from_le_bytes [0, 0, 0, 0, 0, 8, 16, 64]" by (simp add: i64_from_le_bytes_def)
  from nanosleep_overflow_panics[OF _ r(3,1,2) this] show ?thesis by simp
qed

end
