(* ===== verification/Rock_Inv.thy ===== *)
theory Rock_Inv
  imports Rock_Syscall
begin

text \<open>
  The invariant of the whole kernel, and that every system call and every interrupt keeps it. It has
  four parts: the user pages and the frame allocator, the process table with the run queue, the
  cursors for descriptors and mappings together with the file table, and the input buffers. The
  cursors are bounded by the number of system calls made.
\<close>

section \<open>Results of guarded calls\<close>

text \<open>The shape of most handlers: a check with an error value, then the work.\<close>

lemma guarded_InrD: "obind r (\<lambda>c. if \<not> c then Inr a else f) = Inr z \<Longrightarrow> z = a \<or> f = Inr z"
  by (auto dest!: obind_eq_InrD split: if_splits)

lemma chain_InrD:
  "(if a then Inr x1 else if b then Inr x2 else if c then Inr x3 else if d then Inr x4 else if e then Inr x5 else Inr x6) = Inr z
  \<Longrightarrow> z = x1 \<or> z = x2 \<or> z = x3 \<or> z = x4 \<or> z = x5 \<or> z = x6"
  by (auto split: if_splits)

section \<open>The invariant\<close>

definition mem_inv :: "'pt x86 \<Rightarrow> 'pt kernel \<Rightarrow> bool" where
  "mem_inv X k \<longleftrightarrow> kvm_ok X k \<and> window_ok X k \<and> unat (USER_IMAGE_END k) \<le> 0x480000"

definition proc_inv :: "'pt kernel \<Rightarrow> bool" where
  "proc_inv k \<longleftrightarrow> (\<exists>t p. current_proc k t p \<and> exit_code p = None) \<and> sched_ok k"

definition cursor_inv :: "nat \<Rightarrow> 'pt kernel \<Rightarrow> bool" where
  "cursor_inv n k \<longleftrightarrow> fs_ok k \<and> unat (NEXT_FD k) \<le> 4 + n
     \<and> mmap_ready k \<and> unat (NEXT_MMAP k) \<le> 0x410000 + n * 0x70000"

definition io_inv :: "'pt kernel \<Rightarrow> bool" where
  "io_inv k \<longleftrightarrow> tty_ok (TTY k) \<and> queue_ok (SCANCODE_QUEUE k)"

definition kernel_ok :: "'pt x86 \<Rightarrow> nat \<Rightarrow> 'pt kernel \<Rightarrow> bool" where
  "kernel_ok X n k \<longleftrightarrow> mem_inv X k \<and> proc_inv k \<and> cursor_inv n k \<and> io_inv k"

text \<open>What each part depends on.\<close>

lemma mem_inv_cong:
  assumes "mem k' = mem k" "page_table k' = page_table k" "USER_IMAGE_END k' = USER_IMAGE_END k"
  shows "mem_inv X k' \<longleftrightarrow> mem_inv X k"
  using kvm_ok_cong[OF assms(1,2)] window_ok_cong[of k' k X] assms by (simp add: mem_inv_def)

lemma proc_inv_cong:
  assumes "TABLE k' = TABLE k" "CURRENT_SLOT k' = CURRENT_SLOT k" "SCHED k' = SCHED k"
  shows "proc_inv k' \<longleftrightarrow> proc_inv k"
  using alive_table[OF assms(1)] assms by (simp add: proc_inv_def current_proc_def sched_ok_def)

lemma cursor_inv_cong:
  assumes "FILES k' = FILES k" "NEXT_FD k' = NEXT_FD k" "NEXT_MMAP k' = NEXT_MMAP k"
  shows "cursor_inv n k' \<longleftrightarrow> cursor_inv n k"
  using fs_ok_cong[OF assms(1,2)] assms by (simp add: cursor_inv_def mmap_ready_def)

lemma io_inv_cong:
  "TTY k' = TTY k \<Longrightarrow> SCANCODE_QUEUE k' = SCANCODE_QUEUE k \<Longrightarrow> io_inv k' \<longleftrightarrow> io_inv k"
  by (simp add: io_inv_def)

lemma cursor_inv_Suc: "cursor_inv n k \<Longrightarrow> cursor_inv (Suc n) k"
  by (simp add: cursor_inv_def)

lemma kernel_ok_Suc: "kernel_ok X n k \<Longrightarrow> kernel_ok X (Suc n) k"
  by (simp add: kernel_ok_def cursor_inv_Suc)

lemma kernel_okD:
  assumes "kernel_ok X n k"
  shows "mem_inv X k" "proc_inv k" "cursor_inv n k" "io_inv k"
  using assms by (simp_all add: kernel_ok_def)

lemma kernel_ok_current:
  assumes "kernel_ok X n k"
  obtains t p where "current_proc k t p" "exit_code p = None" "kvm_ok X k" "window_ok X k"
  using assms by (auto simp: kernel_ok_def proc_inv_def mem_inv_def)

text \<open>Changes that no part depends on.\<close>

lemma kernel_ok_ram [simp]: "kernel_ok X n (k\<lparr>ram := m\<rparr>) \<longleftrightarrow> kernel_ok X n k"
  unfolding kernel_ok_def
  by (intro arg_cong2[where f = "(\<and>)"] mem_inv_cong proc_inv_cong cursor_inv_cong io_inv_cong) simp_all

lemma kernel_ok_cpu [simp]: "kernel_ok X n (k\<lparr>cpu := m\<rparr>) \<longleftrightarrow> kernel_ok X n k"
  unfolding kernel_ok_def
  by (intro arg_cong2[where f = "(\<and>)"] mem_inv_cong proc_inv_cong cursor_inv_cong io_inv_cong) simp_all

lemma kernel_ok_resched [simp]: "kernel_ok X n (k\<lparr>NEED_RESCHED := b\<rparr>) \<longleftrightarrow> kernel_ok X n k"
  unfolding kernel_ok_def
  by (intro arg_cong2[where f = "(\<and>)"] mem_inv_cong proc_inv_cong cursor_inv_cong io_inv_cong) simp_all

lemma kernel_ok_ticks [simp]: "kernel_ok X n (k\<lparr>TICKS := b\<rparr>) \<longleftrightarrow> kernel_ok X n k"
  unfolding kernel_ok_def
  by (intro arg_cong2[where f = "(\<and>)"] mem_inv_cong proc_inv_cong cursor_inv_cong io_inv_cong) simp_all

lemma kernel_ok_misc [simp]:
  "kernel_ok X n (k\<lparr>STDIN_NONBLOCK := b\<rparr>) \<longleftrightarrow> kernel_ok X n k"
  "kernel_ok X n (k\<lparr>SERIAL1 := s\<rparr>) \<longleftrightarrow> kernel_ok X n k"
  "kernel_ok X n (k\<lparr>WRITER := w\<rparr>) \<longleftrightarrow> kernel_ok X n k"
  "kernel_ok X n (k\<lparr>USER_ENTRY_RIP := e\<rparr>) \<longleftrightarrow> kernel_ok X n k"
  "kernel_ok X n (k\<lparr>USER_RW_IMAGE_START := e\<rparr>) \<longleftrightarrow> kernel_ok X n k"
  "kernel_ok X n (k\<lparr>VM_AREA_NEXT_ID := e\<rparr>) \<longleftrightarrow> kernel_ok X n k"
  unfolding kernel_ok_def
  by (intro arg_cong2[where f = "(\<and>)"] mem_inv_cong proc_inv_cong cursor_inv_cong io_inv_cong; simp)+

section \<open>Edits of processes and pages\<close>

text \<open>An edit of the current process that keeps its id and its state.\<close>

definition tame :: "'pt kernel \<Rightarrow> (process \<Rightarrow> process) \<Rightarrow> bool" where
  "tame k f \<longleftrightarrow> (\<forall>t p. current_proc k t p \<longrightarrow> proc_ok (f p) \<and> pid (f p) = pid p \<and> exit_code (f p) = exit_code p)"

lemma proc_inv_update:
  assumes "proc_inv k" "tame k f"
  shows "proc_inv (update_slot (CURRENT_SLOT k) f k)"
proof -
  obtain t p where c: "current_proc k t p" "exit_code p = None" "sched_ok k" using assms(1) by (auto simp: proc_inv_def)
  have f: "proc_ok (f p)" "pid (f p) = pid p" "exit_code (f p) = exit_code p" using assms(2) c(1) by (auto simp: tame_def)
  note u = current_proc_update[of k t p f, OF c(1) f(1,2)] and d = current_procD[OF c(1)]
  have a: "slot_is_alive_runnable (update_slot (CURRENT_SLOT k) f k) = slot_is_alive_runnable k"
    using d f(3) by (auto simp: fun_eq_iff slot_is_alive_runnable_def proc_of_slot_def update_slot_def get_slot_update)
  have "SCHED (update_slot (CURRENT_SLOT k) f k) = SCHED k" by (simp add: update_slot_def split: option.splits)
  then have "sched_ok (update_slot (CURRENT_SLOT k) f k)" using c(3) a by (simp add: sched_ok_def)
  then show ?thesis using u c(2) f(3) by (auto simp: proc_inv_def)
qed

lemma update_slot_other [simp]:
  "USER_IMAGE_END (update_slot i f k) = USER_IMAGE_END k" "FILES (update_slot i f k) = FILES k"
  "NEXT_FD (update_slot i f k) = NEXT_FD k" "NEXT_MMAP (update_slot i f k) = NEXT_MMAP k"
  "TTY (update_slot i f k) = TTY k" "SCANCODE_QUEUE (update_slot i f k) = SCANCODE_QUEUE k"
  "SCHED (update_slot i f k) = SCHED k" "cpu (update_slot i f k) = cpu k" "NEED_RESCHED (update_slot i f k) = NEED_RESCHED k"
  by (simp_all add: update_slot_def split: option.splits)

lemma kernel_ok_update:
  assumes "kernel_ok X n k" "tame k f"
  shows "kernel_ok X n (update_slot (CURRENT_SLOT k) f k)"
  using proc_inv_update[OF kernel_okD(2)[OF assms(1)] assms(2)] kernel_okD[OF assms(1)]
    mem_inv_cong[of "update_slot (CURRENT_SLOT k) f k" k X] cursor_inv_cong[of "update_slot (CURRENT_SLOT k) f k" k n]
    io_inv_cong[of "update_slot (CURRENT_SLOT k) f k" k]
  by (simp add: kernel_ok_def)

lemma kernel_ok_mem_change:
  assumes "kernel_ok X n k" "mem_change k k'" "kvm_ok X k'"
  shows "kernel_ok X n k'"
  using assms mem_change_fields[OF assms(2)] proc_inv_cong[of k' k] cursor_inv_cong[of k' k n] io_inv_cong[of k' k]
  by (simp add: kernel_ok_def mem_inv_def)

lemma kernel_ok_set_kvm: "kernel_ok X n k \<Longrightarrow> vm_ok X s \<Longrightarrow> kernel_ok X n (set_kvm s k)"
  using kernel_ok_mem_change[OF _ mem_change_set_kvm] by (simp add: kvm_ok_set)

lemma tame_set_kvm [simp]: "tame (set_kvm s k) f \<longleftrightarrow> tame k f"
  by (simp add: tame_def)

text \<open>The result of a call on the memory of the current process.\<close>

lemma kernel_ok_vm_call:
  assumes "kernel_ok X n k" "vm_ok X s" "tame k f"
  shows "kernel_ok X n (update_slot (CURRENT_SLOT k) f (set_kvm s k))"
  using kernel_ok_update[OF kernel_ok_set_kvm[OF assms(1,2)], of f] assms(3) by simp

section \<open>Interrupts\<close>

lemma try_push_ok: "queue_ok q \<Longrightarrow> queue_ok (snd (try_push b q))"
  by (simp add: scancode_fifo.push_contents)

lemma kernel_ok_io:
  assumes "kernel_ok X n k" "tty_ok st" "queue_ok q"
  shows "kernel_ok X n (k\<lparr>SCANCODE_QUEUE := q, TTY := st\<rparr>)"
  using kernel_okD[OF assms(1)] assms(2,3) mem_inv_cong[of "k\<lparr>SCANCODE_QUEUE := q, TTY := st\<rparr>" k X]
    proc_inv_cong[of "k\<lparr>SCANCODE_QUEUE := q, TTY := st\<rparr>" k] cursor_inv_cong[of "k\<lparr>SCANCODE_QUEUE := q, TTY := st\<rparr>" k n]
  by (simp add: kernel_ok_def io_inv_def)

lemma kernel_ok_tty:
  assumes "kernel_ok X n k" "tty_ok st"
  shows "kernel_ok X n (k\<lparr>TTY := st\<rparr>)"
proof -
  have "k\<lparr>TTY := st\<rparr> = k\<lparr>SCANCODE_QUEUE := SCANCODE_QUEUE k, TTY := st\<rparr>" by simp
  then show ?thesis using kernel_ok_io[OF assms, of "SCANCODE_QUEUE k"] kernel_okD(4)[OF assms(1)] by (simp add: io_inv_def)
qed

lemma on_timer_tick_ok: "kernel_ok X n (on_timer_tick t k) \<longleftrightarrow> kernel_ok X n k"
  by (simp add: on_timer_tick_def split: option.splits)

lemma handle_irq_ok:
  assumes "kernel_ok X n k" "handle_irq i k = Inr k'"
  shows "kernel_ok X n k'"
proof (cases i)
  case Timer
  then show ?thesis using assms by (auto simp: timer_interrupt_handler_def Let_def on_timer_tick_ok split: if_splits)
next
  case (Keyboard st d)
  have o: "tty_ok (TTY k)" "queue_ok (SCANCODE_QUEUE k)" using kernel_okD(4)[OF assms(1)] by (simp_all add: io_inv_def)
  then show ?thesis using assms Keyboard kernel_ok_io[OF assms(1) feed_scancode_ok[OF o(1)] try_push_ok[OF o(2)]]
    by (auto simp: handle_keyboard_irq_def split: option.splits)
qed

lemma sleep_until_ticks_ok:
  assumes "kernel_ok X n k" "sleep_until_ticks deadline irqs k = Inr (Some (k', rest))"
  shows "kernel_ok X n k'"
  using assms
proof (induction irqs arbitrary: k)
  case (Cons i irqs)
  then show ?case using handle_irq_ok[OF Cons.prems(1), of i] by (auto split: if_splits dest!: obind_eq_InrD)
qed (auto split: if_splits)

section \<open>Files and the terminal\<close>

lemma write_user_ram: "write_user X v bs k = Inr k' \<Longrightarrow> \<exists>m. k' = k\<lparr>ram := m\<rparr>"
proof (induction bs arbitrary: v k)
  case Nil
  then show ?case by (intro exI[of _ "ram k"]) simp
next
  case (Cons b bs)
  then obtain k1 where k1: "store8 X v b k = Inr k1" "write_user X (v + 1) bs k1 = Inr k'" by (auto dest!: obind_eq_InrD)
  then obtain m where "k' = k1\<lparr>ram := m\<rparr>" using Cons.IH by blast
  then show ?case using k1(1) by (auto simp: store8_def split: option.splits)
qed

lemma write_user_ok: "kernel_ok X n k \<Longrightarrow> write_user Y v bs k = Inr k' \<Longrightarrow> kernel_ok X n k'"
  using write_user_ram by fastforce

lemma tty_read_user_ok:
  assumes "kernel_ok X n k" "tty_read_user Y buf len nb k = Inr (r, k')"
  shows "kernel_ok X n k'"
proof -
  obtain x st where t: "tty_read len nb (TTY k) = (x, st)" by force
  have "tty_ok st" using tty_read_ok[of "TTY k" len nb] kernel_okD(4)[OF assms(1)] t by (simp add: io_inv_def)
  from kernel_ok_tty[OF assms(1) this] show ?thesis using assms(2) t
    by (cases x) (auto simp: tty_read_user_def dest!: obind_eq_InrD intro: write_user_ok)
qed

lemma stdin_loop_ok:
  assumes "kernel_ok X n k" "stdin_loop Y buf len irqs k = Inr (Some (r, k', rest))"
  shows "kernel_ok X n k'"
  using assms
proof (induction irqs arbitrary: k)
  case Nil
  obtain x k1 where t: "tty_read_user Y buf len False k = Inr (x, k1)"
    using Nil.prems(2) unfolding stdin_loop.simps[of _ _ _ "[]"] by (auto dest!: obind_eq_InrD)
  then show ?case using Nil.prems(2) tty_read_user_ok[OF Nil.prems(1) t]
    unfolding stdin_loop.simps[of _ _ _ "[]"] by (auto split: sum.splits if_splits)
next
  case (Cons i irqs)
  obtain x k1 where t: "tty_read_user Y buf len False k = Inr (x, k1)"
    using Cons.prems(2) unfolding stdin_loop.simps[of _ _ _ "_ # _"] by (auto dest!: obind_eq_InrD)
  note ok1 = tty_read_user_ok[OF Cons.prems(1) t]
  show ?case using Cons.prems(2) t ok1 Cons.IH handle_irq_ok[OF ok1, of i]
    unfolding stdin_loop.simps[of _ _ _ "_ # _"] by (auto split: sum.splits if_splits dest!: obind_eq_InrD)
qed

lemma fs_read_ok:
  assumes "kernel_ok X n k" "fs_read Y fd buf len irqs k = Inr (Some (r, k', rest))"
  shows "kernel_ok X n k'"
proof (cases "fd = 0 \<and> \<not> len > 8192")
  case True
  then show ?thesis using assms stdin_loop_ok[OF assms(1)] tty_read_user_ok[OF assms(1)]
    unfolding fs_read_def by (auto split: if_splits sum.splits dest!: obind_eq_InrD)
next
  case False
  then show ?thesis using assms write_user_ok[OF assms(1)]
    unfolding fs_read_def by (auto simp: Let_def split: if_splits option.splits dest!: obind_eq_InrD)
qed

lemma kernel_ok_files:
  assumes "kernel_ok X n k" "fs_ok (k\<lparr>FILES := fs, NEXT_FD := fd\<rparr>)" "unat fd \<le> 4 + m" "n \<le> m"
  shows "kernel_ok X m (k\<lparr>FILES := fs, NEXT_FD := fd\<rparr>)"
  using assms kernel_okD[OF assms(1)] mem_inv_cong[of "k\<lparr>FILES := fs, NEXT_FD := fd\<rparr>" k X]
    proc_inv_cong[of "k\<lparr>FILES := fs, NEXT_FD := fd\<rparr>" k] io_inv_cong[of "k\<lparr>FILES := fs, NEXT_FD := fd\<rparr>" k]
  by (auto simp: kernel_ok_def cursor_inv_def mmap_ready_def)

lemma file_update_ok:
  assumes "kernel_ok X n k"
  shows "file_get k fd \<noteq> None \<Longrightarrow> kernel_ok X n (file_insert fd d k)" "kernel_ok X n (file_remove fd k)"
proof -
  have c: "fs_ok k" "unat (NEXT_FD k) \<le> 4 + n" using kernel_okD(3)[OF assms] by (simp_all add: cursor_inv_def)
  have e: "file_insert fd d k = k\<lparr>FILES := FILES (file_insert fd d k), NEXT_FD := NEXT_FD k\<rparr>"
    "file_remove fd k = k\<lparr>FILES := FILES (file_remove fd k), NEXT_FD := NEXT_FD k\<rparr>"
    by (simp_all add: file_insert_def file_remove_def)
  have "fs_ok (file_remove fd k)" unfolding fs_ok_def
    using c(1) ram_files.get_del[of fd k] by (auto simp: fs_ok_def file_remove_def distinct_delete split: if_splits)
  then show "kernel_ok X n (file_remove fd k)" using kernel_ok_files[OF assms _ c(2) order_refl] e(2) by metis
  assume g: "file_get k fd \<noteq> None"
  have "fs_ok (file_insert fd d k)" unfolding fs_ok_def
    using c(1) g ram_files.get_put[of fd d k] by (auto simp: fs_ok_def file_insert_def distinct_update split: if_splits)
  then show "kernel_ok X n (file_insert fd d k)" using kernel_ok_files[OF assms _ c(2) order_refl] e(1) by metis
qed

lemma sys_write_ok:
  assumes "kernel_ok X n k" "sys_write Y fd buf len k = Inr (r, k')"
  shows "kernel_ok X n k'"
proof -
  consider "k' = k" | bs where "write_fd_any fd bs k = (r, k')"
    using assms(2) by (auto simp: sys_write_def split: if_splits dest!: obind_eq_InrD)
  then show ?thesis
    using assms(1) file_update_ok(1)[OF assms(1), of fd] by cases (auto simp: write_fd_any_def split: if_splits option.splits)
qed

lemma sys_close_ok: "kernel_ok X n k \<Longrightarrow> sys_close fd k = (r, k') \<Longrightarrow> kernel_ok X n k'"
  using file_update_ok(2) by (fastforce simp: sys_close_def split: if_splits)

lemma sys_open_cases:
  assumes "sys_open Y p fl k = Inr (r, k')"
  shows "open_file k = (r, k') \<or> k' = k \<or> k' = k\<lparr>STDIN_NONBLOCK := True\<rparr>"
  using guarded_InrD[OF assms[unfolded sys_open_def Let_def]]
  by - (erule disjE, simp, drule obind_eq_InrD, elim exE conjE, drule chain_InrD, auto simp: set_stdin_nonblock_def)

lemma sys_open_ok:
  assumes "kernel_ok X n k" "Suc n < 2 ^ 40" "sys_open Y p fl k = Inr (r, k')"
  shows "kernel_ok X (Suc n) k'"
proof -
  have c: "fs_ok k" "unat (NEXT_FD k) \<le> 4 + n" using kernel_okD(3)[OF assms(1)] by (simp_all add: cursor_inv_def)
  consider "open_file k = (r, k')" | "k' = k" | "k' = k\<lparr>STDIN_NONBLOCK := True\<rparr>"
    using sys_open_cases[OF assms(3)] by blast
  then show ?thesis
  proof cases
    case 1
    have b: "Suc (unat (NEXT_FD k)) < 2 ^ 64" using c(2) assms(2) by simp
    have e: "k' = k\<lparr>FILES := FILES k', NEXT_FD := NEXT_FD k + 1\<rparr>"
      using 1 by (auto simp: open_file_def file_insert_def Let_def)
    have "fs_ok k'" using open_file_spec[OF c(1) ticks_not_max[OF b] 1] by blast
    then have f: "fs_ok (k\<lparr>FILES := FILES k', NEXT_FD := NEXT_FD k + 1\<rparr>)" by (simp only: e[symmetric])
    have "unat (NEXT_FD k + 1) \<le> 4 + Suc n" unfolding unat_ticks_Suc[OF b] using c(2) by simp
    from kernel_ok_files[OF assms(1) f this] show ?thesis by (simp only: e[symmetric] le_SucI order_refl)
  qed (use kernel_ok_Suc[OF assms(1)] in simp_all)
qed

section \<open>Memory calls\<close>

lemma tame_brk: "USER_BRK_BASE \<le> b \<Longrightarrow> b \<le> USER_BRK_LIMIT \<Longrightarrow> tame k (\<lambda>p. p\<lparr>brk_end := b\<rparr>)"
  unfolding tame_def using current_procD(6) by (fastforce simp: proc_ok_def)

lemma sys_brk_ok:
  assumes "x86_laws X" "kernel_ok X n k" "sys_brk X addr k = Inr (r, k')"
  shows "kernel_ok X n k'"
proof -
  obtain t p where c: "current_proc k t p" "kvm_ok X k" by (rule kernel_ok_current[OF assms(2)])
  note b = proc_brk_bounds[OF c(1)] and d = current_procD[OF c(1)]
  show ?thesis
  proof (cases "addr = 0 \<or> addr < USER_BRK_BASE \<or> USER_BRK_LIMIT < addr \<or> addr = brk_end p")
    case True
    then have "k' = k" using assms(3) d by (auto simp: sys_brk_def slot_at_def Let_def split: if_splits)
    then show ?thesis using assms(2) by simp
  next
    case False
    then have r: "USER_BRK_BASE \<le> addr" "addr \<le> USER_BRK_LIMIT" "addr \<noteq> 0" "addr \<noteq> brk_end p"
      "\<not> addr < USER_BRK_BASE" "\<not> USER_BRK_LIMIT < addr" by auto
    obtain okk s' where s': "vm_ok X s'"
      "(if addr < brk_end p then map_brk_shrink X addr (brk_end p) k else map_brk_grow X (brk_end p) addr user_data_flags k)
         = Inr (okk, set_kvm s' k)"
    proof (cases "addr < brk_end p")
      case True
      then show ?thesis using map_brk_shrink_spec[OF assms(1) c(2) r(1) True] b that by (auto simp: unmapped_set_def)
    next
      case False
      then have g: "brk_end p < addr" using r(4) by simp
      then show ?thesis using map_brk_grow_spec[OF assms(1) c(2) _ g r(2), of user_data_flags] b False that by auto
    qed
    have "k' = set_kvm s' k \<or> k' = update_slot (CURRENT_SLOT k) (\<lambda>p. p\<lparr>brk_end := addr\<rparr>) (set_kvm s' k)"
      using assms(3) s'(2) d r by (cases "addr < brk_end p"; cases okk) (simp_all add: sys_brk_def slot_at_def Let_def)
    then show ?thesis using kernel_ok_set_kvm[OF assms(2) s'(1)] kernel_ok_vm_call[OF assms(2) s'(1) tame_brk[OF r(1,2)]] by auto
  qed
qed

lemma kernel_ok_next_mmap:
  assumes "kernel_ok X n k" "page_aligned x" "USER_MMAP_BASE \<le> x" "unat x \<le> 0x410000 + m * 0x70000" "n \<le> m"
  shows "kernel_ok X m (k\<lparr>NEXT_MMAP := x\<rparr>)"
  using assms kernel_okD[OF assms(1)] mem_inv_cong[of "k\<lparr>NEXT_MMAP := x\<rparr>" k X] proc_inv_cong[of "k\<lparr>NEXT_MMAP := x\<rparr>" k]
    io_inv_cong[of "k\<lparr>NEXT_MMAP := x\<rparr>" k] fs_ok_cong[of "k\<lparr>NEXT_MMAP := x\<rparr>" k]
  by (auto simp: kernel_ok_def cursor_inv_def mmap_ready_def)

lemma mmap_addr_ok:
  assumes "kernel_ok X n k" "Suc n < 2 ^ 40" "len \<noteq> 0" "unat len \<le> 0x70000" "mmap_addr addr len (pages_for len) k = (r, k')"
  shows "kernel_ok X (Suc n) k'"
proof (cases "addr = 0")
  case False
  then have "k' = k" using assms(5) by (auto simp: mmap_addr_def Let_def split: if_splits)
  then show ?thesis using kernel_ok_Suc[OF assms(1)] by simp
next
  case True
  note pf = pages_for_bounds[OF assms(3,4)]
  let ?b = "of_nat (pages_for len) * 0x1000 :: u64"
  have e: "k' = k\<lparr>NEXT_MMAP := NEXT_MMAP k + ?b\<rparr>" using assms(5) True by (auto simp: mmap_addr_def Let_def split: if_splits)
  have c: "page_aligned (NEXT_MMAP k)" "USER_MMAP_BASE \<le> NEXT_MMAP k" "unat (NEXT_MMAP k) \<le> 0x410000 + n * 0x70000"
    using kernel_okD(3)[OF assms(1)] by (simp_all add: cursor_inv_def mmap_ready_def)
  have "?b = of_nat (pages_for len * 4096)" by simp
  then have b: "unat ?b = pages_for len * 4096" using pf(2) unat_of_nat_u64[of "pages_for len * 4096"] by simp
  have "unat (NEXT_MMAP k) + unat ?b \<le> 0x410000 + Suc n * 0x70000" using c(3) pf(2) b by simp
  moreover have "0x410000 + Suc n * 0x70000 < 2 ^ 64" using assms(2) by simp
  ultimately have ok: "add_ok (NEXT_MMAP k) ?b" unfolding add_ok_def by linarith
  note u = unat_add_ok[OF ok]
  have "page_aligned (NEXT_MMAP k + ?b)" using c(1) unfolding page_aligned_def u b PAGE_SIZE_def by simp
  moreover have "USER_MMAP_BASE \<le> NEXT_MMAP k + ?b" using c(2) unfolding word_le_nat_alt u by simp
  moreover have "unat (NEXT_MMAP k + ?b) \<le> 0x410000 + Suc n * 0x70000" unfolding u by fact
  ultimately show ?thesis unfolding e by (intro kernel_ok_next_mmap[OF assms(1)]) simp_all
qed

lemma tame_areas:
  "(\<And>t p. current_proc k t p \<Longrightarrow> list_all area_ok (f p)) \<Longrightarrow> tame k (\<lambda>p. p\<lparr>vm_areas := f p\<rparr>)"
  unfolding tame_def using current_procD(6) by (fastforce simp: proc_ok_def)

lemma mmap_install_ok:
  assumes "x86_laws X" "kernel_ok X n k" "USER_MMAP_BASE \<le> a" "user_range a m" "0 < m" "mmap_install X a m prot k = Inr (r, k')"
  shows "kernel_ok X n k'"
proof -
  obtain t p where c: "current_proc k t p" "kvm_ok X k" by (rule kernel_ok_current[OF assms(2)])
  note d = current_procD[OF c(1)]
  have vn: "virt_new X a" using assms(4) by (intro x86_virt[OF assms(1)]) (auto simp: user_range_def)
  obtain okk s' where s': "map_user_anon_pages X a m (mmap_flags prot) k = Inr (okk, set_kvm s' k)" "vm_ok X s'"
    using map_user_anon_pages_spec[OF assms(1) c(2) assms(4)] by blast
  let ?ar = "\<lparr>va_id = VM_AREA_NEXT_ID k, virt_start = a, va_pages = m, va_writable = (prot AND PROT_WRITE \<noteq> 0),
      va_executable = (prot AND PROT_EXEC \<noteq> 0)\<rparr>"
  have "area_ok ?ar" using assms(3-5) by (simp add: area_ok_def user_range_def USER_MMAP_LIMIT_def)
  then have tm: "tame k (\<lambda>p. p\<lparr>vm_areas := vm_areas p @ [?ar]\<rparr>)"
    using current_procD(6) by (intro tame_areas) (auto simp: proc_ok_def)
  let ?k1 = "set_kvm s' (k\<lparr>VM_AREA_NEXT_ID := VM_AREA_NEXT_ID k + 1\<rparr>)"
  have e: "(set_kvm s' k)\<lparr>VM_AREA_NEXT_ID := VM_AREA_NEXT_ID k + 1\<rparr> = ?k1" by (simp add: set_kvm_def)
  have "k' = set_kvm s' k \<or> k' = update_slot (CURRENT_SLOT k) (\<lambda>p. p\<lparr>vm_areas := vm_areas p @ [?ar]\<rparr>) ?k1"
    using assms(6) s'(1) vn d(1,3) e by (cases okk) (auto simp: mmap_install_def Let_def slot_at_def)
  moreover have "kernel_ok X n (k\<lparr>VM_AREA_NEXT_ID := VM_AREA_NEXT_ID k + 1\<rparr>)" using assms(2) by simp
  then have "kernel_ok X n (update_slot (CURRENT_SLOT k) (\<lambda>p. p\<lparr>vm_areas := vm_areas p @ [?ar]\<rparr>) ?k1)"
    using kernel_ok_vm_call[of X n "k\<lparr>VM_AREA_NEXT_ID := VM_AREA_NEXT_ID k + 1\<rparr>" s'
        "\<lambda>p. p\<lparr>vm_areas := vm_areas p @ [?ar]\<rparr>"] s'(2) tm by (simp add: tame_def)
  ultimately show ?thesis using kernel_ok_set_kvm[OF assms(2) s'(2)] by blast
qed

lemma sys_mmap_ok:
  assumes "x86_laws X" "kernel_ok X n k" "Suc n < 2 ^ 40" "sys_mmap X addr len prot k = Inr (r, k')"
  shows "kernel_ok X (Suc n) k'"
proof (cases "len = 0 \<or> len > USER_MMAP_LIMIT - USER_MMAP_BASE")
  case True
  then have "k' = k" using assms(4) by (auto simp: sys_mmap_def)
  then show ?thesis using kernel_ok_Suc[OF assms(2)] by simp
next
  case False
  then have l: "len \<noteq> 0" "unat len \<le> 0x70000" by (simp_all add: rock_consts word_le_nat_alt not_less)
  have pf: "(unat len + PAGE_SIZE - 1) div PAGE_SIZE = pages_for len" by (simp add: pages_for_def PAGE_SIZE_def)
  obtain a k1 where a: "mmap_addr addr len (pages_for len) k = (a, k1)" by force
  have rd: "mmap_ready k" using kernel_okD(3)[OF assms(2)] by (simp add: cursor_inv_def)
  note ok1 = mmap_addr_ok[OF assms(2,3) l a]
  show ?thesis
  proof (cases a)
    case (Inl e)
    then show ?thesis using assms(4) False a pf ok1 by (simp add: sys_mmap_def Let_def)
  next
    case (Inr base)
    then have "mmap_install X base (pages_for len) prot k1 = Inr (r, k')"
      using assms(4) False a pf by (simp add: sys_mmap_def Let_def)
    moreover have "USER_MMAP_BASE \<le> base" "user_range base (pages_for len)" using mmap_addr_spec[OF rd l a] Inr by simp_all
    ultimately show ?thesis using mmap_install_ok[OF assms(1) ok1] pages_for_bounds(1)[OF l] by blast
  qed
qed

lemma sys_munmap_ok:
  assumes "x86_laws X" "kernel_ok X n k" "sys_munmap X addr len k = Inr (r, k')"
  shows "kernel_ok X n k'"
proof (cases "unat addr mod PAGE_SIZE \<noteq> 0 \<or> len = 0")
  case True
  then have "k' = k" using assms(3) by (simp add: sys_munmap_def)
  then show ?thesis using assms(2) by simp
next
  case False
  obtain t p where c: "current_proc k t p" "kvm_ok X k" by (rule kernel_ok_current[OF assms(2)])
  note d = current_procD[OF c(1)]
  let ?rest = "filter (\<lambda>a. \<not> is_range addr len a) (vm_areas p)"
  let ?k = "update_slot (CURRENT_SLOT k) (\<lambda>p. p\<lparr>vm_areas := ?rest\<rparr>) k"
  have la: "list_all area_ok (vm_areas p)" using d(6) by (simp add: proc_ok_def)
  note ra = retain_areas_eq[OF la refl, of addr len]
  have "tame k (\<lambda>p. p\<lparr>vm_areas := ?rest\<rparr>)" using la by (intro tame_areas) (auto simp: list_all_iff)
  then have ok: "kernel_ok X n ?k" by (rule kernel_ok_update[OF assms(2)])
  show ?thesis
  proof (cases "\<exists>a \<in> set (vm_areas p). is_range addr len a")
    case False
    then have "k' = ?k" using assms(3) \<open>\<not> (unat addr mod PAGE_SIZE \<noteq> 0 \<or> len = 0)\<close> d ra
      by (simp add: sys_munmap_def slot_at_def Let_def)
    then show ?thesis using ok by simp
  next
    case True
    then obtain a where a: "a \<in> set (vm_areas p)" "virt_start a = addr" "va_pages a * 4096 = unat len"
      by (auto simp: is_range_def)
    then have "area_ok a" using la by (simp add: list_all_iff)
    then have ur: "user_range addr (unat len div 4096)"
      using a area_okD[of a] by (auto simp: user_range_def PAGE_SIZE_def word_le_nat_alt USER_TEXT_BASE_def)
    have "kvm_ok X ?k" using kernel_okD(1)[OF ok] by (simp add: mem_inv_def)
    from unmap_user_range_spec[OF assms(1) this ur] obtain u where
      u: "unmap_user_range X addr (unat len div 4096) ?k = Inr (True, set_kvm u ?k)" "vm_ok X u"
      by (auto simp: unmapped_set_def)
    have "k' = set_kvm u ?k" using assms(3) False d ra True u(1) by (simp add: sys_munmap_def slot_at_def Let_def PAGE_SIZE_def)
    then show ?thesis using kernel_ok_set_kvm[OF ok u(2)] by simp
  qed
qed

end
