(* ===== verification/Rock_Steps.thy ===== *)
theory Rock_Steps
  imports Rock_Inv
begin

text \<open>
  The rest of the system calls, the scheduler's tail and the runs of the kernel: user code, interrupts
  and system calls in any order.
\<close>

section \<open>fork\<close>

lemma map_child_stack_vm:
  assumes "x86_laws X" "kvm_ok X k" "map_child_stack X k = Inr (okk, k1)"
  shows "kvm_ok X k1 \<and> mem_change k k1"
proof -
  have v: "vm_ok X (kvm k)" "lock_allocator (mem k) \<noteq> None" using assms(2) by (simp_all add: kvm_ok_def)
  have lo: "CHILD_STACK_LO = 0x402000" by (simp add: CHILD_STACK_LO_def USER_STACK_CHILD_TOP_def)
  have pc: "page_containing X CHILD_STACK_LO = Inr 0x402000"
    using brk_page_containing[OF assms(1), of "0x402000"] page_floor_id[OF stack_page_facts(2)] by (simp add: lo)
  obtain s where s: "(if tr X k 0x402000 = None then map_one X user_data_flags 0x402000 (kvm k) else (True, kvm k)) = (okk, s)"
    "k1 = set_kvm s k"
    using assms(3) by (auto simp: map_child_stack_def pc with_mapper_kvm[OF v(2)] split: if_splits prod.splits dest!: obind_eq_InrD)
  have "vm_ok X s" using s(1) v(1) map_one_ok[OF assms(1) stack_page_facts(2) v(1)] by (auto split: if_splits)
  then show ?thesis unfolding s(2) by (simp add: kvm_ok_set mem_change_set_kvm)
qed

lemma map_child_stack_and_copy_vm:
  assumes "x86_laws X" "kvm_ok X k" "map_child_stack_and_copy X sv k = Inr (okk, k')"
  shows "kvm_ok X k' \<and> mem_change k k'"
proof -
  obtain o1 k1 where k1: "map_child_stack X k = Inr (o1, k1)"
    using assms(3) by (auto simp: map_child_stack_and_copy_def dest!: obind_eq_InrD)
  note v = map_child_stack_vm[OF assms(1,2) k1]
  note e = assms(3)[unfolded map_child_stack_and_copy_def k1 obind_simps prod.case Let_def]
  have "\<exists>r. k' = k1\<lparr>ram := r\<rparr>"
  proof (cases "o1 \<and> \<not> USER_STACK_TOP \<le> user_rsp sv")
    case True
    then show ?thesis using e by (intro copy_user_pages_ram) (simp only: simp_thms if_True if_False)
  next
    case False
    then have "k' = k1" using e by (auto split: if_splits)
    then show ?thesis by (intro exI[of _ "ram k1"]) simp
  qed
  then obtain r where r: "k' = k1\<lparr>ram := r\<rparr>" by blast
  then show ?thesis using v kvm_ok_cong[of k' k1 X] mem_change_ram by auto
qed

lemma alive_TABLE_update:
  assumes "TABLE k' = Some (t[slot := Some q])" "TABLE k = Some t" "slot < length t"
  shows "slot_is_alive_runnable k' i = (if i = slot then exit_code q = None else slot_is_alive_runnable k i)"
  using assms by (simp add: slot_is_alive_runnable_def proc_of_slot_def get_slot_update)

lemma sys_fork_ok:
  assumes "x86_laws X" "kernel_ok X n k" "sys_fork X rsp_now at_box k = Inr (r, k')"
  shows "kernel_ok X n k'"
proof -
  obtain t p where c: "current_proc k t p" "exit_code p = None" "kvm_ok X k" by (rule kernel_ok_current[OF assms(2)])
  note d = current_procD[OF c(1)]
  obtain cp where cp: "alloc_pid k = Some cp" using alloc_pid_spec[OF d(1)] table_okD(1)[OF d(2)] by auto
  let ?sv = "save_from_dispatch_rsp (kmem (cpu k)) rsp_now"
  obtain okk k1 where k1: "map_child_stack_and_copy X ?sv k = Inr (okk, k1)"
    using assms(3) cp by (auto simp: sys_fork_def Let_def dest!: obind_eq_InrD)
  note m = map_child_stack_and_copy_vm[OF assms(1) c(3) k1]
  have ok1: "kernel_ok X n k1" using kernel_ok_mem_change[OF assms(2)] m by blast
  show ?thesis
  proof (cases okk)
    case False
    then have "k' = k1" using assms(3) cp k1 by (simp add: sys_fork_def Let_def current_pid_eq[OF c(1)])
    then show ?thesis using ok1 by simp
  next
    case True
    with k1 have k1: "map_child_stack_and_copy X ?sv k = Inr (True, k1)" by simp
    show ?thesis
    proof (cases "first_none t")
      case None
      then show ?thesis using sys_fork_full[OF c(1) cp k1 None] assms(3) by simp
    next
      case (Some slot)
      let ?q = "fork_child cp (pid p) p (fork_save ?sv) at_box"
      let ?k2 = "k1\<lparr>TABLE := Some (t[slot := Some ?q])\<rparr>"
      note f = sys_fork_result[where at_box = at_box, OF c(1) cp k1 Some refl]
      have t1: "TABLE k1 = Some t" "CURRENT_SLOT k1 = CURRENT_SLOT k" using mem_change_fields(3,4)[of k k1] m d(1) by simp_all
      obtain s where s: "SCHED k1 = Some s" "distinct (runnable s)" "\<forall>i. slot_is_alive_runnable k1 i \<longrightarrow> i \<in> set (runnable s)"
        using kernel_okD(2)[OF ok1] by (auto simp: proc_inv_def sched_ok_def)
      have k': "k' = ?k2\<lparr>SCHED := Some (sched_enqueue slot s), NEED_RESCHED := True\<rparr>"
        using assms(3) f(1) s(1) by (auto simp: note_yield_def enqueue_new_task_def with_sched_def)
      have sl: "slot < length t" using first_none_Some[OF Some] by simp
      have tk: "TABLE k' = Some (t[slot := Some ?q])" by (simp add: k')
      have al: "slot_is_alive_runnable k' i \<Longrightarrow> i = slot \<or> slot_is_alive_runnable k1 i" for i
        using alive_TABLE_update[OF tk t1(1) sl, of i] by (auto split: if_splits)
      have cur: "current_proc k' (t[slot := Some ?q]) p" using f(2,4,5) d(5) t1(2) by (simp add: current_proc_def k')
      have sk: "SCHED k' = Some (sched_enqueue slot s)" by (simp add: k')
      have "distinct (runnable (sched_enqueue slot s))" "set (runnable (sched_enqueue slot s)) = insert slot (set (runnable s))"
        using s(2) by (auto simp: sched_enqueue_def)
      then have "sched_ok k'" unfolding sched_ok_def sk using s(3) al by blast
      then have "proc_inv k'" using cur c(2) unfolding proc_inv_def by blast
      then show ?thesis using kernel_okD[OF ok1] mem_inv_cong[of k' k1 X] cursor_inv_cong[of k' k1 n] io_inv_cong[of k' k1]
        by (simp add: kernel_ok_def k')
    qed
  qed
qed

section \<open>execve\<close>

text \<open>Images whose segments end below the limit of the user region.\<close>

definition image_fits :: "u8 list \<Rightarrow> bool" where
  "image_fits img \<longleftrightarrow> (\<forall>i < e_phnum img. let h = phdr_at img (e_phoff img) i in loads h \<longrightarrow> unat (seg_end 0 h) \<le> 0x480000)"

lemma load_elf_mapped_image_end:
  assumes "x86_laws X" "kvm_ok X k" "window_ok X k" "image_fits img" "load_elf_mapped X img 0 k = Inr (Inr (entry, meta), k')"
  shows "unat (meta_image_end meta) \<le> 0x480000"
proof -
  obtain fa l phdr where o: "lock_allocator (mem k) = Some fa"
    "load_phdrs X (window_addr X k) img (e_phoff img) 0 [0..<e_phnum img]
       \<lparr>ld_pt = page_table k, ld_fa = fa, ld_ram = ram k, image_end = 0, rw_min = None, phdr_va = None\<rparr> = Inr (None, l)"
    "meta = loaded_meta img 0 phdr l"
    by (rule load_elf_mapped_OkD[OF assms(5)])
  let ?l = "\<lparr>ld_pt = page_table k, ld_fa = fa, ld_ram = ram k, image_end = 0, rw_min = None, phdr_va = None\<rparr>"
  have w: "window_fun (window_addr X k)" using assms(3) by (simp add: window_fun_window_addr)
  have v: "vm_ok X (ld_pt ?l, ld_fa ?l)" using assms(2) o(1) by (simp add: kvm_ok_def kvm_def)
  from load_phdrs_image_end[OF assms(1) w v o(2)]
  have "image_end l = 0 \<or> (\<exists>i < e_phnum img. loads (phdr_at img (e_phoff img) i) \<and> image_end l = seg_end 0 (phdr_at img (e_phoff img) i))"
    by auto
  then have "unat (image_end l) \<le> 0x480000" using assms(4) by (auto simp: image_fits_def Let_def)
  then show ?thesis by (simp add: o(3) loaded_meta_def)
qed

lemma write_stack_ram: "write_stack X va bs k = Inr (e, k') \<Longrightarrow> \<exists>m. k' = k\<lparr>ram := m\<rparr>"
proof (induction bs arbitrary: va k)
  case Nil
  then show ?case by (intro exI[of _ "ram k"]) simp
next
  case (Cons b bs)
  then obtain e1 k1 where k1: "write_user_byte X va b k = Inr (e1, k1)" by (auto dest!: obind_eq_InrD)
  have m1: "\<exists>m. k1 = k\<lparr>ram := m\<rparr>"
    using k1 exI[of "\<lambda>m. k = k\<lparr>ram := m\<rparr>" "ram k"]
    by (auto simp: write_user_byte_def split: if_splits option.splits dest!: obind_eq_InrD)
  show ?case
  proof (cases e1)
    case None
    then have "write_stack X (va + 1) bs k1 = Inr (e, k')" using Cons.prems k1 by simp
    from Cons.IH[OF this] m1 show ?thesis by auto
  next
    case (Some msg)
    then show ?thesis using Cons.prems k1 m1 by simp
  qed
qed

lemma build_exec_stack_ram:
  assumes "build_exec_stack X meta argv envp k = Inr (r, k')"
  shows "\<exists>m. k' = k\<lparr>ram := m\<rparr>"
proof (cases "exec_stack_bytes meta argv envp")
  case (Inl msg)
  then have "k' = k" using assms by (simp add: build_exec_stack_def)
  then show ?thesis by (intro exI[of _ "ram k"]) simp
next
  case (Inr v)
  then obtain e where "write_stack X stack_lo v k = Inr (e, k')"
    using assms by (auto simp: build_exec_stack_def split: option.splits dest!: obind_eq_InrD)
  then show ?thesis by (rule write_stack_ram)
qed

lemma apply_user_meta_fields:
  "mem (apply_user_meta meta k) = mem k" "page_table (apply_user_meta meta k) = page_table k"
  "TABLE (apply_user_meta meta k) = TABLE k" "CURRENT_SLOT (apply_user_meta meta k) = CURRENT_SLOT k"
  "SCHED (apply_user_meta meta k) = SCHED k" "FILES (apply_user_meta meta k) = FILES k"
  "NEXT_FD (apply_user_meta meta k) = NEXT_FD k" "NEXT_MMAP (apply_user_meta meta k) = NEXT_MMAP k"
  "TTY (apply_user_meta meta k) = TTY k" "SCANCODE_QUEUE (apply_user_meta meta k) = SCANCODE_QUEUE k"
  by (simp_all add: apply_user_meta_def set_user_rw_image_start_def set_user_image_end_def)

lemma apply_user_meta_mem:
  assumes "mem_inv X k" "unat (meta_image_end meta) \<le> 0x480000"
  shows "mem_inv X (apply_user_meta meta k)"
proof -
  have "unat (USER_IMAGE_END (apply_user_meta meta k)) \<le> 0x480000"
    using assms(2) by (simp add: apply_user_meta_def set_user_rw_image_start_def set_user_image_end_def max_def USER_TEXT_BASE_def)
  then show ?thesis using assms(1) kvm_ok_cong[OF apply_user_meta_fields(1,2), of X] window_ok_cong[of "apply_user_meta meta k" k X]
    by (simp add: mem_inv_def apply_user_meta_fields)
qed

lemma load_elf_exec_ok:
  assumes "x86_laws X" "kernel_ok X n k" "image_fits img" "load_elf_exec X img 0 argv envp k = Inr (r, k')"
  shows "kernel_ok X n k'"
proof -
  have i: "kvm_ok X k" "unat (USER_IMAGE_END k) \<le> 0x480000" using kernel_okD(1)[OF assms(2)] by (simp_all add: mem_inv_def)
  obtain s1 where s1: "unmap_old_image_best_effort X k = Inr (set_kvm s1 k)" "vm_ok X s1"
    using unmap_old_image_spec[OF assms(1) i] by (auto simp: unmapped_set_def)
  let ?k1 = "set_kvm s1 k"
  have ok1: "kernel_ok X n ?k1" by (rule kernel_ok_set_kvm[OF assms(2) s1(2)])
  have i1: "kvm_ok X ?k1" "window_ok X ?k1" using kernel_okD(1)[OF ok1] by (simp_all add: mem_inv_def)
  obtain r2 k2 where k2: "load_elf_mapped X img 0 ?k1 = Inr (r2, k2)"
    using assms(4) s1(1) by (auto simp: load_elf_exec_def dest!: obind_eq_InrD)
  have ok2: "kernel_ok X n k2" using kernel_ok_mem_change[OF ok1] load_elf_mapped_vm[OF assms(1) i1 k2] by blast
  show ?thesis
  proof (cases r2)
    case (Inl msg)
    then show ?thesis using assms(4) s1(1) k2 ok2 by (simp add: load_elf_exec_def)
  next
    case (Inr em)
    obtain entry meta where em: "em = (entry, meta)" by force
    let ?k3 = "apply_user_meta meta k2"
    have "unat (meta_image_end meta) \<le> 0x480000"
      using load_elf_mapped_image_end[OF assms(1) i1 assms(3)] k2 Inr em by simp
    then have "mem_inv X ?k3" using kernel_okD(1)[OF ok2] by (intro apply_user_meta_mem)
    then have ok3: "kernel_ok X n ?k3" unfolding kernel_ok_def
      using kernel_okD[OF ok2] proc_inv_cong[OF apply_user_meta_fields(3-5)] cursor_inv_cong[OF apply_user_meta_fields(6-8)]
        io_inv_cong[OF apply_user_meta_fields(9,10)] by blast
    obtain r4 where "build_exec_stack X meta argv envp ?k3 = Inr (r4, k')"
      using assms(4) s1(1) k2 Inr em by (auto simp: load_elf_exec_def split: sum.splits dest!: obind_eq_InrD)
    then show ?thesis using build_exec_stack_ram ok3 by fastforce
  qed
qed

lemma tame_saved: "tame k (\<lambda>p. p\<lparr>save := sv, pending_rax := rx\<rparr>)"
  unfolding tame_def using current_procD(6) by (fastforce simp: proc_ok_def)

lemma set_syscall_saved_ok: "kernel_ok X n k \<Longrightarrow> kernel_ok X n (set_syscall_saved (CURRENT_SLOT k) sv rx k)"
  unfolding set_syscall_saved_def by (rule kernel_ok_update[OF _ tame_saved])

lemma sys_execve_cases:
  assumes "sys_execve X bin path_u argv_u envp_u k = Inr (r, k')"
  shows "k' = k \<or> (\<exists>argv envp res k1. load_elf_exec X bin 0 argv envp k = Inr (res, k1)
    \<and> (k' = k1 \<or> (\<exists>entry sp. k' = set_user_entry entry (set_syscall_saved (CURRENT_SLOT k1) (bootstrap_user entry sp 0x202) 0 k1))))"
  using guarded_InrD[OF assms[unfolded sys_execve_def]]
  by - (erule disjE, simp, drule obind_eq_InrD, elim exE conjE,
      auto split: if_splits sum.splits dest!: obind_eq_InrD simp: Let_def; blast)

lemma sys_execve_ok:
  assumes "x86_laws X" "kernel_ok X n k" "image_fits bin" "sys_execve X bin path_u argv_u envp_u k = Inr (r, k')"
  shows "kernel_ok X n k'"
proof -
  have "kernel_ok X n (set_user_entry e (set_syscall_saved (CURRENT_SLOT k1) sv 0 k1))" if "kernel_ok X n k1" for e sv k1
    using set_syscall_saved_ok[OF that, of sv 0] by (simp add: set_user_entry_def)
  then show ?thesis using sys_execve_cases[OF assms(4)] load_elf_exec_ok[OF assms(1-3)] assms(2) by metis
qed

section \<open>wait4, nanosleep, exit and the scheduler\<close>

lemma proc_inv_shrink:
  assumes "proc_inv k" "current_proc k' t' p" "exit_code p = None" "SCHED k' = SCHED k"
    "\<And>i. slot_is_alive_runnable k' i \<Longrightarrow> slot_is_alive_runnable k i"
  shows "proc_inv k'"
  using assms unfolding proc_inv_def sched_ok_def by metis

lemma wait_reap_ok:
  assumes "kernel_ok X n k" "wait_reap target k = Inr (r, k')"
  shows "kernel_ok X n k'"
proof -
  obtain t p where c: "current_proc k t p" "exit_code p = None" by (rule kernel_ok_current[OF assms(1)])
  obtain t' where t': "current_proc k' t' p" "\<forall>i q. get_slot t' i = Some q \<longrightarrow> get_slot t i = Some q"
    using wait_reap_current[OF c(1) assms(2)] by blast
  have k': "k' = k\<lparr>TABLE := TABLE k'\<rparr>"
    using assms(2) by (auto simp: wait_reap_def split: option.splits dest!: obind_eq_InrD)
  have f: "SCHED k' = SCHED k" "mem k' = mem k" "page_table k' = page_table k" "USER_IMAGE_END k' = USER_IMAGE_END k"
    "FILES k' = FILES k" "NEXT_FD k' = NEXT_FD k" "NEXT_MMAP k' = NEXT_MMAP k" "TTY k' = TTY k" "SCANCODE_QUEUE k' = SCANCODE_QUEUE k"
    by (subst k', simp)+
  have "slot_is_alive_runnable k i" if "slot_is_alive_runnable k' i" for i
    using that t' current_procD(1)[OF c(1)] current_procD(1)[OF t'(1)]
    by (fastforce simp: slot_is_alive_runnable_def proc_of_slot_def split: option.splits)
  then have "proc_inv k'" using proc_inv_shrink[OF kernel_okD(2)[OF assms(1)] t'(1) c(2) f(1)] by blast
  then show ?thesis unfolding kernel_ok_def
    using kernel_okD[OF assms(1)] mem_inv_cong[OF f(2-4), of X] cursor_inv_cong[OF f(5-7), of n] io_inv_cong[OF f(8,9)] by blast
qed

lemma sys_wait4_ok:
  assumes "kernel_ok X n k" "sys_wait4 Y target wstatus k = Inr (r, k')"
  shows "kernel_ok X n k'"
proof -
  obtain r1 k1 where k1: "wait_reap target k = Inr (r1, k1)" using assms(2) by (auto simp: sys_wait4_def dest!: obind_eq_InrD)
  have "kernel_ok X n k1" by (rule wait_reap_ok[OF assms(1) k1])
  then show ?thesis using assms(2) k1 write_user_ok[of X n k1]
    by (auto simp: sys_wait4_def split: option.splits if_splits dest!: obind_eq_InrD)
qed

lemma sys_nanosleep_ok:
  assumes "kernel_ok X n k" "sys_nanosleep Y req irqs k = Inr (Some (r, k', rest))"
  shows "kernel_ok X n k'"
  using assms sleep_until_ticks_ok[OF assms(1)]
  by (auto simp: sys_nanosleep_def split: if_splits option.splits dest!: obind_eq_InrD)

lemma note_yield_ok [simp]: "kernel_ok X n (note_yield k) \<longleftrightarrow> kernel_ok X n k"
  by (simp add: note_yield_def)

text \<open>
  What resuming a task needs: the queue is in order and the table is, whether or not the task that was
  running still lives.
\<close>

definition resumable :: "'pt kernel \<Rightarrow> bool" where
  "resumable k \<longleftrightarrow> (\<exists>t. TABLE k = Some t \<and> table_ok t) \<and> sched_ok k"

lemma pick_next_and_restore_ok:
  assumes "mem_inv X k" "cursor_inv n k" "io_inv k" "resumable k"
    "pick_next_and_restore ret_to irqs k = Inr (Some (k', rest))"
  shows "kernel_ok X n k'"
proof (cases "\<exists>i. slot_is_alive_runnable k i")
  case False
  then show ?thesis using pick_next_idle[of k irqs] assms(5) by (auto simp: pick_next_and_restore_def)
next
  case True
  then obtain i where i: "slot_is_alive_runnable k i" by blast
  obtain t where t: "TABLE k = Some t" "table_ok t" "sched_ok k" using assms(4) by (auto simp: resumable_def)
  obtain s c pr m where p: "proc_of_slot k c = Some pr" "exit_code pr = None"
    "pick_next_and_restore ret_to irqs k = Inr (Some (k\<lparr>SCHED := Some s, CURRENT_SLOT := c, cpu := m\<rparr>, irqs))"
    "sched_ok (k\<lparr>SCHED := Some s\<rparr>)"
    using pick_and_restore_alive[OF t(3) i, of ret_to irqs] by blast
  have k': "k' = k\<lparr>SCHED := Some s, CURRENT_SLOT := c, cpu := m\<rparr>" using p(3) assms(5) by simp
  have "current_proc k' t pr" using t p(1) by (simp add: k' current_proc_def proc_of_slot_def)
  moreover have "sched_ok k'" using p(4) alive_table[of k' "k\<lparr>SCHED := Some s\<rparr>"] by (simp add: sched_ok_def k')
  ultimately have "proc_inv k'" using p(2) by (auto simp: proc_inv_def)
  then show ?thesis using assms(1-3) mem_inv_cong[of k' k X] cursor_inv_cong[of k' k n] io_inv_cong[of k' k]
    by (simp add: kernel_ok_def k')
qed

lemma rotate_runnable_resumable: "resumable k \<Longrightarrow> resumable (rotate_runnable k)"
  using alive_table[of "rotate_runnable k" k]
  by (auto simp: resumable_def rotate_runnable_def with_sched_def sched_ok_def sched_rotate_runnable split: option.splits)

lemma kernel_ok_resumable: "kernel_ok X n k \<Longrightarrow> resumable k"
  by (auto simp: kernel_ok_def proc_inv_def resumable_def dest: current_procD)

lemma resumable_resched [simp]: "resumable (k\<lparr>NEED_RESCHED := b\<rparr>) \<longleftrightarrow> resumable k"
  using alive_table[of "k\<lparr>NEED_RESCHED := b\<rparr>" k] by (simp add: resumable_def sched_ok_def)

text \<open>The scheduler's own edits leave the rest of the kernel alone.\<close>

definition sched_edit :: "'pt kernel \<Rightarrow> 'pt kernel \<Rightarrow> bool" where
  "sched_edit k k' \<longleftrightarrow> mem k' = mem k \<and> page_table k' = page_table k \<and> USER_IMAGE_END k' = USER_IMAGE_END k
     \<and> FILES k' = FILES k \<and> NEXT_FD k' = NEXT_FD k \<and> NEXT_MMAP k' = NEXT_MMAP k
     \<and> TTY k' = TTY k \<and> SCANCODE_QUEUE k' = SCANCODE_QUEUE k"

lemma kernel_ok_resume:
  assumes "kernel_ok X n k" "sched_edit k k1" "resumable k1" "pick_next_and_restore ret_to irqs k1 = Inr (Some (k', rest))"
  shows "kernel_ok X n k'"
proof (rule pick_next_and_restore_ok[OF _ _ _ assms(3,4)])
  note o = kernel_okD[OF assms(1)] and e = assms(2)[unfolded sched_edit_def]
  show "mem_inv X k1" "cursor_inv n k1" "io_inv k1"
    using o e mem_inv_cong[of k1 k X] cursor_inv_cong[of k1 k n] io_inv_cong[of k1 k] by blast+
qed

lemma complete_syscall_and_schedule_ok:
  assumes "kernel_ok X n k" "complete_syscall_and_schedule ret_to v d irqs k = Inr (Some (k', rest))"
  shows "kernel_ok X n k'"
proof -
  let ?k1 = "(set_syscall_saved (CURRENT_SLOT k) (save_from_dispatch_rsp (kmem (cpu k)) d) v k)\<lparr>NEED_RESCHED := False\<rparr>"
  have ok1: "kernel_ok X n ?k1" using set_syscall_saved_ok[OF assms(1)] by simp
  let ?k2 = "if NEED_RESCHED k then rotate_runnable ?k1 else ?k1"
  have p: "pick_next_and_restore ret_to irqs ?k2 = Inr (Some (k', rest))"
    using assms(2) by (simp add: complete_syscall_and_schedule_def Let_def set_syscall_saved_def split: if_splits)
  have "resumable ?k2" using kernel_ok_resumable[OF ok1] rotate_runnable_resumable[of ?k1] by simp
  moreover have "sched_edit ?k1 ?k2" by (simp add: sched_edit_def rotate_runnable_def with_sched_def split: option.splits)
  ultimately show ?thesis using kernel_ok_resume[OF ok1 _ _ p] by blast
qed

lemma schedule_after_exit_ok:
  assumes "kernel_ok X n k" "schedule_after_exit ret_to irqs (mark_exited st k\<lparr>WRITER := w, SERIAL1 := sr\<rparr>) = Inr (Some (k', rest))"
  shows "kernel_ok X n k'"
proof -
  obtain t p where c: "current_proc k t p" by (rule kernel_ok_current[OF assms(1)])
  let ?k1 = "mark_exited st k" and ?p = "p\<lparr>exit_code := Some st\<rparr>"
  note d = current_procD[OF c] and e = mark_exited_current[OF c, of st]
  obtain s where s: "SCHED k = Some s" "distinct (runnable s)" "\<And>i. slot_is_alive_runnable k i \<Longrightarrow> i \<in> set (runnable s)"
    using kernel_okD(2)[OF assms(1)] by (auto simp: proc_inv_def sched_ok_def)
  have cs: "CURRENT_SLOT ?k1 = CURRENT_SLOT k" by (simp add: mark_exited_def update_slot_def split: option.splits)
  let ?k2 = "?k1\<lparr>WRITER := w, SERIAL1 := sr, SCHED := Some (sched_remove (CURRENT_SLOT k) s), NEED_RESCHED := True\<rparr>"
  have al: "slot_is_alive_runnable ?k2 i \<longleftrightarrow> i \<noteq> CURRENT_SLOT k \<and> slot_is_alive_runnable k i" for i
    using alive_TABLE_update[of ?k2 t "CURRENT_SLOT k" ?p k i] current_procD(1)[OF e] d(1,3) by simp
  have "resumable ?k2" unfolding resumable_def
    using current_procD(1,2)[OF e] s(2,3) al by (auto simp: sched_ok_def sched_remove_def)
  moreover have "pick_next_and_restore ret_to irqs ?k2 = Inr (Some (k', rest))"
    using assms(2) s(1) by (simp add: schedule_after_exit_def Let_def cs with_sched_def mark_exited_def)
  ultimately show ?thesis
    by (intro kernel_ok_resume[OF assms(1), where ?k1.0 = ?k2]) (simp_all add: sched_edit_def mark_exited_def)
qed

lemma exit_and_schedule_ok:
  assumes "kernel_ok X n k" "exit_and_schedule ret_to st irqs k = Inr (Some (k', rest))"
  shows "kernel_ok X n k'"
  using assms(2) schedule_after_exit_ok[OF assms(1)]
  by (auto simp: exit_and_schedule_def dest!: obind_eq_InrD println_only)

section \<open>System calls\<close>

text \<open>The state a dispatched call leaves, if it leaves one.\<close>

fun dispatched_state :: "'pt dispatched \<Rightarrow> 'pt kernel option" where
  "dispatched_state (Returned v k irqs) = Some k"
| "dispatched_state (Switched k irqs) = Some k"
| "dispatched_state Blocked = None"

lemma returned_state:
  assumes "returned irqs r = Inr d" "dispatched_state d = Some k'"
  obtains v where "r = Inr (v, k')"
  using assms by (auto simp: returned_def dest!: obind_eq_InrD)

lemma waited_state:
  assumes "waited r = Inr d" "dispatched_state d = Some k'"
  obtains v rest where "r = Inr (Some (v, k', rest))"
  using assms by (auto simp: waited_def split: option.splits dest!: obind_eq_InrD)

lemma switched_state:
  assumes "switched r = Inr d" "dispatched_state d = Some k'"
  obtains rest where "r = Inr (Some (k', rest))"
  using assms by (auto simp: switched_def split: option.splits dest!: obind_eq_InrD)

lemma pid_calls_ok:
  "obind (current_pid k) (\<lambda>p. Inr (p, k)) = Inr (v, k') \<Longrightarrow> k' = k"
  "obind (current_ppid k) (\<lambda>p. Inr (case p of None \<Rightarrow> 0 | Some p \<Rightarrow> p, k)) = Inr (v, k') \<Longrightarrow> k' = k"
  by (auto dest!: obind_eq_InrD)

lemma if_eqE: "(if c then a else b) = x \<Longrightarrow> (a = x \<Longrightarrow> P) \<Longrightarrow> (b = x \<Longrightarrow> P) \<Longrightarrow> P"
  by (cases c) simp_all

lemma syscall_dispatch_ok:
  assumes "x86_laws X" "kernel_ok X n k" "Suc n < 2 ^ 40" "image_fits (env_init_elf E)"
    "syscall_dispatch X E num a0 a1 a2 irqs k = Inr d" "dispatched_state d = Some k'"
  shows "kernel_ok X (Suc n) k'"
proof -
  note ok = assms(2) and st = assms(6)
  have S: "kernel_ok X n k1 \<Longrightarrow> kernel_ok X (Suc n) k1" for k1 by (rule kernel_ok_Suc)
  have "waited (fs_read X a0 a1 a2 irqs k) = Inr d \<Longrightarrow> ?thesis"
    by (erule waited_state[OF _ st]) (rule S, rule fs_read_ok[OF ok])
  have "returned irqs (sys_write X a0 a1 a2 k) = Inr d \<Longrightarrow> ?thesis"
    by (erule returned_state[OF _ st]) (rule S, rule sys_write_ok[OF ok])
  have "returned irqs (sys_open X a0 a1 k) = Inr d \<Longrightarrow> ?thesis"
    by (erule returned_state[OF _ st]) (rule sys_open_ok[OF ok assms(3)])
  have "returned irqs (Inr (sys_close a0 k)) = Inr d \<Longrightarrow> ?thesis"
    by (erule returned_state[OF _ st]) (rule S, rule sys_close_ok[OF ok], simp)
  have "returned irqs (sys_brk X a0 k) = Inr d \<Longrightarrow> ?thesis"
    by (erule returned_state[OF _ st]) (rule S, rule sys_brk_ok[OF assms(1) ok])
  have "returned irqs (sys_mmap X a0 a1 a2 k) = Inr d \<Longrightarrow> ?thesis"
    by (erule returned_state[OF _ st]) (rule sys_mmap_ok[OF assms(1) ok assms(3)])
  have "returned irqs (sys_munmap X a0 a1 k) = Inr d \<Longrightarrow> ?thesis"
    by (erule returned_state[OF _ st]) (rule S, rule sys_munmap_ok[OF assms(1) ok])
  have "returned irqs (sys_fork X (env_fork_rsp E) (env_box E) k) = Inr d \<Longrightarrow> ?thesis"
    by (erule returned_state[OF _ st]) (rule S, rule sys_fork_ok[OF assms(1) ok])
  have "returned irqs (sys_execve X (env_init_elf E) a0 a1 a2 k) = Inr d \<Longrightarrow> ?thesis"
    by (erule returned_state[OF _ st]) (rule S, rule sys_execve_ok[OF assms(1) ok assms(4)])
  have "returned irqs (Inr (0, note_yield k)) = Inr d \<Longrightarrow> ?thesis"
    by (erule returned_state[OF _ st]) (use S[OF ok] in auto)
  have "waited (sys_nanosleep X a0 irqs k) = Inr d \<Longrightarrow> ?thesis"
    by (erule waited_state[OF _ st]) (rule S, rule sys_nanosleep_ok[OF ok])
  have "returned irqs (sys_wait4 X a0 a1 k) = Inr d \<Longrightarrow> ?thesis"
    by (erule returned_state[OF _ st]) (rule S, rule sys_wait4_ok[OF ok])
  have "returned irqs (obind (current_pid k) (\<lambda>p. Inr (p, k))) = Inr d \<Longrightarrow> ?thesis"
    by (erule returned_state[OF _ st]) (use S[OF ok] in \<open>auto dest: pid_calls_ok\<close>)
  have "returned irqs (obind (current_ppid k) (\<lambda>p. Inr (case p of None \<Rightarrow> 0 | Some p \<Rightarrow> p, k))) = Inr d \<Longrightarrow> ?thesis"
    by (erule returned_state[OF _ st]) (use S[OF ok] in \<open>auto dest: pid_calls_ok\<close>)
  have "switched (exit_and_schedule (env_return E) (ucast a0) irqs k) = Inr d \<Longrightarrow> ?thesis"
    by (erule switched_state[OF _ st]) (rule S, rule exit_and_schedule_ok[OF ok])
  have "returned irqs (Inr (ENOSYS, k)) = Inr d \<Longrightarrow> ?thesis"
    by (erule returned_state[OF _ st]) (use S[OF ok] in auto)
  show ?thesis using assms(5)[unfolded syscall_dispatch_def] by (elim if_eqE) fact+
qed

lemma handle_syscall_ok:
  assumes "x86_laws X" "kernel_ok X n k" "Suc n < 2 ^ 40" "image_fits (env_init_elf E)"
    "handle_syscall X E irqs k = Inr (Some (k', rest))"
  shows "kernel_ok X (Suc n) k'"
proof -
  let ?m = "syscall_entry (cpu k)"
  obtain num a0 a1 a2 where a: "dispatch_args ?m = (num, a0, a1, a2)" by (cases "dispatch_args ?m") auto
  have ok: "kernel_ok X n (k\<lparr>cpu := ?m\<rparr>)" using assms(2) by simp
  obtain d where d: "syscall_dispatch X E num a0 a1 a2 irqs (k\<lparr>cpu := ?m\<rparr>) = Inr d"
    using assms(5) a by (auto simp: handle_syscall_def Let_def dest!: obind_eq_InrD)
  note s = syscall_dispatch_ok[OF assms(1) ok assms(3,4) d]
  show ?thesis
  proof (cases d)
    case (Returned v k1 irqs1)
    then show ?thesis using s complete_syscall_and_schedule_ok[of X "Suc n" k1] assms(5) a d
      by (simp add: handle_syscall_def Let_def syscall_tail_def)
  qed (use s assms(5) a d in \<open>simp_all add: handle_syscall_def Let_def\<close>)
qed

section \<open>Runs\<close>

text \<open>
  Between two entries into the kernel the user changes registers and memory at will, but not the
  kernel's stacks and the cell with the top of the current one. A run is a sequence of such changes,
  of interrupts in user mode and of system calls; \<open>n\<close> counts the calls.
\<close>

definition user_step :: "'pt kernel \<Rightarrow> 'pt kernel \<Rightarrow> bool" where
  "user_step k k' \<longleftrightarrow> (\<exists>m r. k' = k\<lparr>cpu := m, ram := r\<rparr>
     \<and> kmem m = kmem (cpu k) \<and> CURRENT_KSTACK_TOP m = CURRENT_KSTACK_TOP (cpu k))"

inductive kernel_step :: "'pt x86 \<Rightarrow> u8 list \<Rightarrow> nat \<times> 'pt kernel \<Rightarrow> nat \<times> 'pt kernel \<Rightarrow> bool" for X img where
  step_user: "user_step k k' \<Longrightarrow> kernel_step X img (n, k) (n, k')"
| step_irq: "handle_irq i k = Inr k' \<Longrightarrow> kernel_step X img (n, k) (n, k')"
| step_syscall: "env_init_elf E = img \<Longrightarrow> handle_syscall X E irqs k = Inr (Some (k', rest)) \<Longrightarrow> kernel_step X img (n, k) (Suc n, k')"

inductive_cases kernel_stepE: "kernel_step X img (n, k) s"

definition kernel_run :: "'pt x86 \<Rightarrow> u8 list \<Rightarrow> 'pt kernel \<Rightarrow> nat \<Rightarrow> 'pt kernel \<Rightarrow> bool" where
  "kernel_run X img k0 n k \<longleftrightarrow> reach (\<lambda>s. s = (0, k0)) (kernel_step X img) (n, k)"

lemma kernel_run_start: "kernel_run X img k0 0 k0"
  by (simp add: kernel_run_def reach_init)

lemma kernel_run_step: "kernel_run X img k0 n k \<Longrightarrow> kernel_step X img (n, k) (n', k') \<Longrightarrow> kernel_run X img k0 n' k'"
  unfolding kernel_run_def by (rule reach_step)

lemma user_step_ok: "user_step k k' \<Longrightarrow> kernel_ok X n k \<Longrightarrow> kernel_ok X n k'"
  by (auto simp: user_step_def)

text \<open>The invariant of the kernel as a machine, from a start state that satisfies it.\<close>

definition run_inv :: "'pt x86 \<Rightarrow> u8 list \<Rightarrow> 'pt kernel \<Rightarrow> nat \<times> 'pt kernel \<Rightarrow> bool" where
  "run_inv X img k0 s \<longleftrightarrow> (x86_laws X \<and> image_fits img \<and> kernel_ok X 0 k0 \<and> fst s < 2 ^ 40 \<longrightarrow> kernel_ok X (fst s) (snd s))"

lemma kernel_step_inv:
  assumes "run_inv X img k0 s" "kernel_step X img s t"
  shows "run_inv X img k0 t"
  using assms(2,1)
proof (cases rule: kernel_step.cases)
  case (step_user k k' n)
  then show ?thesis using assms(1) user_step_ok by (auto simp: run_inv_def)
next
  case (step_irq i k k' n)
  then show ?thesis using assms(1) handle_irq_ok by (auto simp: run_inv_def)
next
  case (step_syscall E irqs k k' rest n)
  then show ?thesis using assms(1) handle_syscall_ok[of X n k E irqs k' rest] by (auto simp: run_inv_def)
qed

interpretation kernel_machine: invariant_of "\<lambda>s. s = (0, k0)" "kernel_step X img" "run_inv X img k0" for X img k0
proof unfold_locales
  show "run_inv X img k0 s" if "s = (0, k0)" for s using that by (simp add: run_inv_def)
  show "run_inv X img k0 t" if "run_inv X img k0 s" "kernel_step X img s t" for s t using that by (rule kernel_step_inv)
qed

lemma kernel_run_ok:
  assumes "kernel_run X img k0 n k" "x86_laws X" "image_fits img" "kernel_ok X 0 k0" "n < 2 ^ 40"
  shows "kernel_ok X n k"
  using kernel_machine.inv_reach[OF assms(1)[unfolded kernel_run_def]] assms(2-5) by (simp add: run_inv_def)

text \<open>What the invariant says of memory, of the process table and of the queue.\<close>

lemma kernel_ok_memory:
  assumes "kernel_ok X n k"
  shows "user_window pg \<Longrightarrow> user_window pg' \<Longrightarrow> tr X k pg = Some f \<Longrightarrow> tr X k pg' = Some f \<Longrightarrow> pg = pg'"
    and "user_window pg \<Longrightarrow> tr X k pg = Some f \<Longrightarrow> valid_frame f \<and> f \<notin> free_addrs (snd (kvm k))"
proof -
  have "vm_ok X (kvm k)" "fst (kvm k) = page_table k" using kernel_okD(1)[OF assms] by (simp_all add: mem_inv_def kvm_ok_def kvm_def)
  then show "user_window pg \<Longrightarrow> user_window pg' \<Longrightarrow> tr X k pg = Some f \<Longrightarrow> tr X k pg' = Some f \<Longrightarrow> pg = pg'"
    "user_window pg \<Longrightarrow> tr X k pg = Some f \<Longrightarrow> valid_frame f \<and> f \<notin> free_addrs (snd (kvm k))"
    unfolding vm_ok_def by (metis, metis)
qed

lemma kernel_ok_queue:
  assumes "kernel_ok X n k"
  shows "slot_is_alive_runnable k (CURRENT_SLOT k)" "distinct (run_list k)" "slot_is_alive_runnable k i \<Longrightarrow> i \<in> set (run_list k)"
proof -
  obtain t p where c: "current_proc k t p" "exit_code p = None" by (rule kernel_ok_current[OF assms])
  then show "slot_is_alive_runnable k (CURRENT_SLOT k)" by (simp add: slot_is_alive_runnable_def proc_of_slot_def current_proc_def)
  have "sched_ok k" using kernel_okD(2)[OF assms] by (simp add: proc_inv_def)
  then show "distinct (run_list k)" "slot_is_alive_runnable k i \<Longrightarrow> i \<in> set (run_list k)" using sched_okD by blast+
qed

end
