(* ===== verification/Rock_Boot.thy ===== *)
theory Rock_Boot
  imports Rock_Steps
begin

text \<open>
  The boot path (\<open>src/main.rs\<close> and \<open>src/heap.rs\<close>): the kernel heap's pages, and \<open>kernel_main\<close>
  from the statics to the entry into user mode, with everything it prints.
\<close>

section \<open>The kernel heap\<close>

definition HEAP_START :: u64 where [rock_consts]: "HEAP_START = 0x444444440000"
definition HEAP_PAGES :: nat where [rock_consts]: "HEAP_PAGES = 64"

definition heap_flags :: page_flags where
  "heap_flags = \<lparr>PRESENT = True, WRITABLE = True, USER_ACCESSIBLE = False, NO_EXECUTE = True\<rparr>"

fun heap_loop :: "'pt x86 \<Rightarrow> nat list \<Rightarrow> 'pt \<times> falloc \<Rightarrow> ('pt \<times> falloc) outcome" where
  "heap_loop X [] s = Inr s"
| "heap_loop X (i # is) s =
     (let virt = HEAP_START + of_nat (i * PAGE_SIZE) in
      if \<not> virt_new X virt then Inl BadVirtAddr
      else case allocate_frame_inner (snd s) of (None, fa) \<Rightarrow> Inl UnwrapNone
        | (Some frame, fa) \<Rightarrow> (case map_to X (fst s) (page_of X virt) frame heap_flags fa of
              (Some e, pt, fa) \<Rightarrow> Inl ExpectErr
            | (None, pt, fa) \<Rightarrow> heap_loop X is (pt, fa)))"

definition heap_init :: "'pt x86 \<Rightarrow> 'pt kernel \<Rightarrow> 'pt kernel outcome" where
  "heap_init X k =
     (case lock_allocator (mem k) of None \<Rightarrow> Inl UnwrapNone
      | Some fa \<Rightarrow> obind (heap_loop X [0..<HEAP_PAGES] (page_table k, fa)) (\<lambda>(pt, fa).
          Inr (k\<lparr>page_table := pt, mem := unlock_allocator fa (mem k)\<rparr>)))"

section \<open>kernel_main\<close>

text \<open>
  What the boot depends on: the boot information, the text screen's cells, the addresses of the boxes
  and of \<open>syscall_entry\<close>, the mask register, the bytes of \<open>assets/init.elf\<close>, and what the keyboard's
  status and data ports show at each call of \<open>read_scancode\<close>.
\<close>

record boot_env =
  physical_memory_offset :: u64
  memory_map :: "mem_region list"
  screen :: "cell list"
  heap_demo :: u64
  mask_in :: u8
  syscall_entry_addr :: u64
  init_stack :: u64
  init_box :: u64
  INIT_ELF :: "u8 list"
  kbd_ports :: "(u8 \<times> u8) list"

definition boot_memory :: "'pt x86 \<Rightarrow> boot_env \<Rightarrow> 'pt kernel \<Rightarrow> 'pt kernel outcome" where
  "boot_memory X B k =
     (let k = k\<lparr>mem := memory_init (physical_memory_offset B) (memory_map B) (mem k)\<rparr> in
      obind (paging_init X (mem k) (page_table k)) (\<lambda>_.
        obind (heap_init X k) (\<lambda>k. Inr (k\<lparr>WRITER := vga_init (screen B)\<rparr>))))"

definition boot_report :: "'pt kernel \<Rightarrow> 'pt kernel outcome" where
  "boot_report k =
     obind (println (bytes_of ''Hello welcome to rockos kernel!'') k) (\<lambda>k.
       println (bytes_of ''Memory: phys_offset='' @ fmt_hex (unat (PHYSICAL_MEMORY_OFFSET (mem k)))
         @ bytes_of '' usable_frames~'' @ fmt_dec (unat (total_usable_frames (mem k)))
         @ bytes_of '' free='' @ fmt_dec (unat (free_frames (mem k)))
         @ bytes_of '' (bitmap '' @ fmt_dec FRAME_BITMAP_BITS @ bytes_of '' frames / ''
         @ fmt_dec (FRAME_BITMAP_BITS * 4096 div (1024 * 1024)) @ bytes_of '' MiB)'') k)"

definition frame_test :: "'pt kernel \<Rightarrow> 'pt kernel outcome" where
  "frame_test k =
     (let free_before = free_frames (mem k);
          (f1, m) = allocate_frame (mem k);
          (f2, m) = allocate_frame m;
          k = k\<lparr>mem := m\<rparr>
      in case (f1, f2) of
           (Some a, Some b) \<Rightarrow>
             obind (println (bytes_of ''Frame alloc test: '' @ fmt_hex (unat a) @ bytes_of '', '' @ fmt_hex (unat b)
                 @ bytes_of '' (free '' @ fmt_dec (unat free_before) @ bytes_of '' -> ''
                 @ fmt_dec (unat (free_frames (mem k))) @ bytes_of '')'') k) (\<lambda>k.
               let k = k\<lparr>mem := deallocate_frame b (deallocate_frame a (mem k))\<rparr> in
               println (bytes_of ''Frame alloc restored, free='' @ fmt_dec (unat (free_frames (mem k)))) k)
         | _ \<Rightarrow> Inr k)"

definition heap_test :: "boot_env \<Rightarrow> 'pt kernel \<Rightarrow> 'pt kernel outcome" where
  "heap_test B k =
     println (bytes_of ''Heap test: Box at '' @ fmt_hex (unat (heap_demo B)) @ bytes_of '' = '' @ fmt_hex 0xDEC0DEC0DE
       @ bytes_of '' (heap '' @ fmt_hex (unat HEAP_START) @ bytes_of '' + '' @ fmt_dec HEAP_PAGES @ bytes_of '' pages)'') k"

definition timer_report :: "'pt kernel \<Rightarrow> 'pt kernel outcome" where
  "timer_report k =
     obind (println (bytes_of ''Timer IRQ0 ~'' @ fmt_dec (unat TIMER_HZ) @ bytes_of '' Hz (ticks=''
         @ fmt_dec (unat (ticks k)) @ bytes_of ''), keyboard IRQ1 '' @ [0xE2, 0x80, 0xA6]) k) (\<lambda>k.
       println (bytes_of ''~'' @ fmt_dec (unat (ucast TIMER_HZ * 2 :: u64))
         @ bytes_of '' tick keyboard window (cooked TTY feed), then ring 3 (IF=1).'') k)"

text \<open>The inner loop of the keyboard window; \<open>None\<close> is a loop that has not ended with these port reads.\<close>

fun drain_keys :: "(u8 \<times> u8) list \<Rightarrow> 'pt kernel \<Rightarrow> ((u8 \<times> u8) list \<times> 'pt kernel) option outcome" where
  "drain_keys [] k = Inr None"
| "drain_keys ((status, data) # ps) k =
     (case read_scancode status data (SCANCODE_QUEUE k) of
        (None, q) \<Rightarrow> Inr (Some (ps, k\<lparr>SCANCODE_QUEUE := q\<rparr>))
      | (Some scancode, q) \<Rightarrow>
          let k = k\<lparr>SCANCODE_QUEUE := q\<rparr> in
          obind (case scancode_to_char scancode of Some c \<Rightarrow> print (encode_utf8 c) k
                 | None \<Rightarrow> println (bytes_of ''raw 0x'' @ fmt_02x (unat scancode)) k) (drain_keys ps))"

text \<open>The outer loop; interrupts arrive at its \<open>hlt\<close>.\<close>

fun keyboard_window ::
  "u64 \<Rightarrow> (u8 \<times> u8) list \<Rightarrow> irq list \<Rightarrow> 'pt kernel \<Rightarrow> ('pt kernel \<times> irq list) option outcome" where
  "keyboard_window until ps [] k =
     (if ticks k < until then obind (drain_keys ps k) (\<lambda>_. Inr None) else Inr (Some (k, [])))"
| "keyboard_window until ps (i # is) k =
     (if ticks k < until then
        obind (drain_keys ps k) (\<lambda>r. case r of None \<Rightarrow> Inr None
          | Some (ps, k) \<Rightarrow> obind (handle_irq i k) (keyboard_window until ps is))
      else Inr (Some (k, i # is)))"

definition wait_for_keys :: "(u8 \<times> u8) list \<Rightarrow> irq list \<Rightarrow> 'pt kernel \<Rightarrow> ('pt kernel \<times> irq list) option outcome" where
  "wait_for_keys ps irqs k =
     (let warm_ticks = ucast TIMER_HZ * 2 in
      if add_ok (ticks k) warm_ticks then keyboard_window (ticks k + warm_ticks) ps irqs k else Inl Overflow)"

definition boot_user :: "'pt x86 \<Rightarrow> boot_env \<Rightarrow> 'pt kernel \<Rightarrow> 'pt kernel outcome" where
  "boot_user X B k =
     obind (map_user_stack X k) (\<lambda>k. obind (load_elf X (INIT_ELF B) 0 k) (\<lambda>(r, k). case r of
         Inr entry \<Rightarrow> println (bytes_of ''Loaded init ELF, entry '' @ fmt_hex (unat entry)) (set_user_entry entry k)
       | Inl e \<Rightarrow>
           obind (println (bytes_of ''ELF load '' @ bytes_of e @ bytes_of '' '' @ [0xE2, 0x80, 0x94]
               @ bytes_of '' built-in blob'') k) (\<lambda>k. obind (map_user_blob X k) (\<lambda>k.
             Inr (set_user_entry USER_TEXT_BASE (set_user_rw_image_start (USER_TEXT_BASE + 4096)
               (set_user_image_end (USER_TEXT_BASE + 4096) k)))))))"

definition start_init :: "boot_env \<Rightarrow> 'pt kernel \<Rightarrow> 'pt kernel outcome" where
  "start_init B k =
     (let k = process_init (init_stack B) (init_box B) k in
      obind (current_pid k) (\<lambda>_. let k = scheduler_init k in
        println (bytes_of ''Ring 3 entry RIP='' @ fmt_hex (unat (USER_ENTRY_RIP k)) @ bytes_of '' stack ''
          @ fmt_hex (unat USER_STACK_TOP) @ bytes_of '' (IF=1: IRQ timer + keyboard)'') k))"

definition syscalls_banner :: "u8 list" where
  "syscalls_banner = bytes_of (''Syscalls: open/close 2/3, read/write 0/1, mmap/munmap 9/11, brk 12, fork 57, ''
     @ ''execve 59, yield 24, wait4 61 (EAGAIN loop), getpid/ppid 39/110, exit 60.'')"

text \<open>
  The machine that enters user mode: the kernel's state, the port writes of the drivers, the segment
  and system call registers, and the words \<open>iretq\<close> pops.
\<close>

record 'pt booted =
  bt_kernel :: "'pt kernel"
  bt_ports :: "port_write list"
  bt_segments :: segment_regs
  bt_msrs :: syscall_msrs
  bt_iret :: "u64 list"

definition enter_user :: "'g segments \<Rightarrow> 'pt kernel \<Rightarrow> u64 list" where
  "enter_user G k =
     (let s = snd (GDT G) in enter_via_iret_with_rflags (ucast (user_code_segment s)) (ucast (user_data_segment s)) 0x202 k)"

definition kernel_main ::
  "'pt x86 \<Rightarrow> 'g segments \<Rightarrow> boot_env \<Rightarrow> irq list \<Rightarrow> 'pt kernel \<Rightarrow> ('pt booted \<times> irq list) option outcome" where
  "kernel_main X G B irqs k =
     obind (boot_memory X B k) (\<lambda>k. obind (boot_report k) (\<lambda>k. obind (frame_test k) (\<lambda>k. obind (heap_test B k) (\<lambda>k.
       obind (wait_ticks 1 irqs k) (\<lambda>r. case r of None \<Rightarrow> Inr None | Some (k, irqs) \<Rightarrow>
       obind (timer_report k) (\<lambda>k. obind (wait_for_keys (kbd_ports B) irqs k) (\<lambda>r. case r of None \<Rightarrow> Inr None
       | Some (k, irqs) \<Rightarrow>
       obind (println syscalls_banner k) (\<lambda>k. obind (syscall_init G (syscall_entry_addr B)) (\<lambda>msrs.
       obind (boot_user X B k) (\<lambda>k. obind (start_init B k) (\<lambda>k.
         Inr (Some (\<lparr>bt_kernel = k, bt_ports = serial_init @ interrupts_init (mask_in B), bt_segments = gdt_init G,
           bt_msrs = msrs, bt_iret = enter_user G k\<rparr>, irqs)))))))))))))"

section \<open>What the boot keeps\<close>

text \<open>The part of the invariant that does not speak of processes.\<close>

definition boot_inv :: "'pt x86 \<Rightarrow> 'pt kernel \<Rightarrow> bool" where
  "boot_inv X k \<longleftrightarrow> mem_inv X k \<and> cursor_inv 0 k \<and> io_inv k"

lemma boot_inv_edit: "sched_edit k k' \<Longrightarrow> boot_inv X k' \<longleftrightarrow> boot_inv X k"
  unfolding boot_inv_def sched_edit_def
  using mem_inv_cong[of k' k X] cursor_inv_cong[of k' k 0] io_inv_cong[of k' k] by blast

lemma boot_inv_mem_change:
  assumes "boot_inv X k" "mem_change k k'" "kvm_ok X k'"
  shows "boot_inv X k'"
  using assms mem_change_fields[OF assms(2)] cursor_inv_cong[of k' k 0] io_inv_cong[of k' k]
  by (simp add: boot_inv_def mem_inv_def)

lemma boot_inv_print:
  "print bs k = Inr k' \<Longrightarrow> boot_inv X k' \<longleftrightarrow> boot_inv X k"
  "println bs k = Inr k' \<Longrightarrow> boot_inv X k' \<longleftrightarrow> boot_inv X k"
  by (auto dest!: print_only println_only intro!: boot_inv_edit simp: sched_edit_def)

lemma boot_inv_queue: "boot_inv X k \<Longrightarrow> queue_ok q \<Longrightarrow> boot_inv X (k\<lparr>SCANCODE_QUEUE := q\<rparr>)"
  using mem_inv_cong[of "k\<lparr>SCANCODE_QUEUE := q\<rparr>" k X] cursor_inv_cong[of "k\<lparr>SCANCODE_QUEUE := q\<rparr>" k 0]
  by (simp add: boot_inv_def io_inv_def)

lemma handle_irq_boot:
  assumes "boot_inv X k" "handle_irq i k = Inr k'"
  shows "boot_inv X k'"
proof (cases i)
  case Timer
  then have "sched_edit k k'" using assms(2)
    by (auto simp: timer_interrupt_handler_def Let_def on_timer_tick_def sched_edit_def split: if_splits option.splits)
  then show ?thesis using assms(1) boot_inv_edit by blast
next
  case (Keyboard st d)
  have o: "tty_ok (TTY k)" "queue_ok (SCANCODE_QUEUE k)" using assms(1) by (simp_all add: boot_inv_def io_inv_def)
  have "io_inv k'" "mem k' = mem k" "page_table k' = page_table k" "USER_IMAGE_END k' = USER_IMAGE_END k"
    "FILES k' = FILES k" "NEXT_FD k' = NEXT_FD k" "NEXT_MMAP k' = NEXT_MMAP k"
    using assms(2) Keyboard feed_scancode_ok[OF o(1)] try_push_ok[OF o(2)] o
    by (auto simp: handle_keyboard_irq_def io_inv_def split: option.splits)
  then show ?thesis using assms(1) mem_inv_cong[of k' k X] cursor_inv_cong[of k' k 0] by (simp add: boot_inv_def)
qed

lemma wait_loop_boot:
  "boot_inv X k \<Longrightarrow> wait_loop start n irqs k = Inr (Some (k', rest)) \<Longrightarrow> boot_inv X k'"
proof (induction irqs arbitrary: k)
  case (Cons i irqs)
  then show ?case using handle_irq_boot[OF Cons.prems(1), of i] by (auto split: if_splits dest!: obind_eq_InrD)
qed (auto split: if_splits)

lemma try_pop_ok: "queue_ok q \<Longrightarrow> queue_ok (snd (try_pop q))"
  using queue_pop_Nil[of q] queue_pop_Cons[of q] by (cases "queue_contents q") auto

lemma read_scancode_queue:
  assumes "read_scancode st d q = (r, q')" "queue_ok q"
  shows "queue_ok q'"
  using assms try_pop_ok[OF assms(2)] by (auto simp: read_scancode_def pop_scancode_def split: prod.splits option.splits)

lemma drain_keys_boot:
  "boot_inv X k \<Longrightarrow> drain_keys ps k = Inr (Some (ps', k')) \<Longrightarrow> boot_inv X k'"
proof (induction ps arbitrary: k)
  case (Cons p ps)
  obtain st d where p: "p = (st, d)" by force
  obtain r q where r: "read_scancode st d (SCANCODE_QUEUE k) = (r, q)" by force
  have "queue_ok q" using read_scancode_queue[OF r] Cons.prems(1) by (simp add: boot_inv_def io_inv_def)
  then have b: "boot_inv X (k\<lparr>SCANCODE_QUEUE := q\<rparr>)" by (rule boot_inv_queue[OF Cons.prems(1)])
  show ?case
  proof (cases r)
    case None
    then show ?thesis using Cons.prems(2) p r b by simp
  next
    case (Some c)
    then obtain k1 where "(\<exists>bs. print bs (k\<lparr>SCANCODE_QUEUE := q\<rparr>) = Inr k1) \<or> (\<exists>bs. println bs (k\<lparr>SCANCODE_QUEUE := q\<rparr>) = Inr k1)"
      "drain_keys ps k1 = Inr (Some (ps', k'))"
      using Cons.prems(2) p r by (auto simp: Let_def split: option.splits dest!: obind_eq_InrD)
    moreover from this(1) b have "boot_inv X k1" using boot_inv_print by blast
    ultimately show ?thesis using Cons.IH by blast
  qed
qed simp

lemma keyboard_window_boot:
  "boot_inv X k \<Longrightarrow> keyboard_window until ps irqs k = Inr (Some (k', rest)) \<Longrightarrow> boot_inv X k'"
proof (induction irqs arbitrary: k ps)
  case Nil
  then show ?case by (auto split: if_splits dest!: obind_eq_InrD)
next
  case (Cons i irqs)
  show ?case
  proof (cases "ticks k < until")
    case False
    then show ?thesis using Cons.prems by simp
  next
    case True
    then obtain ps1 k1 k2 where k: "drain_keys ps k = Inr (Some (ps1, k1))" "handle_irq i k1 = Inr k2"
      "keyboard_window until ps1 irqs k2 = Inr (Some (k', rest))"
      using Cons.prems(2) by (auto split: option.splits dest!: obind_eq_InrD)
    show ?thesis using Cons.IH[OF handle_irq_boot[OF drain_keys_boot[OF Cons.prems(1) k(1)] k(2)] k(3)] .
  qed
qed

section \<open>Memory at boot\<close>

lemma map_one_alloc:
  "allocate_frame_inner fa = (Some f, fa1) \<Longrightarrow> map_to X pt page f fl fa1 = (None, s') \<Longrightarrow> map_one X fl page (pt, fa) = (True, s')"
  by (auto simp: map_one_def split: prod.splits)

definition heap_page :: "nat \<Rightarrow> u64" where
  "heap_page i = HEAP_START + of_nat (i * PAGE_SIZE)"

lemma heap_loop_step:
  assumes "heap_loop X (i # is) s = Inr s'"
  obtains s1 where "map_one X heap_flags (page_of X (heap_page i)) s = (True, s1)" "heap_loop X is s1 = Inr s'"
proof -
  obtain f fa where a: "allocate_frame_inner (snd s) = (Some f, fa)"
    using assms by (auto simp: Let_def split: if_splits prod.splits option.splits)
  obtain s1 where m: "map_to X (fst s) (page_of X (heap_page i)) f heap_flags fa = (None, s1)" "heap_loop X is s1 = Inr s'"
    using assms a by (auto simp: Let_def heap_page_def split: if_splits prod.splits option.splits)
  have "map_one X heap_flags (page_of X (heap_page i)) s = (True, s1)" using map_one_alloc[OF a m(1)] by simp
  then show thesis using m(2) by (rule that)
qed

lemma heap_loop_vm: "x86_laws X \<Longrightarrow> vm_ok X s \<Longrightarrow> heap_loop X is s = Inr s' \<Longrightarrow> vm_ok X s'"
proof (induction "is" arbitrary: s)
  case (Cons i "is")
  obtain s1 where s1: "map_one X heap_flags (page_of X (heap_page i)) s = (True, s1)" "heap_loop X is s1 = Inr s'"
    by (rule heap_loop_step[OF Cons.prems(3)])
  have "vm_ok X s1" by (rule map_one_ok[OF Cons.prems(1) page_of_aligned[OF Cons.prems(1)] Cons.prems(2) s1(1)])
  then show ?case using Cons.IH[OF Cons.prems(1) _ s1(2)] by blast
qed simp

lemma heap_init_vm:
  assumes "x86_laws X" "kvm_ok X k" "heap_init X k = Inr k'"
  shows "kvm_ok X k' \<and> mem_change k k'"
proof -
  obtain fa where fa: "lock_allocator (mem k) = Some fa" using assms(2) by (auto simp: kvm_ok_def)
  then obtain s where s: "heap_loop X [0..<HEAP_PAGES] (kvm k) = Inr s" "k' = set_kvm s k"
    using assms(3) by (auto simp: heap_init_def kvm_def set_kvm_def dest!: obind_eq_InrD)
  have "vm_ok X s" using heap_loop_vm[OF assms(1) _ s(1)] assms(2) by (simp add: kvm_ok_def)
  then show ?thesis unfolding s(2) by (simp add: kvm_ok_set mem_change_set_kvm)
qed

lemma map_fresh_page_vm:
  assumes "x86_laws X" "kvm_ok X k" "map_fresh_page X va fl fill k = Inr k'"
    "\<And>f k1. fill f k = Inr k1 \<Longrightarrow> \<exists>m. k1 = k\<lparr>ram := m\<rparr>"
  shows "kvm_ok X k' \<and> mem_change k k'"
proof -
  obtain fa where fa: "lock_allocator (mem k) = Some fa" using assms(2) by (auto simp: kvm_ok_def)
  then obtain f fa1 k1 where a: "allocate_frame_inner fa = (Some f, fa1)" "fill f k = Inr k1"
    using assms(3) by (auto simp: map_fresh_page_def split: prod.splits option.splits dest!: obind_eq_InrD)
  obtain m where k1: "k1 = k\<lparr>ram := m\<rparr>" using assms(4)[OF a(2)] by blast
  obtain s where s: "map_to X (page_table k) (page_of X va) f fl fa1 = (None, s)" "k' = (set_kvm s k)\<lparr>ram := m\<rparr>"
    using assms(3) fa a k1
    by (auto simp: map_fresh_page_def set_kvm_def split: if_splits prod.splits option.splits)
  have "map_one X fl (page_of X va) (kvm k) = (True, s)" using map_one_alloc[OF a(1) s(1)] fa by (simp add: kvm_def)
  moreover have "vm_ok X (kvm k)" using assms(2) by (simp add: kvm_ok_def)
  ultimately have "vm_ok X s" using map_one_ok[OF assms(1) page_of_aligned[OF assms(1)]] by blast
  then have "kvm_ok X (set_kvm s k)" by (simp add: kvm_ok_set)
  then show ?thesis unfolding s(2)
    using kvm_ok_cong[of "(set_kvm s k)\<lparr>ram := m\<rparr>" "set_kvm s k" X] mem_change_ram[OF mem_change_set_kvm] by simp
qed

lemma map_user_stack_vm:
  "x86_laws X \<Longrightarrow> kvm_ok X k \<Longrightarrow> map_user_stack X k = Inr k' \<Longrightarrow> kvm_ok X k' \<and> mem_change k k'"
  unfolding map_user_stack_def by (rule map_fresh_page_vm) (auto intro: exI[of _ "ram k"])

lemma copy_blob_ram: "copy_blob_to_frame X f k = Inr k1 \<Longrightarrow> \<exists>m. k1 = k\<lparr>ram := m\<rparr>"
proof -
  assume "copy_blob_to_frame X f k = Inr k1"
  then obtain p where "k1 = write_phys p USER_BLOB k"
    by (auto simp: copy_blob_to_frame_def split: if_splits dest!: obind_eq_InrD)
  then show ?thesis by (intro exI[of _ "ram k1"]) (simp add: write_phys_def)
qed

lemma map_user_blob_vm:
  "x86_laws X \<Longrightarrow> kvm_ok X k \<Longrightarrow> map_user_blob X k = Inr k' \<Longrightarrow> kvm_ok X k' \<and> mem_change k k'"
  unfolding map_user_blob_def by (rule map_fresh_page_vm[OF _ _ _ copy_blob_ram])

text \<open>Taking two frames and giving them back, or taking what there is.\<close>

lemma vm_ok_falloc:
  assumes "vm_ok X (pt, fa)" "falloc_ok fa'" "free_addrs fa' \<subseteq> free_addrs fa"
  shows "vm_ok X (pt, fa')"
  using assms unfolding vm_ok_def by (auto dest: subsetD)

lemma allocate_frame_locked:
  assumes "lock_allocator m = Some fa" "allocate_frame m = (r, m')"
  obtains fa' where "allocate_frame_inner fa = (r, fa')" "m' = unlock_allocator fa' m"
  using assms by (auto simp: allocate_frame_def split: prod.splits)

lemma frame_test_fa:
  assumes "falloc_ok fa" "allocate_frame_inner fa = (r1, fa1)" "allocate_frame_inner fa1 = (r2, fa2)"
  shows "falloc_ok fa2 \<and> free_addrs fa2 \<subseteq> free_addrs fa"
    and "r1 = Some a \<Longrightarrow> r2 = Some b \<Longrightarrow>
      falloc_ok (deallocate_frame_inner b (deallocate_frame_inner a fa2))
      \<and> free_addrs (deallocate_frame_inner b (deallocate_frame_inner a fa2)) = free_addrs fa"
proof -
  have ok1: "falloc_ok fa1" "free_addrs fa1 \<subseteq> free_addrs fa"
    using bitmap_frames.alloc_ok bitmap_frames.alloc_avail_subset assms(1,2) by blast+
  then show "falloc_ok fa2 \<and> free_addrs fa2 \<subseteq> free_addrs fa"
    using bitmap_frames.alloc_ok bitmap_frames.alloc_avail_subset assms(3) by blast
  assume ab: "r1 = Some a" "r2 = Some b"
  have a: "a \<in> free_addrs fa" "free_addrs fa1 = free_addrs fa - {a}" using allocate_frame_inner_Some[OF assms(1)] assms(2) ab by auto
  have b: "b \<in> free_addrs fa1" "free_addrs fa2 = free_addrs fa1 - {b}" "falloc_ok fa2"
    using allocate_frame_inner_Some[OF ok1(1)] assms(3) ab by auto
  have v: "valid_frame a" "valid_frame b" using free_addrs_valid assms(1) ok1(1) a(1) b(1) by blast+
  note d = deallocate_frame_inner_addrs[OF b(3) v(1)]
  show "falloc_ok (deallocate_frame_inner b (deallocate_frame_inner a fa2))
      \<and> free_addrs (deallocate_frame_inner b (deallocate_frame_inner a fa2)) = free_addrs fa"
    using deallocate_frame_inner_addrs[of "deallocate_frame_inner a fa2" b] v(2) d a b by auto
qed

lemma unlock_unlock [simp]: "unlock_allocator fa (unlock_allocator fb m) = unlock_allocator fa m"
  by (simp add: unlock_allocator_def)

lemma frame_test_boot:
  assumes "boot_inv X k" "frame_test k = Inr k'"
  shows "boot_inv X k'"
proof -
  have kv: "kvm_ok X k" using assms(1) by (simp add: boot_inv_def mem_inv_def)
  then obtain fa where fa: "lock_allocator (mem k) = Some fa" "vm_ok X (page_table k, fa)"
    by (auto simp: kvm_ok_def kvm_def)
  have ok: "falloc_ok fa" using fa(2) by (simp add: vm_ok_def)
  obtain r1 m1 r2 m2 where m: "allocate_frame (mem k) = (r1, m1)" "allocate_frame m1 = (r2, m2)" by (metis surj_pair)
  obtain fa1 where f1: "allocate_frame_inner fa = (r1, fa1)" "m1 = unlock_allocator fa1 (mem k)"
    by (rule allocate_frame_locked[OF fa(1) m(1)])
  obtain fa2 where f2: "allocate_frame_inner fa1 = (r2, fa2)" "m2 = unlock_allocator fa2 (mem k)"
    using allocate_frame_locked[of m1 fa1, OF _ m(2)] f1(2) by (metis lock_unlock unlock_unlock)
  have keep: "boot_inv X (set_kvm (page_table k, fb) k)" if "falloc_ok fb" "free_addrs fb \<subseteq> free_addrs fa" for fb
    using boot_inv_mem_change[OF assms(1) mem_change_set_kvm] vm_ok_falloc[OF fa(2) that] by (simp add: kvm_ok_set)
  have s2: "k\<lparr>mem := m2\<rparr> = set_kvm (page_table k, fa2) k" by (simp add: set_kvm_def f2(2))
  have b2: "boot_inv X (set_kvm (page_table k, fa2) k)" using keep frame_test_fa(1)[OF ok f1(1) f2(1)] by blast
  show ?thesis
  proof (cases "\<exists>a b. r1 = Some a \<and> r2 = Some b")
    case False
    then have "k' = k\<lparr>mem := m2\<rparr>" using assms(2) m by (auto simp: frame_test_def Let_def split: option.splits)
    then show ?thesis using b2 s2 by simp
  next
    case True
    then obtain a b where ab: "r1 = Some a" "r2 = Some b" by blast
    let ?fb = "deallocate_frame_inner b (deallocate_frame_inner a fa2)"
    obtain bs bs' k1 where k1: "println bs (k\<lparr>mem := m2\<rparr>) = Inr k1"
      "println bs' (k1\<lparr>mem := deallocate_frame b (deallocate_frame a (mem k1))\<rparr>) = Inr k'"
      using assms(2) m ab by (auto simp: frame_test_def Let_def dest!: obind_eq_InrD)
    obtain w sr where w: "k1 = k\<lparr>mem := m2, WRITER := w, SERIAL1 := sr\<rparr>" using println_only[OF k1(1)] by auto
    have e: "deallocate_frame b (deallocate_frame a (mem k1)) = unlock_allocator ?fb (mem k)"
      by (simp add: w deallocate_frame_def f2(2))
    have "sched_edit (set_kvm (page_table k, ?fb) k) (k1\<lparr>mem := unlock_allocator ?fb (mem k)\<rparr>)"
      by (simp add: sched_edit_def w set_kvm_def)
    moreover have "boot_inv X (set_kvm (page_table k, ?fb) k)"
      using keep frame_test_fa(2)[OF ok f1(1) f2(1) ab] by simp
    ultimately show ?thesis using k1(2) unfolding e using boot_inv_print(2) boot_inv_edit by blast
  qed
qed

section \<open>The state that enters user mode\<close>

text \<open>
  The boot loader's part: the offset window covers the memory the bitmap speaks of, and nothing is
  mapped where user programs go.
\<close>

definition bootloader_ok :: "'pt x86 \<Rightarrow> boot_env \<Rightarrow> 'pt \<Rightarrow> bool" where
  "bootloader_ok X B pt \<longleftrightarrow>
     (\<forall>p. unat p < FRAME_BITMAP_BITS * PAGE_SIZE \<longrightarrow>
        add_ok p (physical_memory_offset B) \<and> virt_new X (p + physical_memory_offset B))
   \<and> (\<forall>pg. user_window pg \<longrightarrow> translate X pt pg = None)"

lemma frame_byte_bound:
  assumes "valid_frame f" "i < PAGE_SIZE"
  shows "unat (f + of_nat i) < FRAME_BITMAP_BITS * PAGE_SIZE"
proof -
  obtain j where j: "f = frame_addr j" "j < FRAME_BITMAP_BITS" using assms(1) by (auto simp: valid_frame_def)
  have "j * PAGE_SIZE + i < FRAME_BITMAP_BITS * PAGE_SIZE"
  proof -
    have "j * PAGE_SIZE + PAGE_SIZE \<le> FRAME_BITMAP_BITS * PAGE_SIZE"
      using j(2) mult_le_mono1[of "Suc j" FRAME_BITMAP_BITS PAGE_SIZE] by simp
    then show ?thesis using assms(2) by simp
  qed
  moreover from this have "unat (of_nat (j * PAGE_SIZE + i) :: u64) = j * PAGE_SIZE + i"
    by (intro unat_of_nat_u64) (simp add: rock_consts)
  moreover have "f + of_nat i = (of_nat (j * PAGE_SIZE + i) :: u64)" by (simp add: j(1) frame_addr_def)
  ultimately show ?thesis by simp
qed

lemma memory_init_boot:
  assumes "bootloader_ok X B pt"
  shows "boot_inv X ((kernel_static pt r m)\<lparr>mem := memory_init (physical_memory_offset B) (memory_map B) memory_static\<rparr>)"
proof -
  let ?k = "(kernel_static pt r m)\<lparr>mem := memory_init (physical_memory_offset B) (memory_map B) memory_static\<rparr>"
  have l: "lock_allocator (mem ?k) = Some (boot_falloc (memory_map B))" "PHYSICAL_MEMORY_OFFSET (mem ?k) = physical_memory_offset B"
    "page_table ?k = pt"
    by (simp_all add: memory_init_def lock_allocator_def boot_falloc_def kernel_static_def split: prod.splits)
  have "vm_ok X (pt, boot_falloc (memory_map B))"
    using boot_falloc_ok[of "memory_map B"] assms by (simp add: vm_ok_def bootloader_ok_def)
  then have "kvm_ok X ?k" using l by (simp add: kvm_ok_def kvm_def)
  moreover have "window_ok X ?k" unfolding window_ok_def window_addr_def phys_to_virt_def l(2)
    using assms frame_byte_bound by (simp add: bootloader_ok_def)
  moreover have "unat (USER_IMAGE_END ?k) \<le> 0x480000" by (simp add: kernel_static_def USER_TEXT_BASE_def)
  ultimately have "mem_inv X ?k" by (simp add: mem_inv_def)
  moreover have "fs_ok ?k" using fs_ok_static[of pt r m] fs_ok_cong[of ?k "kernel_static pt r m"] by simp
  moreover have "mmap_ready ?k" "unat (NEXT_FD ?k) \<le> 4" "unat (NEXT_MMAP ?k) \<le> 0x410000"
    by (simp_all add: mmap_ready_def kernel_static_def rock_consts page_aligned_def)
  moreover have "io_inv ?k" using queue_new tty_new_ok by (simp add: io_inv_def kernel_static_def)
  ultimately show ?thesis by (simp add: boot_inv_def cursor_inv_def)
qed

lemma boot_memory_boot:
  assumes "x86_laws X" "bootloader_ok X B pt" "boot_memory X B (kernel_static pt r m) = Inr k'"
  shows "boot_inv X k'"
proof -
  let ?k = "(kernel_static pt r m)\<lparr>mem := memory_init (physical_memory_offset B) (memory_map B) memory_static\<rparr>"
  have b: "boot_inv X ?k" by (rule memory_init_boot[OF assms(2)])
  have "mem (kernel_static pt r m) = memory_static" by (simp add: kernel_static_def)
  then obtain k1 where k1: "heap_init X ?k = Inr k1" "k' = k1\<lparr>WRITER := vga_init (screen B)\<rparr>"
    using assms(3) by (auto simp: boot_memory_def Let_def dest!: obind_eq_InrD)
  have "kvm_ok X ?k" using b by (simp add: boot_inv_def mem_inv_def)
  then have "boot_inv X k1" using heap_init_vm[OF assms(1) _ k1(1)] boot_inv_mem_change[OF b] by blast
  then show ?thesis unfolding k1(2) using boot_inv_edit[of k1 "k1\<lparr>WRITER := vga_init (screen B)\<rparr>"] by (simp add: sched_edit_def)
qed

lemma load_elf_boot:
  assumes "x86_laws X" "boot_inv X k" "image_fits img" "load_elf X img 0 k = Inr (res, k')"
  shows "boot_inv X k'"
proof -
  have i: "kvm_ok X k" "window_ok X k" using assms(2) by (simp_all add: boot_inv_def mem_inv_def)
  obtain r1 k1 where k1: "load_elf_mapped X img 0 k = Inr (r1, k1)" using assms(4) by (auto simp: load_elf_def dest!: obind_eq_InrD)
  have b: "boot_inv X k1" using boot_inv_mem_change[OF assms(2)] load_elf_mapped_vm[OF assms(1) i k1] by blast
  show ?thesis
  proof (cases r1)
    case (Inl msg)
    then show ?thesis using assms(4) k1 b by (simp add: load_elf_def)
  next
    case (Inr em)
    obtain entry meta where em: "em = (entry, meta)" by force
    have k': "k' = apply_user_meta meta k1" using assms(4) k1 Inr em by (simp add: load_elf_def)
    have "unat (meta_image_end meta) \<le> 0x480000" using load_elf_mapped_image_end[OF assms(1) i assms(3)] k1 Inr em by simp
    then show ?thesis unfolding k' boot_inv_def
      using b apply_user_meta_mem cursor_inv_cong[OF apply_user_meta_fields(6-8)] io_inv_cong[OF apply_user_meta_fields(9,10)]
      unfolding boot_inv_def by blast
  qed
qed

lemma blob_image_boot:
  assumes "boot_inv X k"
  shows "boot_inv X (set_user_entry USER_TEXT_BASE (set_user_rw_image_start (USER_TEXT_BASE + 4096)
    (set_user_image_end (USER_TEXT_BASE + 4096) k)))" (is "boot_inv X ?k")
proof -
  have "unat (USER_TEXT_BASE + 4096) \<le> 0x480000" by (simp add: USER_TEXT_BASE_def)
  then have "mem_inv X ?k" using assms kvm_ok_cong[of ?k k X] window_ok_cong[of ?k k X]
    by (simp add: boot_inv_def mem_inv_def set_user_entry_def set_user_rw_image_start_def set_user_image_end_def)
  then show ?thesis using assms cursor_inv_cong[of ?k k 0] io_inv_cong[of ?k k]
    by (simp add: boot_inv_def set_user_entry_def set_user_rw_image_start_def set_user_image_end_def)
qed

lemma boot_user_boot:
  assumes "x86_laws X" "boot_inv X k" "image_fits (INIT_ELF B)" "boot_user X B k = Inr k'"
  shows "boot_inv X k'"
proof -
  have kv: "kvm_ok X k1" if "boot_inv X k1" for k1 using that by (simp add: boot_inv_def mem_inv_def)
  obtain k1 where k1: "map_user_stack X k = Inr k1" using assms(4) by (auto simp: boot_user_def dest!: obind_eq_InrD)
  have b1: "boot_inv X k1"
    using map_user_stack_vm[OF assms(1) kv[OF assms(2)] k1] boot_inv_mem_change[OF assms(2)] by blast
  obtain res k2 where k2: "load_elf X (INIT_ELF B) 0 k1 = Inr (res, k2)"
    using assms(4) k1 by (auto simp: boot_user_def dest!: obind_eq_InrD)
  have b2: "boot_inv X k2" by (rule load_elf_boot[OF assms(1) b1 assms(3) k2])
  show ?thesis
  proof (cases res)
    case (Inr entry)
    then obtain bs where p: "println bs (set_user_entry entry k2) = Inr k'" using assms(4) k1 k2 by (auto simp: boot_user_def)
    show ?thesis using b2 boot_inv_print(2)[OF p, of X] boot_inv_edit[of k2 "set_user_entry entry k2" X]
      by (simp add: sched_edit_def set_user_entry_def)
  next
    case (Inl e)
    then obtain bs k3 k4 where k: "println bs k2 = Inr k3" "map_user_blob X k3 = Inr k4"
      "k' = set_user_entry USER_TEXT_BASE (set_user_rw_image_start (USER_TEXT_BASE + 4096) (set_user_image_end (USER_TEXT_BASE + 4096) k4))"
      using assms(4) k1 k2 by (auto simp: boot_user_def dest!: obind_eq_InrD)
    have b3: "boot_inv X k3" using boot_inv_print(2)[OF k(1)] b2 by blast
    have "boot_inv X k4" using map_user_blob_vm[OF assms(1) kv[OF b3] k(2)] boot_inv_mem_change[OF b3] by blast
    then show ?thesis unfolding k(3) by (rule blob_image_boot)
  qed
qed

lemma start_init_kernel:
  assumes "boot_inv X k" "start_init B k = Inr k'"
  shows "kernel_ok X 0 k'"
proof -
  let ?k1 = "process_init (init_stack B) (init_box B) k" and ?k2 = "scheduler_init (process_init (init_stack B) (init_box B) k)"
  obtain t p where c: "current_proc ?k1 t p" "exit_code p = None"
    using process_init_current[of "init_stack B" "init_box B" k] by blast
  obtain bs where "println bs ?k2 = Inr k'" using assms(2) by (auto simp: start_init_def Let_def dest!: obind_eq_InrD)
  then obtain w sr where k': "k' = ?k2\<lparr>WRITER := w, SERIAL1 := sr\<rparr>" using println_only by blast
  have al: "slot_is_alive_runnable ?k2 i \<longleftrightarrow> i = 0" for i
    by (auto simp: slot_is_alive_runnable_def proc_of_slot_def scheduler_init_def process_init_def Let_def
        get_slot_def Process_new_def nth_list_update split: option.splits if_splits)
  have "current_proc ?k2 t p" using c(1) by (simp add: current_proc_def scheduler_init_def)
  moreover have "sched_ok ?k2" unfolding sched_ok_def al by (simp add: scheduler_init_def)
  ultimately have p: "proc_inv ?k2" using c(2) by (auto simp: proc_inv_def)
  have "sched_edit k ?k2" by (simp add: sched_edit_def scheduler_init_def process_init_def Let_def)
  then have "boot_inv X ?k2" using boot_inv_edit assms(1) by blast
  then have "kernel_ok X 0 ?k2" using p by (simp add: kernel_ok_def boot_inv_def)
  then show ?thesis by (simp add: k')
qed

lemma obind_InrE: "obind m f = Inr y \<Longrightarrow> (\<And>x. m = Inr x \<Longrightarrow> f x = Inr y \<Longrightarrow> P) \<Longrightarrow> P"
  by (auto dest!: obind_eq_InrD)

lemma waited_InrE:
  "(case r of None \<Rightarrow> Inr None | Some (k, i) \<Rightarrow> g k i) = Inr (Some y) \<Longrightarrow>
    (\<And>k i. r = Some (k, i) \<Longrightarrow> g k i = Inr (Some y) \<Longrightarrow> P) \<Longrightarrow> P"
  by (auto split: option.splits)

text \<open>The phases of \<open>kernel_main\<close>, from a boot that reached user mode.\<close>

lemma kernel_main_phases:
  assumes "kernel_main X G B irqs k = Inr (Some (b, rest))"
  obtains k1 k2 k3 k4 k5 r5 k6 k7 k8 k9 where
    "boot_memory X B k = Inr k1" "boot_report k1 = Inr k2" "frame_test k2 = Inr k3" "heap_test B k3 = Inr k4"
    "wait_ticks 1 irqs k4 = Inr (Some (k5, r5))" "timer_report k5 = Inr k6"
    "wait_for_keys (kbd_ports B) r5 k6 = Inr (Some (k7, rest))" "println syscalls_banner k7 = Inr k8"
    "boot_user X B k8 = Inr k9" "start_init B k9 = Inr (bt_kernel b)" "bt_iret b = enter_user G (bt_kernel b)"
  using assms unfolding kernel_main_def
  by (elim obind_InrE waited_InrE) (rule that, auto)

lemma boot_inv_println2:
  assumes "obind (println b1 k) (\<lambda>k. println (b2 k) k) = Inr k'" "boot_inv X k"
  shows "boot_inv X k'"
proof -
  obtain k1 where "println b1 k = Inr k1" "println (b2 k1) k1 = Inr k'" using assms(1) by (auto dest!: obind_eq_InrD)
  then show ?thesis using boot_inv_print(2)[of b1 k k1 X] boot_inv_print(2)[of "b2 k1" k1 k' X] assms(2) by simp
qed

lemma kernel_main_ok:
  assumes "x86_laws X" "bootloader_ok X B pt" "image_fits (INIT_ELF B)"
    "kernel_main X G B irqs (kernel_static pt r m) = Inr (Some (b, rest))"
  shows "kernel_ok X 0 (bt_kernel b)"
proof -
  obtain k1 k2 k3 k4 k5 r5 k6 k7 k8 k9 where p:
    "boot_memory X B (kernel_static pt r m) = Inr k1" "boot_report k1 = Inr k2" "frame_test k2 = Inr k3" "heap_test B k3 = Inr k4"
    "wait_ticks 1 irqs k4 = Inr (Some (k5, r5))" "timer_report k5 = Inr k6"
    "wait_for_keys (kbd_ports B) r5 k6 = Inr (Some (k7, rest))" "println syscalls_banner k7 = Inr k8"
    "boot_user X B k8 = Inr k9" "start_init B k9 = Inr (bt_kernel b)"
    by (rule kernel_main_phases[OF assms(4)])
  have "boot_inv X k1" by (rule boot_memory_boot[OF assms(1,2) p(1)])
  then have "boot_inv X k2" using p(2) unfolding boot_report_def by (rule boot_inv_println2[rotated])
  then have "boot_inv X k3" using p(3) by (rule frame_test_boot)
  then have "boot_inv X k4" using boot_inv_print(2)[OF p(4)[unfolded heap_test_def]] by blast
  then have "boot_inv X k5" using p(5) unfolding wait_ticks_def by (rule wait_loop_boot)
  then have "boot_inv X k6" using p(6) unfolding timer_report_def by (rule boot_inv_println2[rotated])
  moreover have "keyboard_window (ticks k6 + ucast TIMER_HZ * 2) (kbd_ports B) r5 k6 = Inr (Some (k7, rest))"
    using p(7) by (auto simp: wait_for_keys_def Let_def split: if_splits)
  ultimately have "boot_inv X k7" by (rule keyboard_window_boot)
  then have "boot_inv X k8" using boot_inv_print(2)[OF p(8)] by blast
  then have "boot_inv X k9" using boot_user_boot[OF assms(1) _ assms(3) p(9)] by blast
  then show ?thesis using start_init_kernel p(10) by blast
qed

end
