(* ===== verification/Rock_Boot_Run.thy ===== *)
theory Rock_Boot_Run
  imports Rock_Boot
begin

text \<open>
  A boot that completes: on the page tables of \<open>map_x86\<close>, with memory for the heap and the program,
  enough timer interrupts and no key pressed, \<open>kernel_main\<close> reaches user mode.
\<close>

section \<open>The heap's pages\<close>

lemma heap_page_unat: "i < 64 \<Longrightarrow> unat (heap_page i) = 0x444444440000 + i * 4096"
proof -
  assume i: "i < 64"
  have "heap_page i = of_nat (0x444444440000 + i * 4096)" by (simp add: heap_page_def rock_consts)
  then show ?thesis using i unat_of_nat_u64[of "0x444444440000 + i * 4096"] by simp
qed

lemma heap_page_inj: "i < 64 \<Longrightarrow> j < 64 \<Longrightarrow> heap_page i = heap_page j \<longleftrightarrow> i = j"
  using heap_page_unat[of i] heap_page_unat[of j] by (metis add_left_cancel mult_cancel2 zero_neq_numeral)

lemma heap_page_aligned: "i < 64 \<Longrightarrow> page_aligned (heap_page i)"
  using heap_page_unat[of i] by (simp add: page_aligned_def PAGE_SIZE_def)

lemma heap_page_not_user: "i < 64 \<Longrightarrow> \<not> user_window (heap_page i)"
  using heap_page_unat[of i] by (simp add: user_window_def USER_MMAP_LIMIT_def word_less_nat_alt)

lemma allocate_free:
  assumes "falloc_ok fa" "0 < card (free_addrs fa)"
  obtains f fa' where "allocate_frame_inner fa = (Some f, fa')" "falloc_ok fa'" "card (free_addrs fa') = card (free_addrs fa) - 1"
proof -
  obtain r fa' where a: "allocate_frame_inner fa = (r, fa')" by force
  have "r \<noteq> None" using allocate_frame_inner_None[of fa fa'] assms a by fastforce
  then obtain f where f: "allocate_frame_inner fa = (Some f, fa')" using a by auto
  from allocate_frame_inner_Some[OF assms(1) f] have "falloc_ok fa'" "card (free_addrs fa') = card (free_addrs fa) - 1"
    by (auto simp: card_Diff_singleton)
  with f show thesis by (rule that)
qed

lemma heap_loop_maps:
  assumes "x86_laws X" "falloc_ok (snd s)" "distinct is" "\<forall>i \<in> set is. i < 64" "heap_loop X is s = Inr s'"
  shows "\<exists>g. inj_on g (set is)
    \<and> (\<forall>i \<in> set is. translate X (fst s) (heap_page i) = None \<and> translate X (fst s') (heap_page i) = Some (g i)
         \<and> g i \<in> free_addrs (snd s) - free_addrs (snd s'))
    \<and> (\<forall>pg. page_aligned pg \<longrightarrow> pg \<notin> heap_page ` set is \<longrightarrow> translate X (fst s') pg = translate X (fst s) pg)
    \<and> free_addrs (snd s') \<subseteq> free_addrs (snd s)"
  using assms(2-5)
proof (induction "is" arbitrary: s)
  case (Cons i "is")
  obtain s1 where s1: "map_one X heap_flags (page_of X (heap_page i)) s = (True, s1)" "heap_loop X is s1 = Inr s'"
    by (rule heap_loop_step[OF Cons.prems(4)])
  have i: "i < 64" "i \<notin> set is" using Cons.prems by auto
  note al = heap_page_aligned[OF i(1)]
  have "map_one X heap_flags (heap_page i) (fst s, snd s) = (True, fst s1, snd s1)" using s1(1) page_of_id[OF assms(1) al] by simp
  note m = map_one_spec[OF assms(1) al Cons.prems(1) this]
  obtain f where f: "translate X (fst s) (heap_page i) = None" "f \<in> free_addrs (snd s) - free_addrs (snd s1)"
    "\<And>pg. page_aligned pg \<Longrightarrow> translate X (fst s1) pg = (if pg = heap_page i then Some f else translate X (fst s) pg)"
    using m(4) by auto
  have "distinct is" "\<forall>i \<in> set is. i < 64" using Cons.prems by auto
  from Cons.IH[OF m(1) this s1(2)] obtain g where g: "inj_on g (set is)"
    "\<And>j. j \<in> set is \<Longrightarrow> translate X (fst s1) (heap_page j) = None \<and> translate X (fst s') (heap_page j) = Some (g j)
       \<and> g j \<in> free_addrs (snd s1) - free_addrs (snd s')"
    "\<And>pg. page_aligned pg \<Longrightarrow> pg \<notin> heap_page ` set is \<Longrightarrow> translate X (fst s') pg = translate X (fst s1) pg"
    "free_addrs (snd s') \<subseteq> free_addrs (snd s1)" by blast
  have ne: "heap_page j \<noteq> heap_page i" "page_aligned (heap_page j)" if "j \<in> set is" for j
    using that i Cons.prems(3) heap_page_inj[of j i] heap_page_aligned[of j] by auto
  let ?g = "g(i := f)"
  have inj: "inj_on ?g (set (i # is))" using g(1,2) f(2) i(2) by (auto simp: inj_on_def)
  have "translate X (fst s') (heap_page i) = Some f" using g(3)[OF al] ne f(3)[OF al] by fastforce
  moreover have "translate X (fst s) (heap_page j) = None" if "j \<in> set is" for j using g(2)[OF that] f(3)[OF ne(2)[OF that]] ne(1)[OF that] by simp
  ultimately show ?case using f g(2-4) m(2) i(2) by (intro exI[of _ ?g] conjI inj) (auto split: if_splits)
qed simp

text \<open>
  (C24) When the heap set-up succeeds, each of the 64 pages of the heap, all unmapped before, is mapped to
  a frame of its own that was free and is no longer, and no other page changes.
\<close>

theorem heap_init_maps:
  assumes "x86_laws X" "kvm_ok X k" "heap_init X k = Inr k'"
  shows "\<exists>g. inj_on g {..<64}
    \<and> (\<forall>i < 64. tr X k (heap_page i) = None \<and> tr X k' (heap_page i) = Some (g i)
         \<and> g i \<in> free_addrs (snd (kvm k)) - free_addrs (snd (kvm k')))
    \<and> (\<forall>pg. page_aligned pg \<longrightarrow> pg \<notin> heap_page ` {..<64} \<longrightarrow> tr X k' pg = tr X k pg)"
proof -
  obtain fa where fa: "lock_allocator (mem k) = Some fa" "falloc_ok fa" using assms(2) by (auto simp: kvm_ok_def vm_ok_def kvm_def)
  obtain s where s: "heap_loop X [0..<64] (page_table k, fa) = Inr s" "k' = set_kvm s k"
    using assms(3) fa(1) by (auto simp: heap_init_def set_kvm_def HEAP_PAGES_def dest!: obind_eq_InrD)
  have "set [0..<64] = {..<64 :: nat}" by auto
  then show ?thesis using heap_loop_maps[OF assms(1) _ _ _ s(1)] fa unfolding s(2)
    by (simp add: kvm_def set_kvm_def Ball_def) blast
qed

lemma heap_loop_map_x86:
  assumes "falloc_ok fa" "length is \<le> card (free_addrs fa)" "distinct is" "\<forall>i \<in> set is. i < 64 \<and> pt (heap_page i) = None"
  shows "\<exists>pt' fa'. heap_loop map_x86 is (pt, fa) = Inr (pt', fa') \<and> card (free_addrs fa') = card (free_addrs fa) - length is
    \<and> (\<forall>v. user_window v \<longrightarrow> pt' v = pt v)"
  using assms
proof (induction "is" arbitrary: pt fa)
  case (Cons i "is")
  obtain f fa1 where f: "allocate_frame_inner fa = (Some f, fa1)" "falloc_ok fa1" "card (free_addrs fa1) = card (free_addrs fa) - 1"
    using allocate_free[OF Cons.prems(1)] Cons.prems(2) by auto
  have i: "i < 64" "pt (heap_page i) = None" using Cons.prems(4) by auto
  let ?pt = "pt(heap_page i := Some f)"
  have "\<forall>j \<in> set is. j < 64 \<and> ?pt (heap_page j) = None" using Cons.prems(3,4) i(1) heap_page_inj[of _ i] by auto
  moreover have "length is \<le> card (free_addrs fa1)" "distinct is" using Cons.prems(2,3) f(3) by simp_all
  ultimately obtain pt' fa' where r: "heap_loop map_x86 is (?pt, fa1) = Inr (pt', fa')"
    "card (free_addrs fa') = card (free_addrs fa1) - length is" "\<forall>v. user_window v \<longrightarrow> pt' v = ?pt v"
    using Cons.IH[OF f(2), of ?pt] by blast
  have "virt_new map_x86 (heap_page i)" using heap_page_unat[OF i(1)] i(1) by (simp add: map_x86_def)
  moreover have "map_to map_x86 pt (page_of map_x86 (heap_page i)) f heap_flags fa1 = (None, ?pt, fa1)"
    using page_floor_id[OF heap_page_aligned[OF i(1)]] i(2) by (simp add: map_x86_def)
  ultimately have "heap_loop map_x86 (i # is) (pt, fa) = Inr (pt', fa')"
    using f(1) r(1) by (simp add: Let_def heap_page_def)
  then show ?case using r(2,3) f(3) heap_page_not_user[OF i(1)] by auto
qed simp

section \<open>The phases\<close>

text \<open>
  The state between two phases: the writer is in order, \<open>n\<close> frames are free, nothing is mapped for the
  user yet, and the clock shows \<open>t\<close>.
\<close>

definition at_phase :: "nat \<Rightarrow> nat \<Rightarrow> (u64 \<Rightarrow> u64 option) kernel \<Rightarrow> bool" where
  "at_phase n t k \<longleftrightarrow> writer_ok (WRITER k) \<and> boot_inv map_x86 k \<and> n \<le> card (free_addrs (snd (kvm k)))
     \<and> (\<forall>pg. user_window pg \<longrightarrow> page_table k pg = None) \<and> TICKS k = of_nat t
     \<and> SCANCODE_QUEUE k = ScancodeQueue_new \<and> SCHED k = None"

lemma at_phaseD:
  assumes "at_phase n t k"
  obtains fa where "lock_allocator (mem k) = Some fa" "falloc_ok fa" "n \<le> card (free_addrs fa)" "window_ok map_x86 k" "kvm_ok map_x86 k"
proof -
  have "kvm_ok map_x86 k" "window_ok map_x86 k" using assms by (simp_all add: at_phase_def boot_inv_def mem_inv_def)
  moreover from this(1) obtain fa where "lock_allocator (mem k) = Some fa" "falloc_ok fa" "snd (kvm k) = fa"
    by (auto simp: kvm_ok_def vm_ok_def kvm_def)
  ultimately show thesis using that assms by (auto simp: at_phase_def)
qed

lemma at_phase_println:
  assumes "at_phase n t k"
  obtains k' where "println bs k = Inr k'" "at_phase n t k'"
proof -
  obtain w s where p: "println bs k = Inr (k\<lparr>WRITER := w, SERIAL1 := s\<rparr>)" "writer_ok w"
    using println_ok[of k bs] assms by (auto simp: at_phase_def)
  have "at_phase n t (k\<lparr>WRITER := w, SERIAL1 := s\<rparr>)"
    using assms p(2) boot_inv_print(2)[OF p(1), of map_x86] by (simp add: at_phase_def kvm_def)
  then show thesis using p(1) that by blast
qed

lemma at_phase_memory:
  assumes "at_phase n t k" "lock_allocator (mem k) = Some fa" "falloc_ok fa'" "free_addrs fa' = free_addrs fa"
  shows "at_phase n t (k\<lparr>mem := unlock_allocator fa' (mem k)\<rparr>)"
proof -
  have v: "vm_ok map_x86 (page_table k, fa)" "kvm k = (page_table k, fa)"
    using assms(1,2) by (simp_all add: at_phase_def boot_inv_def mem_inv_def kvm_ok_def kvm_def)
  have e: "k\<lparr>mem := unlock_allocator fa' (mem k)\<rparr> = set_kvm (page_table k, fa') k" by (simp add: set_kvm_def)
  have "vm_ok map_x86 (page_table k, fa')" using vm_ok_falloc[OF v(1) assms(3)] assms(4) by simp
  then have "boot_inv map_x86 (set_kvm (page_table k, fa') k)"
    using assms(1) by (intro boot_inv_mem_change[OF _ mem_change_set_kvm]) (simp_all add: at_phase_def kvm_ok_set)
  then show ?thesis using assms(1,4) v(2) unfolding e by (simp add: at_phase_def kvm_def set_kvm_def)
qed

lemma at_phase_println2:
  assumes "at_phase n t k"
  shows "\<exists>k'. obind (println b1 k) (\<lambda>k. println (b2 k) k) = Inr k' \<and> at_phase n t k'"
proof -
  obtain k1 where k1: "println b1 k = Inr k1" "at_phase n t k1" by (rule at_phase_println[OF assms])
  obtain k2 where "println (b2 k1) k1 = Inr k2" "at_phase n t k2" by (rule at_phase_println[OF k1(2)])
  with k1(1) show ?thesis by simp
qed

lemma boot_report_phase: "at_phase n t k \<Longrightarrow> \<exists>k'. boot_report k = Inr k' \<and> at_phase n t k'"
  unfolding boot_report_def by (rule at_phase_println2)

lemma heap_test_phase: "at_phase n t k \<Longrightarrow> \<exists>k'. heap_test B k = Inr k' \<and> at_phase n t k'"
  unfolding heap_test_def by (erule at_phase_println) blast

lemma timer_report_phase: "at_phase n t k \<Longrightarrow> \<exists>k'. timer_report k = Inr k' \<and> at_phase n t k'"
  unfolding timer_report_def by (rule at_phase_println2)

lemma frame_test_phase:
  assumes "at_phase n t k" "2 \<le> n"
  shows "\<exists>k'. frame_test k = Inr k' \<and> at_phase n t k'"
proof -
  obtain fa where fa: "lock_allocator (mem k) = Some fa" "falloc_ok fa" "n \<le> card (free_addrs fa)" by (rule at_phaseD[OF assms(1)])
  obtain a fa1 where a: "allocate_frame_inner fa = (Some a, fa1)" "falloc_ok fa1" "card (free_addrs fa1) = card (free_addrs fa) - 1"
    using allocate_free[OF fa(2)] fa(3) assms(2) by auto
  have "0 < card (free_addrs fa1)" using a(3) fa(3) assms(2) by simp
  then obtain b fa2 where b: "allocate_frame_inner fa1 = (Some b, fa2)" using allocate_free[OF a(2)] by blast
  let ?m = "unlock_allocator fa2 (mem k)" and ?fb = "deallocate_frame_inner b (deallocate_frame_inner a fa2)"
  have f: "falloc_ok ?fb" "free_addrs ?fb = free_addrs fa" using frame_test_fa(2)[OF fa(2) a(1) b refl refl] by auto
  have al: "allocate_frame (mem k) = (Some a, unlock_allocator fa1 (mem k))" "allocate_frame (unlock_allocator fa1 (mem k)) = (Some b, ?m)"
    using fa(1) a(1) b by (simp_all add: allocate_frame_def)
  have w: "writer_ok (WRITER (k\<lparr>mem := ?m\<rparr>))" using assms(1) by (simp add: at_phase_def)
  obtain bs where bs: "frame_test k = obind (println bs (k\<lparr>mem := ?m\<rparr>)) (\<lambda>k.
      let k = k\<lparr>mem := deallocate_frame b (deallocate_frame a (mem k))\<rparr> in
      println (bytes_of ''Frame alloc restored, free='' @ fmt_dec (unat (free_frames (mem k)))) k)"
    using al by (simp add: frame_test_def Let_def)
  obtain w1 s1 where p: "println bs (k\<lparr>mem := ?m\<rparr>) = Inr (k\<lparr>mem := ?m, WRITER := w1, SERIAL1 := s1\<rparr>)" "writer_ok w1"
    using println_ok[OF w, of bs] by auto
  have e: "deallocate_frame b (deallocate_frame a ?m) = unlock_allocator ?fb (mem k)" by (simp add: deallocate_frame_def)
  have k1: "at_phase n t (k\<lparr>WRITER := w1, SERIAL1 := s1\<rparr>)"
    using assms(1) p(2) boot_inv_edit[of k "k\<lparr>WRITER := w1, SERIAL1 := s1\<rparr>" map_x86] by (simp add: at_phase_def kvm_def sched_edit_def)
  have "at_phase n t (k\<lparr>WRITER := w1, SERIAL1 := s1, mem := unlock_allocator ?fb (mem k)\<rparr>)"
    using at_phase_memory[OF k1 _ f] fa(1) by simp
  then obtain k' where "println (bytes_of ''Frame alloc restored, free='' @ fmt_dec (unat (free_frames (unlock_allocator ?fb (mem k)))))
      (k\<lparr>WRITER := w1, SERIAL1 := s1, mem := unlock_allocator ?fb (mem k)\<rparr>) = Inr k'" "at_phase n t k'"
    by (rule at_phase_println)
  then show ?thesis using bs p(1) e by (simp add: Let_def)
qed

lemma timer_phase:
  assumes "at_phase n t k" "Suc t < 2 ^ 64"
  shows "\<exists>k'. handle_irq Timer k = Inr k' \<and> at_phase n (Suc t) k'"
proof -
  have "unat (TICKS k) = t" using assms by (simp add: at_phase_def unat_of_nat_u64)
  then have "TICKS k \<noteq> - 1" using ticks_not_max[of "TICKS k"] assms(2) by simp
  then have h: "handle_irq Timer k = Inr (k\<lparr>TICKS := TICKS k + 1\<rparr>)"
    using assms(1) by (simp add: timer_interrupt_handler_def Let_def on_timer_tick_def at_phase_def)
  have "boot_inv map_x86 (k\<lparr>TICKS := TICKS k + 1\<rparr>)" using handle_irq_boot[OF _ h] assms(1) by (simp add: at_phase_def)
  then show ?thesis using h assms(1) by (simp add: at_phase_def kvm_def add.commute)
qed

lemma wait_one_phase:
  assumes "at_phase n 0 k"
  shows "\<exists>k'. wait_ticks 1 (Timer # irqs) k = Inr (Some (k', irqs)) \<and> at_phase n 1 k'"
proof -
  obtain k1 where k1: "handle_irq Timer k = Inr k1" "at_phase n 1 k1" using timer_phase[OF assms] by auto
  have t: "ticks k = 0" "ticks k1 = 1" using assms k1(2) by (simp_all add: at_phase_def ticks_def)
  have "wait_loop 0 1 irqs k1 = Inr (Some (k1, irqs))" using t(2) by (cases irqs) (simp_all add: saturating_sub_def)
  then show ?thesis using k1 t(1) by (auto simp: wait_ticks_def saturating_sub_def)
qed

lemma no_key: "read_scancode 0 0 ScancodeQueue_new = (None, ScancodeQueue_new)"
  by (simp add: read_scancode_def pop_scancode_def try_pop_def ScancodeQueue_new_def read_scancode_poll_port_def rock_consts)

lemma keyboard_window_phase:
  assumes "at_phase n t k" "t + m < 2 ^ 64 - 1" "until = of_nat (t + m)"
  shows "\<exists>k'. keyboard_window until (replicate m (0, 0)) (replicate m Timer) k = Inr (Some (k', [])) \<and> at_phase n (t + m) k'"
  using assms
proof (induction m arbitrary: t k)
  case 0
  then have "ticks k = until" by (simp add: at_phase_def ticks_def)
  then show ?case using 0 by auto
next
  case (Suc m)
  have "unat (ticks k) = t" using Suc.prems by (simp add: at_phase_def ticks_def unat_of_nat_u64)
  moreover have "unat until = t + Suc m" unfolding Suc.prems(3) using Suc.prems(2) by (intro unat_of_nat_u64) simp
  ultimately have lt: "ticks k < until" by (simp add: word_less_nat_alt)
  have d: "drain_keys (replicate (Suc m) (0, 0)) k = Inr (Some (replicate m (0, 0), k\<lparr>SCANCODE_QUEUE := ScancodeQueue_new\<rparr>))"
    using Suc.prems(1) no_key by (simp add: at_phase_def)
  have q: "k\<lparr>SCANCODE_QUEUE := ScancodeQueue_new\<rparr> = k" using Suc.prems(1) by (simp add: at_phase_def)
  obtain k1 where k1: "handle_irq Timer k = Inr k1" "at_phase n (Suc t) k1"
    using timer_phase[OF Suc.prems(1)] Suc.prems(2) by auto
  have "Suc t + m < 2 ^ 64 - 1" "until = of_nat (Suc t + m)" using Suc.prems(2,3) by simp_all
  from Suc.IH[OF k1(2) this] obtain k' where
    "keyboard_window until (replicate m (0, 0)) (replicate m Timer) k1 = Inr (Some (k', []))" "at_phase n (Suc t + m) k'" by blast
  then show ?case using lt d k1(1) unfolding q by (simp del: drain_keys.simps)
qed

section \<open>The whole boot\<close>

definition demo_boot :: boot_env where
  "demo_boot = \<lparr>physical_memory_offset = 0,
     memory_map = [\<lparr>region_usable = True, start_frame_number = 1, end_frame_number = 101\<rparr>],
     screen = replicate 2000 (0, 0), heap_demo = HEAP_START, mask_in = 0xFF, syscall_entry_addr = 0x201000,
     init_stack = 0x210000, init_box = 0x444444441000, INIT_ELF = demo_elf, kbd_ports = replicate 200 (0, 0)\<rparr>"

definition demo_pt :: "u64 \<Rightarrow> u64 option" where
  "demo_pt pg = (if pg = 0xb8000 then Some 0xb8000 else None)"

lemma demo_bootloader: "bootloader_ok map_x86 demo_boot demo_pt"
proof -
  have "translate map_x86 demo_pt pg = None" if "user_window pg" for pg
  proof -
    have "pg \<noteq> 0xb8000" using that by (auto simp: user_window_def USER_TEXT_BASE_def)
    then show ?thesis using page_floor_id[of pg] that by (simp add: map_x86_def demo_pt_def user_window_def)
  qed
  then show ?thesis by (simp add: bootloader_ok_def demo_boot_def add_ok_def map_x86_def rock_consts)
qed

lemma demo_boot_frames: "boot_frames (memory_map demo_boot) = {1..<101}"
proof (rule set_eqI)
  have m: "memory_map demo_boot = [\<lparr>region_usable = True, start_frame_number = 1, end_frame_number = 101\<rparr>]"
    by (simp add: demo_boot_def)
  show "f \<in> boot_frames (memory_map demo_boot) \<longleftrightarrow> f \<in> {1..<101}" for f
    unfolding m boot_frames_def region_frames_def by (simp add: rock_consts) linarith
qed

lemma demo_boot_card: "card (free_addrs (boot_falloc (memory_map demo_boot))) = 100"
proof -
  have "inj_on frame_addr {1..<101}"
    by (rule inj_on_subset[OF frame_addr_inj]) (simp add: rock_consts subset_iff)
  then show ?thesis using boot_falloc_ok[of "memory_map demo_boot"] by (simp only: free_addrs_def demo_boot_frames card_image card_atLeastLessThan)
qed

lemma demo_paging: "PHYSICAL_MEMORY_OFFSET m = 0 \<Longrightarrow> paging_init map_x86 m demo_pt = Inr ()"
proof -
  assume o: "PHYSICAL_MEMORY_OFFSET m = 0"
  have "page_aligned 0xb8000" by (simp add: page_aligned_def PAGE_SIZE_def)
  then have "translate map_x86 demo_pt 0xb8000 = Some 0xb8000"
    by (simp add: map_x86_def page_floor_id demo_pt_def page_aligned_def)
  moreover have "virt_new map_x86 0xb8000" by (simp add: map_x86_def)
  ultimately show ?thesis using o by (simp add: paging_init_def phys_to_virt_def add_ok_def)
qed

lemma boot_memory_phase:
  "\<exists>k. boot_memory map_x86 demo_boot (kernel_static demo_pt r m) = Inr k \<and> at_phase 36 0 k"
proof -
  let ?k = "(kernel_static demo_pt r m)\<lparr>mem := memory_init (physical_memory_offset demo_boot) (memory_map demo_boot) memory_static\<rparr>"
  let ?fa = "boot_falloc (memory_map demo_boot)"
  have l: "lock_allocator (mem ?k) = Some ?fa" "PHYSICAL_MEMORY_OFFSET (mem ?k) = 0" "page_table ?k = demo_pt"
    "mem (kernel_static demo_pt r m) = memory_static"
    by (simp_all add: memory_init_def lock_allocator_def boot_falloc_def kernel_static_def demo_boot_def split: prod.splits)
  have hp: "\<forall>i \<in> set [0..<HEAP_PAGES]. i < 64 \<and> demo_pt (heap_page i) = None"
  proof
    fix i assume "i \<in> set [0..<HEAP_PAGES]"
    then have i: "i < 64" by (simp add: rock_consts)
    then have "heap_page i \<noteq> 0xb8000" using heap_page_unat[OF i] by auto
    then show "i < 64 \<and> demo_pt (heap_page i) = None" using i by (simp add: demo_pt_def)
  qed
  obtain pt fa where h: "heap_loop map_x86 [0..<HEAP_PAGES] (demo_pt, ?fa) = Inr (pt, fa)" "card (free_addrs fa) = 36"
    "\<forall>v. user_window v \<longrightarrow> pt v = demo_pt v"
    using heap_loop_map_x86[OF _ _ distinct_upt hp, of ?fa] boot_falloc_ok[of "memory_map demo_boot"] demo_boot_card
    by (auto simp: rock_consts)
  let ?k1 = "?k\<lparr>page_table := pt, mem := unlock_allocator fa (mem ?k)\<rparr>"
  let ?k2 = "?k1\<lparr>WRITER := vga_init (screen demo_boot)\<rparr>"
  have "heap_init map_x86 ?k = Inr ?k1" using l h(1) by (simp add: heap_init_def)
  then have b: "boot_memory map_x86 demo_boot (kernel_static demo_pt r m) = Inr ?k2"
    using demo_paging[OF l(2)] l(3,4) by (simp add: boot_memory_def Let_def)
  have nu: "demo_pt pg = None" if "user_window pg" for pg
    using that by (auto simp: demo_pt_def user_window_def USER_TEXT_BASE_def word_le_nat_alt)
  have "writer_ok (vga_init (screen demo_boot))" by (simp add: writer_ok_def vga_init_def VgaWriter_new_def vga_ok_def demo_boot_def)
  then have "at_phase 36 0 ?k2"
    using boot_memory_boot[OF map_x86_laws demo_bootloader b] h(2,3) nu
    by (simp add: at_phase_def kvm_def kernel_static_def)
  then show ?thesis using b by blast
qed

theorem heap_init_maps_witness:
  "\<exists>k k'. heap_init map_x86 k = Inr k' \<and> tr map_x86 k (heap_page 0) = None \<and> tr map_x86 k' (heap_page 0) \<noteq> None
    \<and> tr map_x86 k' (heap_page 0) \<noteq> tr map_x86 k' (heap_page 63)"
proof -
  let ?k = "(kernel_static demo_pt (\<lambda>_. 0) demo_machine)\<lparr>mem := memory_init (physical_memory_offset demo_boot) (memory_map demo_boot) memory_static\<rparr>"
  have ok: "kvm_ok map_x86 ?k" using memory_init_boot[OF demo_bootloader] by (simp add: boot_inv_def mem_inv_def)
  have "mem (kernel_static demo_pt (\<lambda>_. 0) demo_machine) = memory_static" by (simp add: kernel_static_def)
  then obtain k' where k': "heap_init map_x86 ?k = Inr k'"
    using boot_memory_phase[of "\<lambda>_. 0" demo_machine] by (auto simp: boot_memory_def Let_def dest!: obind_eq_InrD)
  from heap_init_maps[OF map_x86_laws ok k'] obtain g where g: "inj_on g {..<64 :: nat}"
    "\<And>i. i < 64 \<Longrightarrow> tr map_x86 ?k (heap_page i) = None \<and> tr map_x86 k' (heap_page i) = Some (g i)" by blast
  have "g 0 \<noteq> g 63" using inj_onD[OF g(1), of 0 63] by auto
  then show ?thesis using k' g(2)[of 0] g(2)[of 63] by (intro exI[of _ ?k] exI[of _ k']) simp
qed

lemma boot_user_phase:
  assumes "at_phase 36 t k"
  shows "\<exists>k'. boot_user map_x86 demo_boot k = Inr k' \<and> writer_ok (WRITER k')"
proof -
  obtain fa where fa: "lock_allocator (mem k) = Some fa" "falloc_ok fa" "36 \<le> card (free_addrs fa)"
    "window_ok map_x86 k" "kvm_ok map_x86 k" by (rule at_phaseD[OF assms])
  obtain f fa1 where f: "allocate_frame_inner fa = (Some f, fa1)" "falloc_ok fa1" "card (free_addrs fa1) = card (free_addrs fa) - 1"
    using allocate_free[OF fa(2)] fa(3) by auto
  have pg: "page_table k 0x401000 = None" "page_table k 0x400000 = None"
    using assms by (simp_all add: at_phase_def user_window_def page_aligned_def rock_consts)
  have pf: "page_floor 0x401fff = 0x401000" by (simp add: page_floor_def page_at_def PAGE_SIZE_def)
  let ?k1 = "k\<lparr>page_table := (page_table k)(0x401000 := Some f), mem := unlock_allocator fa1 (mem k)\<rparr>"
  have s: "map_user_stack map_x86 k = Inr ?k1"
    using fa(1) f(1) pg(1) pf by (simp add: map_user_stack_def map_fresh_page_def map_x86_def USER_STACK_TOP_def)
  have "window_ok map_x86 ?k1" using fa(4) window_ok_cong[of ?k1 k map_x86] by (simp add: unlock_allocator_def)
  moreover have "free_addrs fa1 \<noteq> {}" using f(3) fa(3) by fastforce
  ultimately obtain meta k2 where ld: "load_elf_mapped map_x86 demo_elf 0 ?k1 = Inr (Inr (0x400078, meta), k2)"
    using demo_elf_loads[of ?k1 fa1] f(2) pg(2) by auto
  have "WRITER k2 = WRITER k" using ld by (auto simp: load_elf_mapped_def Let_def split: option.splits dest!: obind_eq_InrD)
  then have w: "writer_ok (WRITER (set_user_entry 0x400078 (apply_user_meta meta k2)))"
    using assms by (simp add: at_phase_def set_user_entry_def apply_user_meta_def set_user_rw_image_start_def set_user_image_end_def)
  have "load_elf map_x86 (INIT_ELF demo_boot) 0 ?k1 = Inr (Inr 0x400078, apply_user_meta meta k2)"
    using ld by (simp add: load_elf_def demo_boot_def)
  then show ?thesis using s println_ok[OF w] by (fastforce simp: boot_user_def)
qed

lemma demo_boots:
  "\<exists>b. kernel_main map_x86 slot_segments demo_boot (Timer # replicate 200 Timer) (kernel_static demo_pt r m) = Inr (Some (b, []))"
proof -
  obtain k1 where k1: "boot_memory map_x86 demo_boot (kernel_static demo_pt r m) = Inr k1" "at_phase 36 0 k1" using boot_memory_phase by blast
  obtain k2 where k2: "boot_report k1 = Inr k2" "at_phase 36 0 k2" using boot_report_phase[OF k1(2)] by blast
  obtain k3 where k3: "frame_test k2 = Inr k3" "at_phase 36 0 k3" using frame_test_phase[OF k2(2)] by auto
  obtain k4 where k4: "heap_test demo_boot k3 = Inr k4" "at_phase 36 0 k4" using heap_test_phase[OF k3(2)] by blast
  obtain k5 where k5: "wait_ticks 1 (Timer # replicate 200 Timer) k4 = Inr (Some (k5, replicate 200 Timer))" "at_phase 36 1 k5"
    using wait_one_phase[OF k4(2)] by blast
  obtain k6 where k6: "timer_report k5 = Inr k6" "at_phase 36 1 k6" using timer_report_phase[OF k5(2)] by blast
  have t: "ticks k6 = 1" using k6(2) by (simp add: at_phase_def ticks_def)
  have "ucast TIMER_HZ * 2 = (200 :: u64)" by (simp add: TIMER_HZ_def)
  then obtain k7 where k7: "wait_for_keys (kbd_ports demo_boot) (replicate 200 Timer) k6 = Inr (Some (k7, []))" "at_phase 36 201 k7"
    using keyboard_window_phase[OF k6(2), of 200 201] t by (auto simp: wait_for_keys_def demo_boot_def add_ok_def)
  obtain k8 where k8: "println syscalls_banner k7 = Inr k8" "at_phase 36 201 k8" by (rule at_phase_println[OF k7(2)])
  obtain msrs where ms: "syscall_init slot_segments (syscall_entry_addr demo_boot) = Inr msrs"
    by (auto simp: syscall_init_def slot_segments_def GDT_def Let_def)
  obtain k9 where k9: "boot_user map_x86 demo_boot k8 = Inr k9" "writer_ok (WRITER k9)" using boot_user_phase[OF k8(2)] by blast
  let ?k = "process_init (init_stack demo_boot) (init_box demo_boot) k9"
  obtain p where p: "current_pid ?k = Inr p" using process_init_current[of "init_stack demo_boot" "init_box demo_boot" k9] current_pid_eq by blast
  have "writer_ok (WRITER (scheduler_init ?k))" using k9(2) by (simp add: scheduler_init_def process_init_def Let_def)
  from println_ok[OF this] obtain k10 where "start_init demo_boot k9 = Inr k10" using p by (fastforce simp: start_init_def Let_def)
  then show ?thesis using k1(1) k2(1) k3(1) k4(1) k5(1) k6(1) k7(1) k8(1) ms k9(1) by (simp add: kernel_main_def)
qed

end
