(* ===== verification/Rock_Return.thy ===== *)
theory Rock_Return
  imports Rock_Boot_Run
begin

text \<open>
  What the caller of a system call sees: the handlers leave the caller's frame alone, the tail saves it
  and resumes a task, and the caller, when it runs again, continues behind its call with the result.
\<close>

section \<open>Handlers leave the frame alone\<close>

definition frame_kept :: "'pt kernel \<Rightarrow> 'pt kernel \<Rightarrow> bool" where
  "frame_kept k k' \<longleftrightarrow> cpu k' = cpu k \<and> CURRENT_SLOT k' = CURRENT_SLOT k"

lemma frame_kept_refl [simp]: "frame_kept k k"
  by (simp add: frame_kept_def)

lemma frame_kept_trans [trans]: "frame_kept k k1 \<Longrightarrow> frame_kept k1 k2 \<Longrightarrow> frame_kept k k2"
  by (simp add: frame_kept_def)

lemma frame_kept_fields [simp]:
  "frame_kept k (k'\<lparr>ram := r\<rparr>) \<longleftrightarrow> frame_kept k k'" "frame_kept k (k'\<lparr>TTY := y\<rparr>) \<longleftrightarrow> frame_kept k k'"
  "frame_kept k (k'\<lparr>FILES := fs\<rparr>) \<longleftrightarrow> frame_kept k k'" "frame_kept k (k'\<lparr>NEXT_FD := d\<rparr>) \<longleftrightarrow> frame_kept k k'"
  "frame_kept k (k'\<lparr>NEXT_MMAP := d\<rparr>) \<longleftrightarrow> frame_kept k k'" "frame_kept k (k'\<lparr>SERIAL1 := s\<rparr>) \<longleftrightarrow> frame_kept k k'"
  "frame_kept k (k'\<lparr>STDIN_NONBLOCK := b\<rparr>) \<longleftrightarrow> frame_kept k k'" "frame_kept k (k'\<lparr>TABLE := t\<rparr>) \<longleftrightarrow> frame_kept k k'"
  "frame_kept k (k'\<lparr>SCHED := s'\<rparr>) \<longleftrightarrow> frame_kept k k'" "frame_kept k (k'\<lparr>NEED_RESCHED := b\<rparr>) \<longleftrightarrow> frame_kept k k'"
  "frame_kept k (k'\<lparr>VM_AREA_NEXT_ID := d\<rparr>) \<longleftrightarrow> frame_kept k k'" "frame_kept k (k'\<lparr>page_table := p\<rparr>) \<longleftrightarrow> frame_kept k k'"
  "frame_kept k (k'\<lparr>mem := m\<rparr>) \<longleftrightarrow> frame_kept k k'" "frame_kept k (k'\<lparr>USER_ENTRY_RIP := d\<rparr>) \<longleftrightarrow> frame_kept k k'"
  "frame_kept k (update_slot i f k') \<longleftrightarrow> frame_kept k k'"
  by (simp_all add: frame_kept_def)

lemma frame_kept_before [simp]:
  "frame_kept (k\<lparr>NEXT_MMAP := d\<rparr>) k' \<longleftrightarrow> frame_kept k k'" "frame_kept (update_slot i f k) k' \<longleftrightarrow> frame_kept k k'"
  by (simp_all add: frame_kept_def)

lemma handle_irq_frame: "handle_irq i k = Inr k' \<Longrightarrow> frame_kept k k'"
  by (cases i) (auto simp: frame_kept_def timer_interrupt_handler_def Let_def on_timer_tick_def handle_keyboard_irq_def
      split: if_splits option.splits)

lemma sleep_frame: "sleep_until_ticks d irqs k = Inr (Some (k', rest)) \<Longrightarrow> frame_kept k k'"
proof (induction irqs arbitrary: k)
  case (Cons i irqs)
  show ?case
  proof (cases "ticks k < d")
    case True
    then obtain k1 where "handle_irq i k = Inr k1" "sleep_until_ticks d irqs k1 = Inr (Some (k', rest))"
      using Cons.prems by (auto dest!: obind_eq_InrD)
    then show ?thesis using handle_irq_frame Cons.IH frame_kept_trans by blast
  qed (use Cons.prems in simp)
qed (auto split: if_splits)

lemma write_user_frame: "write_user X v bs k = Inr k' \<Longrightarrow> frame_kept k k'"
  using write_user_ram by fastforce

lemma tty_read_user_frame: "tty_read_user X buf len nb k = Inr (r, k') \<Longrightarrow> frame_kept k k'"
  by (auto simp: tty_read_user_def split: prod.splits sum.splits dest!: obind_eq_InrD write_user_ram)

lemma stdin_loop_frame: "stdin_loop X buf len irqs k = Inr (Some (r, k', rest)) \<Longrightarrow> frame_kept k k'"
proof (induction irqs arbitrary: k)
  case Nil
  then show ?case unfolding stdin_loop.simps[of _ _ _ "[]"]
    by (auto split: sum.splits if_splits dest!: obind_eq_InrD tty_read_user_frame)
next
  case (Cons i irqs)
  obtain x k1 where t: "tty_read_user X buf len False k = Inr (x, k1)"
    using Cons.prems unfolding stdin_loop.simps[of _ _ _ "_ # _"] by (auto dest!: obind_eq_InrD)
  note f1 = tty_read_user_frame[OF t]
  consider "k' = k1" | k2 where "handle_irq i k1 = Inr k2" "stdin_loop X buf len irqs k2 = Inr (Some (r, k', rest))"
    using Cons.prems t unfolding stdin_loop.simps[of _ _ _ "_ # _"] by (auto split: sum.splits if_splits dest!: obind_eq_InrD)
  then show ?case
  proof cases
    case 2
    then show ?thesis using f1 handle_irq_frame Cons.IH frame_kept_trans by blast
  qed (use f1 in simp)
qed

lemma fs_read_frame:
  assumes "fs_read X fd buf len irqs k = Inr (Some (r, k', rest))"
  shows "frame_kept k k'"
proof (cases "fd = 0 \<and> \<not> len > 8192")
  case True
  then show ?thesis using assms stdin_loop_frame tty_read_user_frame
    unfolding fs_read_def by (fastforce split: if_splits sum.splits dest!: obind_eq_InrD)
next
  case False
  then show ?thesis using assms
    unfolding fs_read_def by (auto simp: Let_def split: if_splits option.splits dest!: obind_eq_InrD write_user_frame)
qed

lemma file_frame [simp]: "frame_kept k (file_insert fd d k) " "frame_kept k (file_remove fd k)"
  by (simp_all add: file_insert_def file_remove_def)

lemma sys_write_frame: "sys_write X fd buf len k = Inr (r, k') \<Longrightarrow> frame_kept k k'"
  by (auto simp: sys_write_def write_fd_any_def split: if_splits option.splits dest!: obind_eq_InrD)

lemma sys_close_frame: "sys_close fd k = (r, k') \<Longrightarrow> frame_kept k k'"
  by (auto simp: sys_close_def split: if_splits)

lemma sys_open_frame: "sys_open X p fl k = Inr (r, k') \<Longrightarrow> frame_kept k k'"
  by (drule sys_open_cases) (auto simp: open_file_def Let_def file_insert_def split: if_splits)

lemma with_mapper_frame: "with_mapper f k = Inr (okk, k') \<Longrightarrow> frame_kept k k'"
  by (auto simp: with_mapper_def split: option.splits dest!: obind_eq_InrD)

lemma map_brk_frame:
  "map_brk_shrink X a b k = Inr (okk, k') \<Longrightarrow> frame_kept k k'" "map_brk_grow X a b fl k = Inr (okk, k') \<Longrightarrow> frame_kept k k'"
  by (auto simp: map_brk_shrink_def map_brk_grow_def split: if_splits dest!: obind_eq_InrD with_mapper_frame)

lemma sys_brk_frame: "sys_brk X addr k = Inr (r, k') \<Longrightarrow> frame_kept k k'"
  by (auto simp: sys_brk_def Let_def split: option.splits if_splits dest!: obind_eq_InrD map_brk_frame)

lemma sys_mmap_frame: "sys_mmap X addr len prot k = Inr (r, k') \<Longrightarrow> frame_kept k k'"
  by (auto simp: sys_mmap_def mmap_addr_def mmap_install_def map_user_anon_pages_def Let_def split: option.splits if_splits
      dest!: obind_eq_InrD with_mapper_frame)

lemma sys_munmap_frame:
  assumes "sys_munmap X addr len k = Inr (r, k')"
  shows "frame_kept k k'"
proof -
  have u: "frame_kept k1 k2" if "unmap_user_range X addr n k1 = Inr (okk, k2)" for n k1 k2 okk
    using with_mapper_frame that unfolding unmap_user_range_def by blast
  show ?thesis using assms
    by (auto simp: sys_munmap_def Let_def split: option.splits if_splits dest!: obind_eq_InrD u)
qed

lemma map_child_stack_and_copy_frame:
  assumes "map_child_stack_and_copy X sv k = Inr (okk, k')"
  shows "frame_kept k k'"
proof -
  obtain o1 k1 where k1: "map_child_stack X k = Inr (o1, k1)"
    using assms by (auto simp: map_child_stack_and_copy_def dest!: obind_eq_InrD)
  have f: "frame_kept k k1" using k1 with_mapper_frame unfolding map_child_stack_def by (auto dest!: obind_eq_InrD)
  have "k' = k1 \<or> (\<exists>a b is. copy_user_pages X a b is k1 = Inr (okk, k'))"
    using assms k1 by (auto simp: map_child_stack_and_copy_def Let_def split: if_splits)
  then show ?thesis using f copy_user_pages_ram by fastforce
qed

lemma sys_fork_frame:
  assumes "sys_fork X rsp_now at_box k = Inr (r, k')"
  shows "frame_kept k k'"
  using assms
  by (auto simp: sys_fork_def Let_def note_yield_def enqueue_new_task_def with_sched_def alloc_slot_def set_syscall_saved_def
      split: option.splits if_splits dest!: obind_eq_InrD map_child_stack_and_copy_frame)

lemma load_elf_mapped_frame: "load_elf_mapped X img b k = Inr (r, k') \<Longrightarrow> frame_kept k k'"
  by (auto simp: load_elf_mapped_def Let_def split: option.splits dest!: obind_eq_InrD)

lemma load_elf_exec_frame:
  assumes "load_elf_exec X img b argv envp k = Inr (r, k')"
  shows "frame_kept k k'"
proof -
  obtain k1 where k1: "unmap_old_image_best_effort X k = Inr k1" using assms by (auto simp: load_elf_exec_def dest!: obind_eq_InrD)
  have f1: "frame_kept k k1"
    using k1 with_mapper_frame unfolding unmap_old_image_best_effort_def by (auto dest!: obind_eq_InrD)
  obtain r2 k2 where k2: "load_elf_mapped X img b k1 = Inr (r2, k2)"
    using assms k1 by (auto simp: load_elf_exec_def dest!: obind_eq_InrD)
  have f2: "frame_kept k k2" using f1 load_elf_mapped_frame[OF k2] frame_kept_trans by blast
  have f3: "frame_kept k (apply_user_meta meta k2)" for meta
    using f2 by (simp add: frame_kept_def apply_user_meta_def set_user_rw_image_start_def set_user_image_end_def)
  have "k' = k2 \<or> (\<exists>r meta. build_exec_stack X meta argv envp (apply_user_meta meta k2) = Inr (r, k'))"
    using assms k1 k2 by (auto simp: load_elf_exec_def split: sum.splits dest!: obind_eq_InrD)
  then show ?thesis using f2 f3 build_exec_stack_ram by fastforce
qed

lemma sys_execve_frame: "sys_execve X bin p a e k = Inr (r, k') \<Longrightarrow> frame_kept k k'"
  by (drule sys_execve_cases) (auto simp: set_user_entry_def set_syscall_saved_def dest!: load_elf_exec_frame)

lemma sys_nanosleep_frame: "sys_nanosleep X req irqs k = Inr (Some (r, k', rest)) \<Longrightarrow> frame_kept k k'"
  by (auto simp: sys_nanosleep_def split: if_splits option.splits dest!: obind_eq_InrD sleep_frame)

lemma sys_wait4_frame: "sys_wait4 X t w k = Inr (r, k') \<Longrightarrow> frame_kept k k'"
  by (auto simp: sys_wait4_def wait_reap_def split: option.splits if_splits dest!: obind_eq_InrD write_user_ram)

lemma returned_eq: "returned irqs r = Inr (Returned v k' irqs') \<longleftrightarrow> r = Inr (v, k') \<and> irqs' = irqs"
  by (cases r) (auto simp: returned_def)

lemma waited_eq: "waited r = Inr (Returned v k' irqs') \<longleftrightarrow> r = Inr (Some (v, k', irqs'))"
  by (cases r) (auto simp: waited_def split: option.splits)

lemma switched_neq: "switched r \<noteq> Inr (Returned v k' irqs')"
  by (cases r) (auto simp: switched_def split: option.splits)

lemma syscall_dispatch_frame:
  assumes "syscall_dispatch X E n a0 a1 a2 irqs k = Inr (Returned v k' irqs')"
  shows "frame_kept k k'"
  using assms unfolding syscall_dispatch_def
  by (elim if_eqE) (auto simp: returned_eq waited_eq switched_neq note_yield_def
      dest: fs_read_frame sys_write_frame sys_open_frame sys_close_frame sys_brk_frame sys_mmap_frame sys_munmap_frame
        sys_fork_frame sys_execve_frame sys_nanosleep_frame sys_wait4_frame pid_calls_ok)

section \<open>The tail resumes a task\<close>

lemma proc_of_slot_fields [simp]:
  "proc_of_slot (k\<lparr>SCHED := s\<rparr>) = proc_of_slot k" "proc_of_slot (k\<lparr>CURRENT_SLOT := c\<rparr>) = proc_of_slot k"
  "proc_of_slot (k\<lparr>cpu := m\<rparr>) = proc_of_slot k" "proc_of_slot (k\<lparr>NEED_RESCHED := b\<rparr>) = proc_of_slot k"
  by (simp_all add: fun_eq_iff proc_of_slot_def)

lemma rotate_runnable_proc [simp]: "proc_of_slot (rotate_runnable k) = proc_of_slot k"
  by (simp add: rotate_runnable_def with_sched_def split: option.splits)

lemma rotate_runnable_list: "run_list (rotate_runnable k) = rotate1 (run_list k)"
  by (simp add: rotate_runnable_def with_sched_def run_list_def sched_rotate_runnable split: option.splits)

lemma syscall_tail_resumes:
  assumes "kernel_ok X n k" "current_proc k t p" "q = p\<lparr>save := save_from_dispatch_rsp (kmem (cpu k)) d, pending_rax := v\<rparr>"
  shows "\<exists>k' pr m. syscall_tail ret_to v d irqs k = Inr (Some (k', irqs))
    \<and> CURRENT_SLOT k' = hd (filter (slot_is_alive_runnable k) (if NEED_RESCHED k then rotate1 (run_list k) else run_list k))
    \<and> proc_of_slot k' (CURRENT_SLOT k) = Some q \<and> exit_code q = None
    \<and> proc_of_slot k' (CURRENT_SLOT k') = Some pr
    \<and> cpu k' = resume_user (kstack_top pr) (save pr) ret_to (pending_rax pr) m"
proof -
  let ?k1 = "(set_syscall_saved (CURRENT_SLOT k) (save_from_dispatch_rsp (kmem (cpu k)) d) v k)\<lparr>NEED_RESCHED := False\<rparr>"
  let ?k2 = "if NEED_RESCHED k then rotate_runnable ?k1 else ?k1"
  note c = current_procD[OF assms(2)]
  have x: "exit_code p = None"
  proof -
    obtain t' p' where "current_proc k t' p'" "exit_code p' = None" by (rule kernel_ok_current[OF assms(1)])
    then show ?thesis using c(1,5) current_procD(1,5)[of k t' p'] by simp
  qed
  have ok1: "kernel_ok X n ?k1" using set_syscall_saved_ok[OF assms(1)] by simp
  have rs: "resumable ?k2" using kernel_ok_resumable[OF ok1] rotate_runnable_resumable[of ?k1] by simp
  have "proc_of_slot ?k1 i = (if i = CURRENT_SLOT k then Some q else proc_of_slot k i)" for i
    using c by (simp add: proc_of_slot_def set_syscall_saved_def update_slot_def get_slot_update assms(3))
  then have ps: "proc_of_slot ?k2 i = (if i = CURRENT_SLOT k then Some q else proc_of_slot k i)" for i by simp
  have pc: "proc_of_slot k (CURRENT_SLOT k) = Some p" using c by (simp add: proc_of_slot_def)
  have al: "slot_is_alive_runnable ?k2 = slot_is_alive_runnable k"
    using x pc by (simp add: fun_eq_iff slot_is_alive_runnable_def ps assms(3))
  have "slot_is_alive_runnable ?k2 (CURRENT_SLOT k)" using x by (simp add: slot_is_alive_runnable_def ps assms(3))
  then obtain s c' pr m where r: "proc_of_slot ?k2 c' = Some pr"
    "hd (filter (slot_is_alive_runnable ?k2) (run_list ?k2)) = c'"
    "pick_next_and_restore ret_to irqs ?k2 = Inr (Some (?k2\<lparr>SCHED := Some s, CURRENT_SLOT := c',
        cpu := resume_user (kstack_top pr) (save pr) ret_to (pending_rax pr) m\<rparr>, irqs))"
    using pick_and_restore_alive[of ?k2 "CURRENT_SLOT k" ret_to irqs] rs unfolding resumable_def by blast
  let ?k' = "?k2\<lparr>SCHED := Some s, CURRENT_SLOT := c', cpu := resume_user (kstack_top pr) (save pr) ret_to (pending_rax pr) m\<rparr>"
  have "run_list ?k1 = run_list k" by (simp add: run_list_def set_syscall_saved_def)
  then have rl: "run_list ?k2 = (if NEED_RESCHED k then rotate1 (run_list k) else run_list k)"
    by (simp add: rotate_runnable_list)
  have "syscall_tail ret_to v d irqs k = Inr (Some (?k', irqs))"
    using r(3) by (simp add: syscall_tail_def complete_syscall_and_schedule_def Let_def set_syscall_saved_def split: if_splits)
  moreover have "proc_of_slot ?k' = proc_of_slot ?k2" by (simp only: proc_of_slot_fields)
  ultimately show ?thesis using r(1,2) ps x
    by (intro exI[of _ ?k'] exI[of _ pr] exI[of _ m]) (simp add: assms(3) al[symmetric] rl)
qed

text \<open>The registers a task is owed after a system call with result \<open>v\<close>: its own, but for \<open>r14\<close> and \<open>r15\<close>.\<close>

definition owed :: "machine \<Rightarrow> u64 \<Rightarrow> machine \<Rightarrow> bool" where
  "owed m v m' \<longleftrightarrow> rax m' = v \<and> rsp m' = rsp m \<and> rcx m' = rcx m \<and> r11 m' = r11 m
     \<and> rbx m' = rbx m \<and> rbp m' = rbp m \<and> r12 m' = r12 m \<and> r13 m' = r13 m"

lemma saved_context_owed:
  assumes "cpu k = syscall_entry m" "save q = save_from_dispatch_rsp (kmem (cpu k)) (rsp (syscall_entry m))" "pending_rax q = v"
  shows "owed m v (resume_user t (save q) ret_to (pending_rax q) mt)"
proof -
  have "frame_intact m (cpu k)" by (simp add: frame_intact_def assms(1))
  from saved_frame[OF this] resume_user_regs[of t "save q" ret_to v mt] show ?thesis
    by (simp add: owed_def assms(2,3) Let_def)
qed

text \<open>
  (C2) Every system call that produces a result \<open>v\<close> leaves the kernel through the scheduler's tail without
  waiting: it resumes the first live task of the queue (rotated when a switch is due). The caller stays
  alive, and whenever it is resumed from the context saved for it, at once or after other tasks, it
  continues behind its \<open>syscall\<close> instruction with \<open>v\<close> in \<open>rax\<close> and its stack pointer, return
  address, flags and \<open>rbx\<close>, \<open>rbp\<close>, \<open>r12\<close>, \<open>r13\<close>.
\<close>

theorem syscall_returns_to_caller:
  assumes "x86_laws X" "kernel_ok X n k" "Suc n < 2 ^ 40" "image_fits (env_init_elf E)"
    "syscall_dispatch X E (rax (cpu k)) (rdi (cpu k)) (rsi (cpu k)) (rdx (cpu k)) irqs (k\<lparr>cpu := syscall_entry (cpu k)\<rparr>)
       = Inr (Returned v k1 irqs1)"
  shows "\<exists>k' q. handle_syscall X E irqs k = Inr (Some (k', irqs1))
    \<and> CURRENT_SLOT k' = hd (filter (slot_is_alive_runnable k1) (if NEED_RESCHED k1 then rotate1 (run_list k1) else run_list k1))
    \<and> proc_of_slot k' (CURRENT_SLOT k) = Some q \<and> exit_code q = None
    \<and> (\<forall>mt. owed (cpu k) v (resume_user (kstack_top q) (save q) (env_return E) (pending_rax q) mt))
    \<and> (CURRENT_SLOT k' = CURRENT_SLOT k \<longrightarrow> owed (cpu k) v (cpu k'))"
proof -
  let ?m = "cpu k" and ?d = "rsp (syscall_entry (cpu k))"
  have c: "cpu k1 = syscall_entry ?m" "CURRENT_SLOT k1 = CURRENT_SLOT k"
    using syscall_dispatch_frame[OF assms(5)] by (simp_all add: frame_kept_def)
  have ok1: "kernel_ok X (Suc n) k1"
    using syscall_dispatch_ok[OF assms(1) _ assms(3,4,5), of k1] assms(2) by simp
  obtain t p where p: "current_proc k1 t p" by (rule kernel_ok_current[OF ok1])
  let ?q = "p\<lparr>save := save_from_dispatch_rsp (kmem (cpu k1)) ?d, pending_rax := v\<rparr>"
  from syscall_tail_resumes[OF ok1 p refl, of "env_return E" v ?d irqs1] obtain k' pr mt where r:
    "syscall_tail (env_return E) v ?d irqs1 k1 = Inr (Some (k', irqs1))"
    "CURRENT_SLOT k' = hd (filter (slot_is_alive_runnable k1) (if NEED_RESCHED k1 then rotate1 (run_list k1) else run_list k1))"
    "proc_of_slot k' (CURRENT_SLOT k) = Some ?q" "exit_code ?q = None" "proc_of_slot k' (CURRENT_SLOT k') = Some pr"
    "cpu k' = resume_user (kstack_top pr) (save pr) (env_return E) (pending_rax pr) mt"
    using c(2) by auto
  have h: "handle_syscall X E irqs k = Inr (Some (k', irqs1))"
    using assms(5) r(1) by (simp add: handle_syscall_def Let_def dispatch_args_entry)
  have o: "owed ?m v (resume_user tt (save ?q) (env_return E) (pending_rax ?q) mt)" for tt mt
    by (rule saved_context_owed[OF c(1)]) simp_all
  show ?thesis using h r(2-6) o by (intro exI[of _ k'] exI[of _ ?q]) auto
qed

text \<open>A call of \<open>getpid\<close> by the first process after a boot.\<close>

definition demo_env :: call_env where
  "demo_env = \<lparr>env_return = 0x201100, env_fork_rsp = 0, env_box = 0x444444442000, env_init_elf = demo_elf\<rparr>"

lemma demo_elf_fits: "image_fits demo_elf"
  by (simp add: image_fits_def demo_elf_header demo_elf_phdr Let_def seg_end_def)

lemma getpid_dispatch:
  assumes "kernel_ok X n k"
  shows "\<exists>v. syscall_dispatch X E 39 a0 a1 a2 irqs k = Inr (Returned v k irqs)"
proof -
  obtain t p where "current_proc k t p" by (rule kernel_ok_current[OF assms])
  then show ?thesis by (simp add: syscall_dispatch_def rock_consts returned_def current_pid_eq)
qed

lemma demo_booted:
  obtains b where "kernel_main map_x86 slot_segments demo_boot (Timer # replicate 200 Timer) (kernel_static demo_pt (\<lambda>_. 0) demo_machine) = Inr (Some (b, []))"
    "kernel_ok map_x86 0 (bt_kernel b)"
proof -
  obtain b where b: "kernel_main map_x86 slot_segments demo_boot (Timer # replicate 200 Timer) (kernel_static demo_pt (\<lambda>_. 0) demo_machine) = Inr (Some (b, []))"
    using demo_boots by blast
  have "INIT_ELF demo_boot = demo_elf" by (simp add: demo_boot_def)
  then show thesis using kernel_main_ok[OF map_x86_laws demo_bootloader _ b] demo_elf_fits b by (intro that) simp_all
qed

theorem syscall_returns_to_caller_witness:
  "\<exists>b k' q. kernel_main map_x86 slot_segments demo_boot (Timer # replicate 200 Timer) (kernel_static demo_pt (\<lambda>_. 0) demo_machine)
      = Inr (Some (b, []))
    \<and> handle_syscall map_x86 demo_env [] ((bt_kernel b)\<lparr>cpu := demo_machine\<rparr>) = Inr (Some (k', []))
    \<and> proc_of_slot k' (CURRENT_SLOT (bt_kernel b)) = Some q
    \<and> rcx (resume_user (kstack_top q) (save q) 0x201100 (pending_rax q) demo_machine) = 0x400010"
proof -
  obtain b where b: "kernel_main map_x86 slot_segments demo_boot (Timer # replicate 200 Timer) (kernel_static demo_pt (\<lambda>_. 0) demo_machine) = Inr (Some (b, []))"
    "kernel_ok map_x86 0 (bt_kernel b)" by (rule demo_booted)
  let ?k = "(bt_kernel b)\<lparr>cpu := demo_machine\<rparr>"
  have ok: "kernel_ok map_x86 0 ?k" "kernel_ok map_x86 0 (?k\<lparr>cpu := syscall_entry (cpu ?k)\<rparr>)" using b(2) by simp_all
  have e: "image_fits (env_init_elf demo_env)" using demo_elf_fits by (simp add: demo_env_def)
  have rx: "rax (cpu ?k) = 39" by (simp add: demo_machine_def)
  obtain v where "syscall_dispatch map_x86 demo_env 39 (rdi (cpu ?k)) (rsi (cpu ?k)) (rdx (cpu ?k)) [] (?k\<lparr>cpu := syscall_entry (cpu ?k)\<rparr>)
      = Inr (Returned v (?k\<lparr>cpu := syscall_entry (cpu ?k)\<rparr>) [])" using getpid_dispatch[OF ok(2)] by blast
  from syscall_returns_to_caller[OF map_x86_laws ok(1) _ e this[folded rx]] obtain k' q where
    "handle_syscall map_x86 demo_env [] ?k = Inr (Some (k', []))" "proc_of_slot k' (CURRENT_SLOT ?k) = Some q"
    "\<forall>mt. owed (cpu ?k) v (resume_user (kstack_top q) (save q) (env_return demo_env) (pending_rax q) mt)" by auto
  then show ?thesis using b(1) by (intro exI[of _ b] exI[of _ k'] exI[of _ q]) (simp add: owed_def demo_machine_regs demo_env_def)
qed

lemma getpid_returns:
  assumes "x86_laws X" "kernel_ok X n k" "Suc n < 2 ^ 40" "rax (cpu k) = 39"
  shows "\<exists>k'. handle_syscall X E irqs k = Inr (Some (k', irqs))"
proof -
  let ?k = "k\<lparr>cpu := syscall_entry (cpu k)\<rparr>"
  have ok: "kernel_ok X n ?k" using assms(2) by simp
  obtain v where v: "syscall_dispatch X E 39 (rdi (cpu k)) (rsi (cpu k)) (rdx (cpu k)) irqs ?k = Inr (Returned v ?k irqs)"
    using getpid_dispatch[OF ok] by blast
  obtain t p where p: "current_proc ?k t p" by (rule kernel_ok_current[OF ok])
  obtain k' where "syscall_tail (env_return E) v (rsp (syscall_entry (cpu k))) irqs ?k = Inr (Some (k', irqs))"
    using syscall_tail_resumes[OF ok p refl] by blast
  then show ?thesis using v assms(4) by (simp add: handle_syscall_def Let_def dispatch_args_entry)
qed

lemma demo_run:
  obtains b k where "kernel_main map_x86 slot_segments demo_boot (Timer # replicate 200 Timer) (kernel_static demo_pt (\<lambda>_. 0) demo_machine)
      = Inr (Some (b, []))" "kernel_run map_x86 demo_elf (bt_kernel b) 1 k"
proof -
  obtain b where b: "kernel_main map_x86 slot_segments demo_boot (Timer # replicate 200 Timer) (kernel_static demo_pt (\<lambda>_. 0) demo_machine) = Inr (Some (b, []))"
    "kernel_ok map_x86 0 (bt_kernel b)" by (rule demo_booted)
  let ?k = "bt_kernel b"
  let ?k1 = "?k\<lparr>cpu := (cpu ?k)\<lparr>rax := 39\<rparr>, ram := ram ?k\<rparr>"
  have u: "user_step ?k ?k1" unfolding user_step_def
    by (intro exI[of _ "(cpu ?k)\<lparr>rax := 39\<rparr>"] exI[of _ "ram ?k"]) simp
  have r1: "kernel_run map_x86 demo_elf ?k 0 ?k1" by (rule kernel_run_step[OF kernel_run_start step_user[OF u]])
  have "kernel_ok map_x86 0 ?k1" by (rule user_step_ok[OF u b(2)])
  then obtain k2 where "handle_syscall map_x86 demo_env [] ?k1 = Inr (Some (k2, []))"
    using getpid_returns[OF map_x86_laws, of 0 ?k1 demo_env "[]"] by auto
  then have "kernel_step map_x86 demo_elf (0, ?k1) (Suc 0, k2)" by (intro step_syscall[where E = demo_env]) (simp_all add: demo_env_def)
  then have "kernel_run map_x86 demo_elf ?k 1 k2" using kernel_run_step[OF r1] by simp
  then show thesis using b(1) that by blast
qed

end
