(* ===== verification/Spec2Isabelle.thy ===== *)
theory Spec2Isabelle
  imports Rock_Return
begin

text \<open>
  A model of the rockos kernel, a small x86_64 kernel written in Rust (\<open>src/src\<close>, every module of it),
  and the theorems that make it correct.

  \<^bold>\<open>The program.\<close> The boot loader enters \<open>kernel_main\<close> (\<open>main.rs\<close>), which sets up frames
  (\<open>memory.rs\<close>), page tables (\<open>paging.rs\<close>), the kernel heap's pages (\<open>heap.rs\<close>), the screen and
  the serial line (\<open>vga.rs\<close>, \<open>serial.rs\<close>), segments, interrupts and the timer (\<open>gdt.rs\<close>,
  \<open>interrupts.rs\<close>, \<open>pit.rs\<close>) and the \<open>syscall\<close> instruction, loads the first program
  (\<open>elf.rs\<close>, \<open>user.rs\<close>) and enters user mode. From then on the kernel runs when a program makes a
  system call (\<open>syscall.rs\<close>, with the handlers in \<open>process.rs\<close> and \<open>fs.rs\<close>) or an interrupt
  arrives (\<open>keyboard.rs\<close>, \<open>tty.rs\<close>, \<open>scheduler.rs\<close>); at the end of a call the scheduler picks
  the task to resume (\<open>scheduler.rs\<close>, \<open>task.rs\<close>). All processes share one address space.

  \<^bold>\<open>How it is modelled.\<close> A Rust struct is a record, an enum a datatype, \<open>u8\<close> to \<open>u64\<close> are words,
  \<open>usize\<close> is \<open>nat\<close> and \<open>i64\<close> is \<open>int\<close> with its range written out. The statics of all modules are
  the fields of one record, \<open>kernel\<close>, together with the page table, the bytes of physical memory and the
  registers. A function of the source is a function of the same name (with the module's name in front
  where two modules use one name) that takes and returns this record or the part of it that it uses. A
  panic is the left value of \<open>outcome\<close>; the arithmetic is that of the debug profile, in which overflow
  panics. Where the code waits (\<open>hlt\<close> loops), it takes the list of interrupts to come, runs their
  handlers, and returns what is left of the list; \<open>Inr None\<close> is a wait that is not over when the list
  ends. Polling loops take the list of values a port yields in the same way. No other bound or fuel is
  used: all other loops are structural or have a termination proof.

  \<^bold>\<open>Parameters.\<close> Code outside the repository is an argument. The page table operations of the
  \<open>x86_64\<close> crate are the record \<open>x86\<close>, with their documented behaviour as \<open>x86_laws\<close>; the instance
  \<open>map_x86\<close> shows that the laws can hold and is the one the witnesses run on. The crate's segment table
  is the record \<open>segments\<close>, with the instance \<open>slot_segments\<close>. Boot information, the bytes of
  \<open>assets/init.elf\<close> and addresses chosen by the heap are fields of \<open>boot_env\<close> and \<open>call_env\<close>.

  \<^bold>\<open>The theories.\<close>
  \<^item> \<open>Rock_Prelude\<close>: outcomes, checked arithmetic, list and word lemmas, reachable states and the
    locale \<open>invariant_of\<close>.
  \<^item> \<open>Rock_Memory\<close> (\<open>memory.rs\<close>): the bitmap allocator; interprets the locale \<open>frame_source\<close>.
    Frames are never handed out twice and never lost.
  \<^item> \<open>Rock_Paging\<close> (\<open>paging.rs\<close>): the mapper's laws and the module's wrappers.
  \<^item> \<open>Rock_Keyboard\<close> (\<open>keyboard.rs\<close>) and \<open>Rock_Tty\<close> (\<open>tty.rs\<close>): the scan code ring refines a
    bounded queue (locale \<open>bounded_fifo\<close>); a typed line is what a read returns.
  \<^item> \<open>Rock_Task\<close> (\<open>task.rs\<close> and the assembly of \<open>syscall.rs\<close>): the frame of a system call, instruction
    by instruction; what survives a call and what does not.
  \<^item> \<open>Rock_Serial\<close>, \<open>Rock_Vga\<close>, \<open>Rock_Console\<close>: the serial driver, the text screen, \<open>print!\<close> and
    \<open>println!\<close> with the number formats; the handwritten hexadecimal printer of the fault handlers prints
    what the library's format prints.
  \<^item> \<open>Rock_Devices\<close> (\<open>pit.rs\<close>, \<open>interrupts.rs\<close>, \<open>gdt.rs\<close>, \<open>syscall::init\<close>): the port writes of the
    drivers, against a specification of the chips; the segment order that \<open>sysret\<close> needs.
  \<^item> \<open>Rock_Kernel\<close>: the kernel's record and its accesses to user memory.
  \<^item> \<open>Rock_Process\<close> and \<open>Rock_User\<close> (\<open>process.rs\<close>, \<open>user.rs\<close>): the process table, waiting for a
    child, the checks of user buffers.
  \<^item> \<open>Rock_Vm\<close> and \<open>Rock_Vm_Calls\<close> (\<open>process.rs\<close>): \<open>brk\<close>, \<open>mmap\<close> and \<open>munmap\<close>; they change exactly
    the mappings they announce and keep every frame owned by at most one page.
  \<^item> \<open>Rock_Sched\<close> (\<open>scheduler.rs\<close> and the interrupt handlers): the run queue (locale \<open>round_robin\<close>), time
    slices, sleeping, the choice of the next task.
  \<^item> \<open>Rock_Fs\<close> (\<open>fs.rs\<close>): descriptors and RAM files (locale \<open>file_table\<close>), reads from the terminal.
  \<^item> \<open>Rock_Fork\<close>, \<open>Rock_Elf\<close>, \<open>Rock_Elf_Load\<close>, \<open>Rock_Exec_Stack\<close>, \<open>Rock_Exec\<close> (\<open>process.rs\<close>,
    \<open>elf.rs\<close>): \<open>fork\<close>, the loader and the memory a load leaves, the initial stack read back, \<open>execve\<close>.
  \<^item> \<open>Rock_Syscall\<close> (\<open>syscall.rs\<close>): the dispatcher and the path of a whole call, \<open>nanosleep\<close>.
  \<^item> \<open>Rock_Inv\<close> and \<open>Rock_Steps\<close>: the kernel's invariant, that every call and every interrupt keeps it,
    and the kernel as a machine \<open>kernel_step\<close>, an interpretation of \<open>invariant_of\<close>.
  \<^item> \<open>Rock_Boot\<close> (\<open>main.rs\<close>, \<open>heap.rs\<close>) and \<open>Rock_Boot_Run\<close>: the boot establishes the invariant; a boot
    that runs to its end.
  \<^item> \<open>Rock_Return\<close>: a call that returns resumes its caller with the result in \<open>rax\<close>.

  \<^bold>\<open>The bound on runs.\<close> \<open>kernel_run\<close> counts system calls. The theorems on whole runs are for fewer
  than \<open>2 ^ 40\<close> calls, since \<open>NEXT_FD\<close> and \<open>NEXT_MMAP\<close> only grow: each call adds at most 1 and
  \<open>0x70000\<close>, so below this bound neither counter wraps.

  \<^bold>\<open>Interrupts.\<close> They arrive in user mode and where the kernel waits. A system call starts with
  interrupts off (\<open>SFMASK\<close> clears the flag). A wait turns them on (\<open>enable_and_hlt\<close>) and leaves them on;
  interrupts between the end of a wait and the end of the call, and at boot those outside the two waiting
  loops after \<open>sti\<close>, are not modelled.

  \<^bold>\<open>Not modelled.\<close> The allocator behind \<open>Box\<close>, \<open>Vec\<close> and \<open>String\<close> (\<open>linked_list_allocator\<close>): only
  the mapping of its pages is modelled, and kernel allocations never fail. Locks: a lock is
  taken to be free when it is asked for (one processor, interrupts off during a system call). The aliasing of video memory and
  kernel stacks with \<open>ram\<close>: they are separate fields. The panic and allocation error handlers and the
  endless loops at the end of the fault handlers, which do nothing more. \<open>process::mark_zombie_current\<close>,
  whose body is empty. \<open>build.rs\<close>, the scripts and the
  user programs under \<open>userspace\<close>, which are not part of the kernel.
\<close>

section \<open>The whole kernel\<close>



text \<open>
  (C3) The process table keeps its shape in every such run: it has 32 slots, ids are unique and between 1
  and 1023, no process is its own parent, the heap of each ends between its base and its limit, and each
  mapped area is a page-aligned, non-empty range within the bounds of the mapping region.
\<close>

theorem process_table_well_formed:
  assumes "x86_laws X" "bootloader_ok X B pt" "image_fits (INIT_ELF B)"
    "kernel_main X G B irqs (kernel_static pt r m) = Inr (Some (b, rest))"
    "kernel_run X (INIT_ELF B) (bt_kernel b) n k" "n < 2 ^ 40"
  shows "\<exists>t. TABLE k = Some t \<and> length t = 32
    \<and> (\<forall>i j p q. get_slot t i = Some p \<longrightarrow> get_slot t j = Some q \<longrightarrow> pid p = pid q \<longrightarrow> i = j)
    \<and> (\<forall>i p. get_slot t i = Some p \<longrightarrow> 1 \<le> unat (pid p) \<and> unat (pid p) < 1024 \<and> parent p \<noteq> Some (pid p)
         \<and> 0x404000 \<le> brk_end p \<and> brk_end p \<le> 0x410000
         \<and> (\<forall>a \<in> set (vm_areas p). unat (virt_start a) mod 4096 = 0 \<and> 0x410000 \<le> virt_start a \<and> 0 < va_pages a
              \<and> unat (virt_start a) + va_pages a * 4096 \<le> 0x480000))"
proof -
  have ok: "kernel_ok X n k"
    by (rule kernel_run_ok[OF assms(5,1,3) kernel_main_ok[OF assms(1-4)] assms(6)])
  obtain t p where c: "current_proc k t p" by (rule kernel_ok_current[OF ok])
  note d = table_okD[OF current_procD(2)[OF c]]
  have w: "1 \<le> unat (pid p) \<and> unat (pid p) < 1024 \<and> parent p \<noteq> Some (pid p) \<and> 0x404000 \<le> brk_end p \<and> brk_end p \<le> 0x410000
      \<and> (\<forall>a \<in> set (vm_areas p). unat (virt_start a) mod 4096 = 0 \<and> 0x410000 \<le> virt_start a \<and> 0 < va_pages a
           \<and> unat (virt_start a) + va_pages a * 4096 \<le> 0x480000)" if "get_slot t i = Some p" for i p
    using d(2)[OF that] by (simp add: proc_ok_def area_ok_def list_all_iff page_aligned_def rock_consts)
  show ?thesis using current_procD(1)[OF c] d(1,3) w by blast
qed

theorem process_table_well_formed_witness:
  "\<exists>b k t. kernel_run map_x86 demo_elf (bt_kernel b) 1 k \<and> TABLE k = Some t \<and> length t = 32
     \<and> kernel_main map_x86 slot_segments demo_boot (Timer # replicate 200 Timer) (kernel_static demo_pt (\<lambda>_. 0) demo_machine) = Inr (Some (b, []))"
proof -
  obtain b k where r: "kernel_main map_x86 slot_segments demo_boot (Timer # replicate 200 Timer) (kernel_static demo_pt (\<lambda>_. 0) demo_machine)
      = Inr (Some (b, []))" "kernel_run map_x86 demo_elf (bt_kernel b) 1 k" by (rule demo_run)
  have e: "INIT_ELF demo_boot = demo_elf" by (simp add: demo_boot_def)
  from process_table_well_formed[OF map_x86_laws demo_bootloader _ r(1), of 1 k] show ?thesis using r demo_elf_fits unfolding e by auto
qed

end
